(* ===== verification/Shm_Prelude.thy ===== *)
theory Shm_Prelude
  imports Main "HOL-Library.Word" "HOL-Library.State_Monad"
begin

text \<open>
  Shared vocabulary of the development: the machine integers of the C++ sources, byte
  buffers with bounds-checked access (an access outside a buffer is the value \<open>None\<close>,
  the model of the undefined behaviour of the source), the little-endian codec used by
  every header that crosses the process boundary, the signed-size convention of the slot
  headers, the running of state-passing operations, and the generic lemmas about them.
\<close>

section \<open>Machine integers\<close>

type_synonym byte = "8 word"
type_synonym u16 = "16 word"
type_synonym u32 = "32 word"
type_synonym u64 = "64 word"

text \<open>
  An \<open>int32_t\<close> is a 32-bit word read in two's complement (\<^const>\<open>sint\<close>); the cast
  \<open>(uint32_t)x\<close> of the sources is then the identity.
\<close>

type_synonym i32 = "32 word"

section \<open>Collections of facts\<close>

named_theorems shm_consts \<open>numeric values of the constants of the headers\<close>
named_theorems slot_ops \<open>running the operations on one slot\<close>
named_theorems mem_safe \<open>bounds-checked buffer accesses that succeed\<close>

section \<open>Byte buffers\<close>

text \<open>
  A buffer is a byte list. \<open>mem_read off n b\<close> is the \<open>n\<close> bytes at offset \<open>off\<close>;
  \<open>mem_write off src b\<close> is \<open>memcpy(b + off, src, length src)\<close>. Both are \<open>None\<close> when
  the access leaves the buffer.
\<close>

definition mem_read :: "nat \<Rightarrow> nat \<Rightarrow> 'a list \<Rightarrow> 'a list option" where
  "mem_read off n b = (if off + n \<le> length b then Some (take n (drop off b)) else None)"

definition mem_write :: "nat \<Rightarrow> 'a list \<Rightarrow> 'a list \<Rightarrow> 'a list option" where
  "mem_write off src b =
     (if off + length src \<le> length b
      then Some (take off b @ src @ drop (off + length src) b) else None)"

text \<open>The total version used where the bounds have been checked already.\<close>

definition overwrite :: "nat \<Rightarrow> 'a list \<Rightarrow> 'a list \<Rightarrow> 'a list" where
  "overwrite off src b = take off b @ src @ drop (off + length src) b"

lemma mem_write_eq_overwrite [mem_safe]:
  "off + length src \<le> length b \<Longrightarrow> mem_write off src b = Some (overwrite off src b)"
  by (simp add: mem_write_def overwrite_def)

lemma mem_read_in_bounds [mem_safe]:
  "off + n \<le> length b \<Longrightarrow> mem_read off n b = Some (take n (drop off b))"
  by (simp add: mem_read_def)

lemma mem_read_length: "mem_read off n b = Some c \<Longrightarrow> length c = n"
  by (auto simp: mem_read_def split: if_splits)

lemma length_overwrite [simp]:
  "off + length src \<le> length b \<Longrightarrow> length (overwrite off src b) = length b"
  by (simp add: overwrite_def)

lemma overwrite_Nil [simp]: "overwrite off [] b = b"
  by (simp add: overwrite_def)

lemma nth_overwrite:
  assumes "off + length src \<le> length b" and "i < length b"
  shows "overwrite off src b ! i =
    (if off \<le> i \<and> i < off + length src then src ! (i - off) else b ! i)"
  using assms by (auto simp: overwrite_def nth_append min_def)

lemma overwrite_read_back:
  "off + length src \<le> length b \<Longrightarrow> take (length src) (drop off (overwrite off src b)) = src"
  by (simp add: overwrite_def)

lemma overwrite_frame:
  assumes "off + length src \<le> length b" and "p + n \<le> length b"
    and "p + n \<le> off \<or> off + length src \<le> p"
  shows "take n (drop p (overwrite off src b)) = take n (drop p b)"
proof (rule nth_equalityI)
  show "length (take n (drop p (overwrite off src b))) = length (take n (drop p b))"
    using assms(1) by simp
next
  fix i assume "i < length (take n (drop p (overwrite off src b)))"
  with assms show "take n (drop p (overwrite off src b)) ! i = take n (drop p b) ! i"
    by (auto simp: nth_overwrite)
qed

section \<open>Little-endian codec\<close>

fun le_bytes :: "nat \<Rightarrow> nat \<Rightarrow> byte list" where
  "le_bytes 0 x = []"
| "le_bytes (Suc n) x = word_of_nat (x mod 256) # le_bytes n (x div 256)"

fun le_nat :: "byte list \<Rightarrow> nat" where
  "le_nat [] = 0"
| "le_nat (b # bs) = unat b + 256 * le_nat bs"

lemma length_le_bytes [simp]: "length (le_bytes n x) = n"
  by (induction n arbitrary: x) auto

lemma unat_byte_of_nat: "unat (word_of_nat (x mod 256) :: byte) = x mod 256"
  by (simp add: unat_of_nat)

lemma le_nat_le_bytes: "le_nat (le_bytes n x) = x mod 256 ^ n"
proof (induction n arbitrary: x)
  case 0
  then show ?case by simp
next
  case (Suc n)
  have "x mod (256 * 256 ^ n) = 256 * (x div 256 mod 256 ^ n) + x mod 256"
    by (rule mod_mult2_eq)
  with Suc show ?case by (simp add: unat_byte_of_nat)
qed

lemma le_nat_bound: "le_nat bs < 256 ^ length bs"
proof (induction bs)
  case Nil
  then show ?case by simp
next
  case (Cons b bs)
  have "unat b < 256" using unsigned_less [of b] by simp
  with Cons show ?case by simp
qed

lemma le_bytes_le_nat: "le_bytes (length bs) (le_nat bs) = bs"
proof (induction bs)
  case Nil
  then show ?case by simp
next
  case (Cons b bs)
  have "unat b < 256" using unsigned_less [of b] by simp
  then show ?case using Cons by simp
qed

definition put_u32 :: "u32 \<Rightarrow> byte list" where
  "put_u32 w = le_bytes 4 (unat w)"

definition put_u64 :: "u64 \<Rightarrow> byte list" where
  "put_u64 w = le_bytes 8 (unat w)"

definition get_u32 :: "byte list \<Rightarrow> u32" where
  "get_u32 bs = word_of_nat (le_nat (take 4 bs))"

definition get_u64 :: "byte list \<Rightarrow> u64" where
  "get_u64 bs = word_of_nat (le_nat (take 8 bs))"

lemma length_put_u32 [simp]: "length (put_u32 w) = 4"
  by (simp add: put_u32_def)

lemma length_put_u64 [simp]: "length (put_u64 w) = 8"
  by (simp add: put_u64_def)

lemma get_put_u32 [simp]: "get_u32 (put_u32 w @ bs) = w"
proof -
  have "unat w < 256 ^ 4" using unsigned_less [of w] by simp
  then show ?thesis
    by (simp add: get_u32_def put_u32_def le_nat_le_bytes)
qed

lemma get_put_u64 [simp]: "get_u64 (put_u64 w @ bs) = w"
proof -
  have "unat w < 256 ^ 8" using unsigned_less [of w] by simp
  then show ?thesis
    by (simp add: get_u64_def put_u64_def le_nat_le_bytes)
qed

lemma put_get_u32: "length bs = 4 \<Longrightarrow> put_u32 (get_u32 bs) = bs"
  using le_bytes_le_nat [of bs] le_nat_bound [of bs]
  by (simp add: put_u32_def get_u32_def unat_of_nat)

lemma put_get_u64: "length bs = 8 \<Longrightarrow> put_u64 (get_u64 bs) = bs"
  using le_bytes_le_nat [of bs] le_nat_bound [of bs]
  by (simp add: put_u64_def get_u64_def unat_of_nat)

lemma get_u32_take [simp]: "get_u32 (take 4 bs) = get_u32 bs"
  by (simp add: get_u32_def)

lemma get_u64_take [simp]: "get_u64 (take 8 bs) = get_u64 bs"
  by (simp add: get_u64_def)

lemma put_get_u32_take: "4 \<le> length bs \<Longrightarrow> put_u32 (get_u32 bs) = take 4 bs"
  using put_get_u32 [of "take 4 bs"] by simp

lemma put_get_u64_take: "8 \<le> length bs \<Longrightarrow> put_u64 (get_u64 bs) = take 8 bs"
  using put_get_u64 [of "take 8 bs"] by simp

section \<open>Signed sizes\<close>

lemma shift_mod:
  fixes k M :: int
  assumes "0 \<le> k" and "k < 2 * M"
  shows "(k + M) mod (2 * M) = (if k < M then k + M else k - M)"
proof (cases "k < M")
  case False
  have "(k + M) mod (2 * M) = (k - M + 2 * M) mod (2 * M)"
    by (simp add: algebra_simps)
  also have "\<dots> = (k - M) mod (2 * M)" by (rule mod_add_self2)
  also have "\<dots> = k - M" using assms False by simp
  finally show ?thesis using False by simp
qed (use assms in simp)

lemma neg_mod:
  fixes k M :: int
  assumes "0 \<le> k" and "k < M"
  shows "(- k) mod M = (if k = 0 then 0 else M - k)"
  using assms by (simp add: zmod_zminus1_eq_if)

lemma sint_i32: "sint (w :: i32) = (if uint w < 2 ^ 31 then uint w else uint w - 2 ^ 32)"
  using shift_mod [of "uint w" "2 ^ 31"] uint_lt2p [of w] uint_ge_0 [of w]
  by (simp add: sint_uint signed_take_bit_eq_take_bit_shift take_bit_eq_mod)

text \<open>
  The sources compute the magnitude of a signed size as
  \<open>(size < 0) ? (0u - (uint32_t)size) : (uint32_t)size\<close>, in unsigned arithmetic so that
  \<open>INT32_MIN\<close> has the magnitude \<open>2 ^ 31\<close>.
\<close>

definition absSize :: "i32 \<Rightarrow> u32" where
  "absSize sz = (if sz <s 0 then 0 - sz else sz)"

lemma sless_0: "(sz :: i32) <s 0 \<longleftrightarrow> sint sz < 0"
  by (simp add: word_sless_alt)

lemma uint_absSize: "uint (absSize sz) = \<bar>sint sz\<bar>"
proof -
  have "uint (0 - sz) = (- uint sz) mod 2 ^ 32"
    by (simp add: uint_word_ariths)
  also have "\<dots> = (if uint sz = 0 then 0 else 2 ^ 32 - uint sz)"
    by (rule neg_mod) (use uint_lt2p [of sz] in simp_all)
  finally show ?thesis
    using uint_lt2p [of sz] uint_ge_0 [of sz]
    by (simp add: absSize_def sless_0 sint_i32 split: if_splits)
qed

lemma unat_absSize: "unat (absSize sz) = nat \<bar>sint sz\<bar>"
  by (metis nat_uint_eq uint_absSize)

lemma sint_small: "(w :: u32) < 2 ^ 31 \<Longrightarrow> sint w = int (unat w)"
  by (simp add: sint_i32 word_less_def)

lemma sint_of_nat_i32: "n < 2 ^ 31 \<Longrightarrow> sint (word_of_nat n :: i32) = int n"
  by (subst sint_small) (simp_all add: word_less_nat_alt unsigned_of_nat take_bit_nat_eq_self)

lemma sint_neg_of_nat_i32: "n < 2 ^ 31 \<Longrightarrow> sint (- word_of_nat n :: i32) = - int n"
proof -
  assume n: "n < 2 ^ 31"
  then have "uint (- word_of_nat n :: i32) = (- int n) mod 2 ^ 32"
    by (simp add: uint_word_ariths unsigned_of_nat take_bit_eq_mod mod_minus_eq)
  also have "\<dots> = (if int n = 0 then 0 else 2 ^ 32 - int n)"
    by (rule neg_mod) (use n in simp_all)
  finally show ?thesis
    using n by (simp add: sint_i32)
qed

text \<open>Ranges and zero extension.\<close>

lemma unat_u32_less: "unat (x :: u32) < 2 ^ 32"
  using uint_lt2p [of x] by (simp add: unat_eq_nat_uint nat_less_iff del: nat_uint_eq)

lemma unat_u64_less: "unat (x :: u64) < 2 ^ 64"
  using uint_lt2p [of x] by (simp add: unat_eq_nat_uint nat_less_iff del: nat_uint_eq)

lemma unat_ucast_32_64 [simp]: "unat (ucast (x :: u32) :: u64) = unat x"
  using unat_u32_less [of x] by (simp add: unsigned_ucast_eq take_bit_nat_eq_self)

lemma unat_Suc_u32: "unat (x :: u32) < unat (y :: u32) \<Longrightarrow> unat (x + 1) = Suc (unat x)"
  using unat_u32_less [of y] by (simp add: unat_plus_if')

section \<open>Time\<close>

text \<open>
  \<open>duration_cast<milliseconds>(now - start).count()\<close> on time points of the steady clock, in
  nanoseconds.
\<close>

definition elapsed_ms :: "nat \<Rightarrow> nat \<Rightarrow> nat" where
  "elapsed_ms start now = (now - start) div 1000000"

section \<open>State-passing operations and their outcomes\<close>

text \<open>
  An operation that changes shared state is a value of the state monad. One that may block
  or fault returns an outcome: \<open>Ret\<close> a value, \<open>Trap\<close> for undefined behaviour of the source
  (an access outside a buffer, a division by zero), \<open>NoFuel\<close> when the bound on the number
  of loop iterations is used up before the loop ends.
\<close>

datatype 'a outcome = Ret 'a | Trap | NoFuel

abbreviation ret :: "'a \<Rightarrow> ('s, 'a) state" where
  "ret \<equiv> State_Monad.return"

abbreviation modify :: "('s \<Rightarrow> 's) \<Rightarrow> ('s, unit) state" where
  "modify f \<equiv> State (\<lambda>s. ((), f s))"

abbreviation gets :: "('s \<Rightarrow> 'a) \<Rightarrow> ('s, 'a) state" where
  "gets f \<equiv> State (\<lambda>s. (f s, s))"

definition obind :: "('s, 'a outcome) state \<Rightarrow> ('a \<Rightarrow> ('s, 'b outcome) state) \<Rightarrow> ('s, 'b outcome) state"
  where "obind m f = do {
     r \<leftarrow> m;
     case r of Ret a \<Rightarrow> f a | Trap \<Rightarrow> ret Trap | NoFuel \<Rightarrow> ret NoFuel }"

text \<open>
  \<open>wp m Q s\<close>: running \<open>m\<close> from \<open>s\<close> ends in a result and a state that satisfy \<open>Q\<close>. The rules
  below push it through the constructs of the monad, so that a property of an operation is
  proved from the rules of its steps.
\<close>

definition wp :: "('s, 'a) state \<Rightarrow> ('a \<Rightarrow> 's \<Rightarrow> bool) \<Rightarrow> 's \<Rightarrow> bool" where
  "wp m Q s = (case run_state m s of (a, s') \<Rightarrow> Q a s')"

named_theorems wp_rules \<open>weakest preconditions of the operations\<close>

lemma wp_return [wp_rules]: "wp (ret a) Q s = Q a s"
  by (simp add: wp_def)

lemma wp_bind [wp_rules]: "wp (State_Monad.bind m f) Q s = wp m (\<lambda>a. wp (f a) Q) s"
  by (simp add: wp_def split: prod.splits)

lemma wp_modify [wp_rules]: "wp (modify f) Q s = Q () (f s)"
  by (simp add: wp_def)

lemma wp_gets [wp_rules]: "wp (gets f) Q s = Q (f s) s"
  by (simp add: wp_def)

lemma wp_if [wp_rules]: "wp (if b then m else n) Q s = (if b then wp m Q s else wp n Q s)"
  by simp

lemma wp_obind [wp_rules]:
  "wp (obind m f) Q s =
     wp m (\<lambda>r. case r of Ret a \<Rightarrow> wp (f a) Q | Trap \<Rightarrow> Q Trap | NoFuel \<Rightarrow> Q NoFuel) s"
  by (simp add: obind_def wp_def split: prod.splits outcome.splits)

lemma wp_mono: "wp m P s \<Longrightarrow> (\<And>a s'. P a s' \<Longrightarrow> Q a s') \<Longrightarrow> wp m Q s"
  by (auto simp: wp_def split: prod.splits)

lemma wp_conj: "wp m P s \<Longrightarrow> wp m Q s \<Longrightarrow> wp m (\<lambda>a s'. P a s' \<and> Q a s') s"
  by (auto simp: wp_def split: prod.splits)

lemma wp_run: "wp m Q s \<Longrightarrow> run_state m s = (a, s') \<Longrightarrow> Q a s'"
  by (simp add: wp_def)

end
