(* ===== verification/Shm_Layout.thy ===== *)
theory Shm_Layout
  imports Shm_Prelude
begin

text \<open>
  The binary interface of the shared segment: the constants, the struct layouts and the
  byte encodings of \<open>src/include/shm/IPCUtils.h\<close>, \<open>IPCProtocol.h\<close>, \<open>RingBufferUtils.h\<close> and
  of the two stream headers of \<open>Stream.h\<close>. Layouts are computed from the declared member
  types by the C++ rule for standard-layout structs (each member at the next multiple of
  its alignment, the size rounded up to the struct's alignment), so the offsets are
  results and not inputs.
\<close>

section \<open>Constants\<close>

definition HOST_STATE_ACTIVE :: u32 where "HOST_STATE_ACTIVE = 0"
definition HOST_STATE_WAITING :: u32 where "HOST_STATE_WAITING = 1"
definition GUEST_STATE_ACTIVE :: u32 where "GUEST_STATE_ACTIVE = 0"
definition GUEST_STATE_WAITING :: u32 where "GUEST_STATE_WAITING = 1"

definition SHM_MAGIC :: u32 where "SHM_MAGIC = 0x584C4C21"
definition SHM_VERSION :: u32 where "SHM_VERSION = 0x00080000"

text \<open>
  \<open>MsgType\<close> is an enumeration with the underlying type \<open>uint32_t\<close>; a peer may store any
  value in the header, so the model keeps the 32-bit word and names the values.
\<close>

type_synonym MsgType = u32

definition NORMAL :: MsgType where "NORMAL = 0"
definition HEARTBEAT_REQ :: MsgType where "HEARTBEAT_REQ = 1"
definition HEARTBEAT_RESP :: MsgType where "HEARTBEAT_RESP = 2"
definition SHUTDOWN :: MsgType where "SHUTDOWN = 3"
definition FLATBUFFER :: MsgType where "FLATBUFFER = 10"
definition GUEST_CALL :: MsgType where "GUEST_CALL = 11"
definition STREAM_START :: MsgType where "STREAM_START = 13"
definition STREAM_CHUNK :: MsgType where "STREAM_CHUNK = 14"
definition SYSTEM_ERROR :: MsgType where "SYSTEM_ERROR = 127"
definition APP_START :: MsgType where "APP_START = 128"

definition SLOT_FREE :: u32 where "SLOT_FREE = 0"
definition SLOT_REQ_READY :: u32 where "SLOT_REQ_READY = 1"
definition SLOT_RESP_READY :: u32 where "SLOT_RESP_READY = 2"
definition SLOT_DONE :: u32 where "SLOT_DONE = 3"
definition SLOT_BUSY :: u32 where "SLOT_BUSY = 4"
definition SLOT_GUEST_BUSY :: u32 where "SLOT_GUEST_BUSY = 5"

lemmas msg_type_defs [shm_consts] =
  NORMAL_def HEARTBEAT_REQ_def HEARTBEAT_RESP_def SHUTDOWN_def FLATBUFFER_def
  GUEST_CALL_def STREAM_START_def STREAM_CHUNK_def SYSTEM_ERROR_def APP_START_def

lemmas slot_state_defs [shm_consts] =
  SLOT_FREE_def SLOT_REQ_READY_def SLOT_RESP_READY_def SLOT_DONE_def SLOT_BUSY_def
  SLOT_GUEST_BUSY_def HOST_STATE_ACTIVE_def HOST_STATE_WAITING_def
  GUEST_STATE_ACTIVE_def GUEST_STATE_WAITING_def

lemma slot_state_distinct [simp]:
  "distinct [SLOT_FREE, SLOT_REQ_READY, SLOT_RESP_READY, SLOT_DONE, SLOT_BUSY, SLOT_GUEST_BUSY]"
  by (simp add: shm_consts)

lemma slot_state_neqs [simp]:
  "SLOT_FREE \<noteq> SLOT_BUSY" "SLOT_BUSY \<noteq> SLOT_FREE"
  "SLOT_REQ_READY \<noteq> SLOT_BUSY" "SLOT_BUSY \<noteq> SLOT_REQ_READY"
  "SLOT_RESP_READY \<noteq> SLOT_BUSY" "SLOT_BUSY \<noteq> SLOT_RESP_READY"
  "SLOT_GUEST_BUSY \<noteq> SLOT_BUSY" "SLOT_BUSY \<noteq> SLOT_GUEST_BUSY"
  "SLOT_DONE \<noteq> SLOT_BUSY" "SLOT_BUSY \<noteq> SLOT_DONE"
  "SLOT_FREE \<noteq> SLOT_REQ_READY" "SLOT_REQ_READY \<noteq> SLOT_FREE"
  "SLOT_FREE \<noteq> SLOT_RESP_READY" "SLOT_RESP_READY \<noteq> SLOT_FREE"
  "SLOT_FREE \<noteq> SLOT_GUEST_BUSY" "SLOT_GUEST_BUSY \<noteq> SLOT_FREE"
  "SLOT_FREE \<noteq> SLOT_DONE" "SLOT_DONE \<noteq> SLOT_FREE"
  "SLOT_REQ_READY \<noteq> SLOT_RESP_READY" "SLOT_RESP_READY \<noteq> SLOT_REQ_READY"
  "SLOT_REQ_READY \<noteq> SLOT_DONE" "SLOT_DONE \<noteq> SLOT_REQ_READY"
  "SLOT_RESP_READY \<noteq> SLOT_DONE" "SLOT_DONE \<noteq> SLOT_RESP_READY"
  "SLOT_GUEST_BUSY \<noteq> SLOT_REQ_READY" "SLOT_REQ_READY \<noteq> SLOT_GUEST_BUSY"
  "SLOT_GUEST_BUSY \<noteq> SLOT_RESP_READY" "SLOT_RESP_READY \<noteq> SLOT_GUEST_BUSY"
  "SLOT_GUEST_BUSY \<noteq> SLOT_DONE" "SLOT_DONE \<noteq> SLOT_GUEST_BUSY"
  "HOST_STATE_ACTIVE \<noteq> HOST_STATE_WAITING" "HOST_STATE_WAITING \<noteq> HOST_STATE_ACTIVE"
  "GUEST_STATE_ACTIVE \<noteq> GUEST_STATE_WAITING" "GUEST_STATE_WAITING \<noteq> GUEST_STATE_ACTIVE"
  by (simp_all add: shm_consts)

section \<open>Struct layout\<close>

text \<open>
  A member has a name, a type and the alignment its \<open>alignas\<close> asks for (1 when there is
  none). \<open>Scalar n\<close> is an \<open>n\<close>-byte scalar aligned to \<open>n\<close>; \<open>Bytes n\<close> is \<open>uint8_t[n]\<close>.
\<close>

datatype ctype = Scalar nat | Bytes nat

fun csize :: "ctype \<Rightarrow> nat" where
  "csize (Scalar n) = n"
| "csize (Bytes n) = n"

fun calign :: "ctype \<Rightarrow> nat" where
  "calign (Scalar n) = n"
| "calign (Bytes n) = 1"

type_synonym member = "string \<times> ctype \<times> nat"

definition align_up :: "nat \<Rightarrow> nat \<Rightarrow> nat" where
  "align_up n a = ((n + a - 1) div a) * a"

fun place :: "nat \<Rightarrow> member list \<Rightarrow> (string \<times> nat) list" where
  "place off [] = []"
| "place off ((f, t, al) # ms) =
     (let o1 = align_up off (max al (calign t)) in (f, o1) # place (o1 + csize t) ms)"

fun struct_end :: "nat \<Rightarrow> member list \<Rightarrow> nat" where
  "struct_end off [] = off"
| "struct_end off ((f, t, al) # ms) =
     struct_end (align_up off (max al (calign t)) + csize t) ms"

definition struct_align :: "nat \<Rightarrow> member list \<Rightarrow> nat" where
  "struct_align al ms = fold (\<lambda>(f, t, a). max (max a (calign t))) ms al"

definition sizeof :: "nat \<Rightarrow> member list \<Rightarrow> nat" where
  "sizeof al ms = align_up (struct_end 0 ms) (struct_align al ms)"

definition offsetof :: "member list \<Rightarrow> string \<Rightarrow> nat option" where
  "offsetof ms f = map_of (place 0 ms) f"

definition SlotHeader_members :: "member list" where
  "SlotHeader_members =
    [(''pre_pad'', Bytes 64, 1), (''state'', Scalar 4, 1), (''hostState'', Scalar 4, 1),
     (''guestState'', Scalar 4, 1), (''msgSeq'', Scalar 4, 1), (''msgType'', Scalar 4, 1),
     (''reqSize'', Scalar 4, 1), (''respSize'', Scalar 4, 1), (''lease'', Scalar 8, 1),
     (''gen'', Scalar 8, 1), (''reserved'', Bytes 16, 1)]"

definition ExchangeHeader_members :: "member list" where
  "ExchangeHeader_members =
    [(''magic'', Scalar 4, 1), (''version'', Scalar 4, 1), (''numSlots'', Scalar 4, 1),
     (''numGuestSlots'', Scalar 4, 1), (''slotSize'', Scalar 4, 1),
     (''reqOffset'', Scalar 4, 1), (''respOffset'', Scalar 4, 1),
     (''fastPathAllowed'', Scalar 4, 1), (''reserved'', Bytes 32, 1)]"

definition StreamHeader_members :: "member list" where
  "StreamHeader_members =
    [(''streamId'', Scalar 8, 1), (''totalSize'', Scalar 8, 1),
     (''totalChunks'', Scalar 4, 1), (''appMsgType'', Scalar 4, 1)]"

definition ChunkHeader_members :: "member list" where
  "ChunkHeader_members =
    [(''streamId'', Scalar 8, 1), (''chunkIndex'', Scalar 4, 1),
     (''payloadSize'', Scalar 4, 1), (''dstOffset'', Scalar 4, 1), (''padding'', Scalar 4, 1)]"

definition RingBufferHeader_members :: "member list" where
  "RingBufferHeader_members =
    [(''writeOffset'', Scalar 8, 128), (''readOffset'', Scalar 8, 128)]"

text \<open>The host-local \<open>Slot\<close>: five pointers or handles, five 32-bit fields, an atomic flag.\<close>

definition Slot_members :: "member list" where
  "Slot_members =
    [(''header'', Scalar 8, 1), (''reqBuffer'', Scalar 8, 1), (''respBuffer'', Scalar 8, 1),
     (''hReqEvent'', Scalar 8, 1), (''hRespEvent'', Scalar 8, 1),
     (''maxReqSize'', Scalar 4, 1), (''maxRespSize'', Scalar 4, 1),
     (''waitStrategy'', Scalar 4, 1), (''msgSeq'', Scalar 4, 1), (''activeWait'', Scalar 1, 1)]"

text \<open>\<open>Placed\<close>, the record of an out-of-order chunk in the reassembler.\<close>

definition Placed_members :: "member list" where
  "Placed_members = [(''dstOffset'', Scalar 8, 1), (''size'', Scalar 4, 1)]"

text \<open>\<open>TransportHeader\<close> is declared under \<open>#pragma pack(push, 1)\<close>.\<close>

definition TransportHeader_size :: nat where
  "TransportHeader_size = 8"

lemmas layout_defs =
  SlotHeader_members_def ExchangeHeader_members_def StreamHeader_members_def
  ChunkHeader_members_def RingBufferHeader_members_def Slot_members_def Placed_members_def
  sizeof_def struct_align_def offsetof_def align_up_def

section \<open>The exchange header on the wire\<close>

record exchange_header =
  magic :: u32
  version :: u32
  xh_numSlots :: u32
  xh_numGuestSlots :: u32
  slotSize :: u32
  reqOffset :: u32
  respOffset :: u32
  fastPathAllowed :: u32

definition ExchangeHeader_bytes :: "exchange_header \<Rightarrow> byte list" where
  "ExchangeHeader_bytes x =
     put_u32 (magic x) @ put_u32 (version x) @ put_u32 (xh_numSlots x) @
     put_u32 (xh_numGuestSlots x) @ put_u32 (slotSize x) @ put_u32 (reqOffset x) @
     put_u32 (respOffset x) @ put_u32 (fastPathAllowed x) @ replicate 32 0"

section \<open>The stream headers on the wire\<close>

record StreamHeader =
  sh_streamId :: u64
  sh_totalSize :: u64
  sh_totalChunks :: u32
  sh_appMsgType :: u32

record ChunkHeader =
  ch_streamId :: u64
  ch_chunkIndex :: u32
  ch_payloadSize :: u32
  ch_dstOffset :: u32
  ch_padding :: u32

definition StreamHeader_bytes :: "StreamHeader \<Rightarrow> byte list" where
  "StreamHeader_bytes h = put_u64 (sh_streamId h) @ put_u64 (sh_totalSize h) @
     put_u32 (sh_totalChunks h) @ put_u32 (sh_appMsgType h)"

definition ChunkHeader_bytes :: "ChunkHeader \<Rightarrow> byte list" where
  "ChunkHeader_bytes h = put_u64 (ch_streamId h) @ put_u32 (ch_chunkIndex h) @
     put_u32 (ch_payloadSize h) @ put_u32 (ch_dstOffset h) @ put_u32 (ch_padding h)"

text \<open>
  Reading a header in place (\<open>static_cast<const StreamHeader*>(req)\<close>): the source has no decoder,
  these are the values of the members of the struct at the bytes the pointer addresses.
\<close>

definition get_StreamHeader :: "byte list \<Rightarrow> StreamHeader" where
  "get_StreamHeader req =
     \<lparr>sh_streamId = get_u64 req, sh_totalSize = get_u64 (drop 8 req),
      sh_totalChunks = get_u32 (drop 16 req), sh_appMsgType = get_u32 (drop 20 req)\<rparr>"

definition get_ChunkHeader :: "byte list \<Rightarrow> ChunkHeader" where
  "get_ChunkHeader req =
     \<lparr>ch_streamId = get_u64 req, ch_chunkIndex = get_u32 (drop 8 req),
      ch_payloadSize = get_u32 (drop 12 req), ch_dstOffset = get_u32 (drop 16 req),
      ch_padding = get_u32 (drop 20 req)\<rparr>"

definition sizeof_StreamHeader :: nat where
  "sizeof_StreamHeader = sizeof 1 StreamHeader_members"

definition sizeof_ChunkHeader :: nat where
  "sizeof_ChunkHeader = sizeof 1 ChunkHeader_members"

definition sizeof_RingBufferHeader :: nat where
  "sizeof_RingBufferHeader = sizeof 1 RingBufferHeader_members"

lemma sizeof_StreamHeader [simp]: "sizeof_StreamHeader = 24"
  by (simp add: sizeof_StreamHeader_def layout_defs)

lemma sizeof_ChunkHeader [simp]: "sizeof_ChunkHeader = 24"
  by (simp add: sizeof_ChunkHeader_def layout_defs)

lemma sizeof_RingBufferHeader [simp]: "sizeof_RingBufferHeader = 256"
  by (simp add: sizeof_RingBufferHeader_def layout_defs)

lemma length_StreamHeader_bytes [simp]: "length (StreamHeader_bytes h) = 24"
  by (simp add: StreamHeader_bytes_def)

lemma length_ChunkHeader_bytes [simp]: "length (ChunkHeader_bytes h) = 24"
  by (simp add: ChunkHeader_bytes_def)

lemma get_StreamHeader_bytes [simp]: "get_StreamHeader (StreamHeader_bytes h @ bs) = h"
  by (simp add: get_StreamHeader_def StreamHeader_bytes_def drop_append)

lemma get_ChunkHeader_bytes [simp]: "get_ChunkHeader (ChunkHeader_bytes h @ bs) = h"
  by (simp add: get_ChunkHeader_def ChunkHeader_bytes_def drop_append)

lemma take_drop_split: "take n (drop m bs) @ drop (m + n) bs = drop m bs"
  by (metis add.commute append_take_drop_id drop_drop)

lemma StreamHeader_bytes_get:
  assumes "length bs = 24" shows "StreamHeader_bytes (get_StreamHeader bs) = bs"
  using assms take_drop_split [of 8 0 bs] take_drop_split [of 8 8 bs]
    take_drop_split [of 4 16 bs]
  by (simp add: StreamHeader_bytes_def get_StreamHeader_def put_get_u32_take put_get_u64_take)

lemma ChunkHeader_bytes_get:
  assumes "length bs = 24" shows "ChunkHeader_bytes (get_ChunkHeader bs) = bs"
  using assms take_drop_split [of 8 0 bs] take_drop_split [of 4 8 bs]
    take_drop_split [of 4 12 bs] take_drop_split [of 4 16 bs]
  by (simp add: ChunkHeader_bytes_def get_ChunkHeader_def put_get_u32_take put_get_u64_take)

section \<open>Layout properties\<close>

text \<open>
  The layouts computed from the declarations satisfy every compile-time ABI assertion
  of the headers: the sizes of the slot, exchange, stream, chunk and ring headers and of
  the host-local slot and the parked-chunk record, and the offset of every asserted field.
\<close>

lemma abi_static_asserts:
  "sizeof 64 SlotHeader_members = 128 \<and> struct_align 64 SlotHeader_members \<ge> 64 \<and>
   map (offsetof SlotHeader_members)
     [''state'', ''hostState'', ''guestState'', ''msgSeq'', ''msgType'', ''reqSize'',
      ''respSize'', ''lease'', ''gen'', ''reserved''] =
     map Some [64, 68, 72, 76, 80, 84, 88, 96, 104, 112] \<and>
   sizeof 1 ExchangeHeader_members = 64 \<and>
   map (offsetof ExchangeHeader_members)
     [''magic'', ''version'', ''numSlots'', ''numGuestSlots'', ''slotSize'', ''reqOffset'',
      ''respOffset'', ''fastPathAllowed'', ''reserved''] =
     map Some [0, 4, 8, 12, 16, 20, 24, 28, 32] \<and>
   sizeof 1 StreamHeader_members = 24 \<and>
   map (offsetof StreamHeader_members) [''streamId'', ''totalSize'', ''totalChunks'', ''appMsgType''] =
     map Some [0, 8, 16, 20] \<and>
   sizeof 1 ChunkHeader_members = 24 \<and>
   map (offsetof ChunkHeader_members)
     [''streamId'', ''chunkIndex'', ''payloadSize'', ''dstOffset'', ''padding''] =
     map Some [0, 8, 12, 16, 20] \<and>
   sizeof 1 RingBufferHeader_members = 256 \<and>
   sizeof 64 Slot_members = 64 \<and> struct_align 64 Slot_members = 64 \<and>
   sizeof 1 Placed_members = 16"
  by code_simp

text \<open>
  A 32-bit read at the declared offset of each exchange-header field returns the field,
  so a peer that maps the segment by the declared offsets sees what the host wrote; the
  header occupies exactly its declared size.
\<close>

lemma exchange_header_roundtrip:
  "length (ExchangeHeader_bytes x) = sizeof 1 ExchangeHeader_members \<and>
   map (\<lambda>f. map_option (\<lambda>o1. get_u32 (drop o1 (ExchangeHeader_bytes x)))
              (offsetof ExchangeHeader_members f))
     [''magic'', ''version'', ''numSlots'', ''numGuestSlots'', ''slotSize'', ''reqOffset'',
      ''respOffset'', ''fastPathAllowed''] =
   map Some [magic x, version x, xh_numSlots x, xh_numGuestSlots x, slotSize x, reqOffset x,
      respOffset x, fastPathAllowed x]"
  by (simp add: layout_defs ExchangeHeader_bytes_def drop_append)

text \<open>
  The stream and chunk headers survive the trip through the slot buffer: decoding the
  24 encoded bytes, whatever follows them, gives the header back, and every 24-byte string
  is the encoding of the header it decodes to.
\<close>

lemma stream_headers_roundtrip:
  "get_StreamHeader (StreamHeader_bytes sh @ rest) = sh \<and>
   get_ChunkHeader (ChunkHeader_bytes ch @ rest) = ch \<and>
   (length bs = sizeof_StreamHeader \<longrightarrow> StreamHeader_bytes (get_StreamHeader bs) = bs) \<and>
   (length bs = sizeof_ChunkHeader \<longrightarrow> ChunkHeader_bytes (get_ChunkHeader bs) = bs)"
  by (simp add: StreamHeader_bytes_get ChunkHeader_bytes_get)


end
