(* ===== verification/Shm_Platform.thy ===== *)
theory Shm_Platform
  imports Shm_Prelude "HOL-Library.AList"
begin

text \<open>
  The operating-system layer, \<open>src/include/shm/Platform.h\<close>. The Win32 calls are not part of
  the repository: they are the fields of a record of functions over an operating-system
  state of an arbitrary type, passed to the definitions that call them. What the library
  computes around the calls is modelled in full: the size-dispatched copy \<open>CopySmall\<close>, the
  lease clock, the parsing of the processor-topology buffers, the lock registry, the names
  of kernel objects and the auto-reset events.
\<close>

unbundle bit_operations_syntax

section \<open>CopySmall\<close>

text \<open>
  \<open>memcpy doff soff n src dst\<close> copies \<open>n\<close> bytes from offset \<open>soff\<close> of \<open>src\<close> to offset \<open>doff\<close>
  of \<open>dst\<close>; it is \<open>None\<close> when either range leaves its buffer.
\<close>

definition memcpy :: "nat \<Rightarrow> nat \<Rightarrow> nat \<Rightarrow> 'a list \<Rightarrow> 'a list \<Rightarrow> 'a list option" where
  "memcpy doff soff n src dst = Option.bind (mem_read soff n src) (\<lambda>c. mem_write doff c dst)"

text \<open>One rung of the ladder: a copy of the first and of the last \<open>k\<close> bytes.\<close>

definition copy_windows :: "nat \<Rightarrow> nat \<Rightarrow> 'a list \<Rightarrow> 'a list \<Rightarrow> 'a list option" where
  "copy_windows k n src dst =
     Option.bind (memcpy 0 0 k src dst) (memcpy (n - k) (n - k) k src)"

definition CopySmall :: "nat \<Rightarrow> 'a list \<Rightarrow> 'a list \<Rightarrow> 'a list option" where
  "CopySmall n src dst =
     (if n \<ge> 16 then
        (if n \<le> 32 then copy_windows 16 n src dst
         else if n \<le> 64 then copy_windows 32 n src dst
         else if n \<le> 128 then copy_windows 64 n src dst
         else if n \<le> 256 then copy_windows 128 n src dst
         else memcpy 0 0 n src dst)
      else if n \<ge> 8 then copy_windows 8 n src dst
      else if n \<ge> 4 then copy_windows 4 n src dst
      else if n \<ge> 2 then copy_windows 2 n src dst
      else if n = 1 then memcpy 0 0 1 src dst
      else Some dst)"

lemma memcpy_in_bounds [mem_safe]:
  "soff + n \<le> length src \<Longrightarrow> doff + n \<le> length dst \<Longrightarrow>
   memcpy doff soff n src dst = Some (overwrite doff (take n (drop soff src)) dst)"
  by (simp add: memcpy_def mem_safe)

lemma copy_windows_covers:
  assumes "k \<le> n" and "n \<le> 2 * k" and "n \<le> length src" and "n \<le> length dst"
  shows "copy_windows k n src dst = Some (take n src @ drop n dst)"
proof -
  let ?a = "overwrite 0 (take k src) dst"
  let ?b = "overwrite (n - k) (take k (drop (n - k) src)) ?a"
  have la: "length ?a = length dst"
    using assms by simp
  have cw: "copy_windows k n src dst = Some ?b"
    using assms la by (simp add: copy_windows_def mem_safe)
  have "?b = take n src @ drop n dst"
  proof (rule nth_equalityI)
    show "length ?b = length (take n src @ drop n dst)"
      using assms la by simp
  next
    fix i assume "i < length ?b"
    then have "i < length dst" using assms la by simp
    then show "?b ! i = (take n src @ drop n dst) ! i"
      using assms la by (auto simp: nth_overwrite nth_append)
  qed
  with cw show ?thesis by simp
qed

lemma CopySmall_in_bounds [mem_safe]:
  assumes "n \<le> length src" and "n \<le> length dst"
  shows "CopySmall n src dst = Some (take n src @ drop n dst)"
proof -
  have w: "copy_windows k n src dst = Some (take n src @ drop n dst)" if "k \<le> n" "n \<le> 2 * k" for k
    using copy_windows_covers [OF that assms] .
  have m: "memcpy 0 0 n src dst = Some (take n src @ drop n dst)"
    using assms by (simp add: mem_safe overwrite_def)
  show ?thesis
  proof (cases "n \<le> 1")
    case True
    then have "n = 0 \<or> n = 1" by arith
    then show ?thesis using m by (auto simp: CopySmall_def)
  next
    case False
    then show ?thesis
      using w [of 2] w [of 4] w [of 8] w [of 16] w [of 32] w [of 64] w [of 128] m
      by (auto simp: CopySmall_def)
  qed
qed

section \<open>The lease clock\<close>

text \<open>
  \<open>GetSystemTimeAsFileTime\<close> delivers the 100-ns ticks since 1601 in two halves.
\<close>

definition kEpochDeltaTicks :: u64 where
  "kEpochDeltaTicks = 116444736000000000"

definition MonotonicNanos :: "u32 \<Rightarrow> u32 \<Rightarrow> u64" where
  "MonotonicNanos dwLowDateTime dwHighDateTime =
     (let quadPart = push_bit 32 (ucast dwHighDateTime) OR ucast dwLowDateTime
      in (quadPart - kEpochDeltaTicks) * 100)"

lemma join_halves:
  assumes "n < 2 ^ 64"
  shows "push_bit 32 (ucast (word_of_nat (n div 2 ^ 32) :: u32)) OR
      ucast (word_of_nat (n mod 2 ^ 32) :: u32) = (word_of_nat n :: u64)"
proof -
  let ?h = "push_bit 32 (ucast (word_of_nat (n div 2 ^ 32) :: u32)) :: u64"
  let ?l = "ucast (word_of_nat (n mod 2 ^ 32) :: u32) :: u64"
  have "?h AND ?l = 0"
    by (rule bit_word_eqI) (auto simp: bit_simps)
  then have "?h OR ?l = ?h + ?l" by (simp add: disjunctive_add_eq_or)
  moreover have "n div 2 ^ 32 < 2 ^ 32"
    using assms by (simp add: less_mult_imp_div_less)
  then have "?h = word_of_nat (n div 2 ^ 32 * 2 ^ 32)"
    by (simp add: push_bit_eq_mult unsigned_of_nat take_bit_nat_eq_self)
  moreover have "?l = word_of_nat (n mod 2 ^ 32)"
    by (simp add: unsigned_of_nat take_bit_nat_eq_self)
  moreover have "n div 2 ^ 32 * 2 ^ 32 + n mod 2 ^ 32 = n" by (rule div_mult_mod_eq)
  ultimately show ?thesis by (metis of_nat_add)
qed

section \<open>Kernel object names and events\<close>

definition kernel_name :: "string \<Rightarrow> string" where
  "kernel_name s = ''Local'' @ CHR 0x5C # s"

text \<open>
  An \<open>EventHandle\<close> is the kernel object it refers to, named by its kernel name, or NULL.
  The state of the auto-reset events is the set of those that are signalled, as a function.
\<close>

type_synonym EventHandle = "string option"
type_synonym events = "string \<Rightarrow> bool"

definition SignalEvent :: "EventHandle \<Rightarrow> events \<Rightarrow> events" where
  "SignalEvent h ev = (case h of None \<Rightarrow> ev | Some e \<Rightarrow> ev(e := True))"

text \<open>
  The wait returns true and resets the event when it is signalled by the time the wait
  ends, and returns false after the timeout otherwise.
\<close>

definition WaitEvent :: "EventHandle \<Rightarrow> events \<Rightarrow> bool \<times> events" where
  "WaitEvent h ev = (case h of None \<Rightarrow> (False, ev)
     | Some e \<Rightarrow> if ev e then (True, ev(e := False)) else (False, ev))"

lemma WaitEvent_SignalEvent:
  "WaitEvent (Some e) (SignalEvent (Some e) ev) = (True, ev(e := False))"
  by (simp add: WaitEvent_def SignalEvent_def)

lemma kernel_name_inject [simp]: "kernel_name a = kernel_name b \<longleftrightarrow> a = b"
  by (simp add: kernel_name_def)

section \<open>Processor topology\<close>

text \<open>
  The two enumerators walk a buffer of variable-length records. Every read goes through
  \<^const>\<open>mem_read\<close>, so a read outside the buffer makes the result \<open>None\<close>.
\<close>

definition read_u32 :: "byte list \<Rightarrow> nat \<Rightarrow> u32 option" where
  "read_u32 buf p = map_option get_u32 (mem_read p 4 buf)"

definition read_u64 :: "byte list \<Rightarrow> nat \<Rightarrow> u64 option" where
  "read_u64 buf p = map_option get_u64 (mem_read p 8 buf)"

definition read_u16 :: "byte list \<Rightarrow> nat \<Rightarrow> u16 option" where
  "read_u16 buf p = map_option (\<lambda>bs. word_of_nat (le_nat bs)) (mem_read p 2 buf)"

definition read_u8 :: "byte list \<Rightarrow> nat \<Rightarrow> byte option" where
  "read_u8 buf p = map_option (\<lambda>bs. word_of_nat (le_nat bs)) (mem_read p 1 buf)"

definition RelationProcessorCore :: u32 where "RelationProcessorCore = 0"
definition RelationCache :: u32 where "RelationCache = 2"

lemma read_in_bounds [mem_safe]:
  "p + 4 \<le> length buf \<Longrightarrow> \<exists>v. read_u32 buf p = Some v"
  "p + 8 \<le> length buf \<Longrightarrow> \<exists>v. read_u64 buf p = Some v"
  "p + 2 \<le> length buf \<Longrightarrow> \<exists>v. read_u16 buf p = Some v"
  "p + 1 \<le> length buf \<Longrightarrow> \<exists>v. read_u8 buf p = Some v"
  by (simp_all add: read_u32_def read_u64_def read_u16_def read_u8_def mem_safe)

text \<open>The body of one record of \<open>EnumerateCcxMasks\<close>: the mask to append, if any.\<close>

definition ccx_entry :: "byte list \<Rightarrow> nat \<Rightarrow> u64 list option" where
  "ccx_entry buf off = do {
     level \<leftarrow> read_u8 buf (off + 8);
     cacheType \<leftarrow> read_u32 buf (off + 16);
     groupCount \<leftarrow> read_u16 buf (off + 38);
     if level = 3 \<and> cacheType = 0 \<and> groupCount = 1 then do {
       mask \<leftarrow> read_u64 buf (off + 40);
       Some (if mask \<noteq> 0 then [mask] else [])
     } else Some []
   }"

text \<open>
  The counting loop of \<open>EnumerateSmtPairs\<close>: clear the lowest set bit until none is left or
  more than two have been seen.
\<close>

function kernighan :: "u64 \<Rightarrow> nat \<Rightarrow> nat" where
  "kernighan m bits =
     (if m = 0 then bits
      else if bits + 1 > 2 then bits + 1
      else kernighan (m AND (m - 1)) (bits + 1))"
  by pat_completeness auto
termination
  by (relation "measure (\<lambda>(m, bits). 3 - bits)") auto

declare kernighan.simps [simp del]

text \<open>The lowest set bit of a non-zero mask, as the two expressions of the loop compute it.\<close>

lemma lowest_bit:
  fixes m :: u64
  assumes "m \<noteq> 0"
  obtains i where "i < 64" "bit m i" "\<And>n. n < i \<Longrightarrow> \<not> bit m n"
    "m AND (m - 1) = m AND NOT (2 ^ i)" "m AND (NOT m + 1) = 2 ^ i"
proof -
  from assms have ex: "\<exists>n. bit m n" by (auto simp: bit_eq_iff)
  define i where "i = (LEAST n. bit m n)"
  have bi: "bit m i" unfolding i_def using ex by (rule LeastI_ex)
  have lo: "\<not> bit m n" if "n < i" for n
    using that not_less_Least unfolding i_def by blast
  have i64: "i < 64" using bit_imp_le_length [OF bi] by simp
  define m' where "m' = m AND NOT (2 ^ i)"
  have b': "bit m' n \<longleftrightarrow> bit m n \<and> n \<noteq> i" for n
    by (auto simp: m'_def bit_simps dest: bit_imp_le_length)
  have "m' AND 2 ^ i = 0"
    by (rule bit_word_eqI) (simp add: b' bit_simps)
  then have "m' + 2 ^ i = m' OR 2 ^ i" by (rule disjunctive_add_eq_or)
  also have "\<dots> = m"
    by (rule bit_word_eqI) (use bi in \<open>auto simp: b' bit_simps\<close>)
  finally have m: "m = m' + 2 ^ i" by simp
  have "m' AND mask i = 0"
    by (rule bit_word_eqI) (use lo in \<open>auto simp: b' bit_simps\<close>)
  then have "m' + mask i = m' OR mask i" by (rule disjunctive_add_eq_or)
  then have m1: "m - 1 = m' OR mask i"
    by (simp add: m mask_eq_exp_minus_1 add_diff_eq [symmetric])
  have 1: "m AND (m - 1) = m AND NOT (2 ^ i)"
    unfolding m1 by (rule bit_word_eqI) (use lo in \<open>auto simp: b' bit_simps\<close>)
  have "NOT m + 1 = NOT (m - 1)"
    by (simp add: not_eq_complement)
  then have 2: "m AND (NOT m + 1) = 2 ^ i"
    unfolding m1 by (intro bit_word_eqI) (use lo bi in \<open>auto simp: b' bit_simps\<close>)
  show ?thesis using that [OF i64 bi lo 1 2] .
qed

lemma kernighan_two:
  assumes "kernighan lps 0 = 2"
  shows "\<exists>i j. i < j \<and> j < 64 \<and> lps = 2 ^ i OR 2 ^ j \<and>
    lps AND (NOT lps + 1) = 2 ^ i \<and> lps AND NOT (lps AND (NOT lps + 1)) = 2 ^ j"
proof -
  let ?m1 = "lps AND (lps - 1)" let ?m2 = "?m1 AND (?m1 - 1)"
  have nz: "lps \<noteq> 0" "?m1 \<noteq> 0" and z: "?m2 = 0"
    using assms kernighan.simps [of lps 0] kernighan.simps [of ?m1 "Suc 0"]
      kernighan.simps [of ?m2 "Suc (Suc 0)"]
    by (auto split: if_splits)
  obtain i where i: "i < 64" "bit lps i" "\<And>n. n < i \<Longrightarrow> \<not> bit lps n"
    "?m1 = lps AND NOT (2 ^ i)" "lps AND (NOT lps + 1) = 2 ^ i"
    using lowest_bit [OF nz(1)] by metis
  obtain j where j: "j < 64" "bit ?m1 j" "?m2 = ?m1 AND NOT (2 ^ j)"
    using lowest_bit [OF nz(2)] by metis
  have bm1: "bit ?m1 n \<longleftrightarrow> bit lps n \<and> n \<noteq> i" for n
    unfolding i(4) by (auto simp: bit_simps dest: bit_imp_le_length)
  have only: "bit ?m1 n \<longleftrightarrow> n = j" if "n < 64" for n
  proof -
    have "bit (x AND NOT (2 ^ j)) n \<longleftrightarrow> bit x n \<and> n \<noteq> j" for x :: u64
      using that by (auto simp: bit_simps)
    then show ?thesis using z j(2) unfolding j(3) by (metis bit_0_eq bot_apply bot_bool_def)
  qed
  have m1: "?m1 = 2 ^ j"
    by (rule bit_word_eqI) (use only in \<open>auto simp: bit_simps\<close>)
  have ij: "i < j"
    using bm1 [of j] j(2) i(3) by (metis linorder_neqE_nat)
  have "lps = 2 ^ i OR 2 ^ j"
    by (rule bit_word_eqI) (use only bm1 i(2) in \<open>auto simp: bit_simps\<close>)
  with ij j(1) i(5) m1 i(4) show ?thesis by metis
qed

definition sibling_pair :: "u64 \<times> u64 \<Rightarrow> bool" where
  "sibling_pair p = (\<exists>i<64. \<exists>j<64. i < j \<and> p = (2 ^ i, 2 ^ j))"

lemma kernighan_sibling_pair:
  "kernighan lps 0 = 2 \<Longrightarrow>
   sibling_pair (lps AND (NOT lps + 1), lps AND NOT (lps AND (NOT lps + 1)))"
  using kernighan_two [of lps] unfolding sibling_pair_def by (metis less_trans)

definition smt_entry :: "byte list \<Rightarrow> nat \<Rightarrow> (u64 \<times> u64) list option" where
  "smt_entry buf off = do {
     flags \<leftarrow> read_u8 buf (off + 8);
     groupCount \<leftarrow> read_u16 buf (off + 30);
     if flags AND 1 \<noteq> 0 \<and> groupCount = 1 then do {
       mask \<leftarrow> read_u64 buf (off + 32);
       if kernighan mask 0 = 2 then
         (let host = mask AND (NOT mask + 1); guest = mask AND NOT host
          in Some [(host, guest)])
       else Some []
     } else Some []
   }"

text \<open>
  The common walk: \<open>minSize\<close> is the smallest record size whose fields are read, \<open>rel\<close> the
  relation looked for and \<open>entry\<close> the body. The offset is a \<open>size_t\<close>; it stays below
  \<open>2 ^ 33\<close> because \<open>need\<close> and every record size are 32-bit values, so it cannot wrap.
\<close>

function walk_records ::
  "(byte list \<Rightarrow> nat \<Rightarrow> 'r list option) \<Rightarrow> u32 \<Rightarrow> nat \<Rightarrow> byte list \<Rightarrow> nat \<Rightarrow> nat \<Rightarrow> 'r list \<Rightarrow> 'r list option"
where
  "walk_records entry rel minSize buf need off acc =
     (if off + 8 \<le> need then
        (case (read_u32 buf off, read_u32 buf (off + 4)) of
           (Some r, Some sz) \<Rightarrow>
             if sz = 0 then Some acc
             else if r = rel \<and> minSize \<le> unat sz \<and> off + unat sz \<le> need then
               (case entry buf off of
                  Some new \<Rightarrow> walk_records entry rel minSize buf need (off + unat sz) (acc @ new)
                | None \<Rightarrow> None)
             else walk_records entry rel minSize buf need (off + unat sz) acc
         | _ \<Rightarrow> None)
      else Some acc)"
  by pat_completeness auto
termination
  by (relation "measure (\<lambda>(entry, rel, minSize, buf, need, off, acc). need - off)")
    (auto simp: unat_gt_0 intro!: diff_less_mono2)

declare walk_records.simps [simp del]

text \<open>
  The operating system's answers: the size asked for by the first call and the result of
  the second (the size it reports and the bytes it wrote), or \<open>None\<close> when it failed.
\<close>

definition EnumerateCcxMasks :: "u32 \<Rightarrow> (u32 \<times> byte list) option \<Rightarrow> u64 list option" where
  "EnumerateCcxMasks need0 answer =
     (if need0 = 0 then Some []
      else case answer of None \<Rightarrow> Some []
        | Some (need, buf) \<Rightarrow> walk_records ccx_entry RelationCache 56 buf (unat need) 0 [])"

definition EnumerateSmtPairs :: "u32 \<Rightarrow> (u32 \<times> byte list) option \<Rightarrow> (u64 \<times> u64) list option" where
  "EnumerateSmtPairs need0 answer =
     (if need0 = 0 then Some []
      else case answer of None \<Rightarrow> Some []
        | Some (need, buf) \<Rightarrow>
            walk_records smt_entry RelationProcessorCore 48 buf (unat need) 0 [])"

lemma walk_records_safe:
  assumes "need \<le> length buf"
    and "\<And>p. p + minSize \<le> length buf \<Longrightarrow> \<exists>new. entry buf p = Some new \<and> list_all P new"
    and "list_all P acc"
  shows "\<exists>rs. walk_records entry rel minSize buf need off acc = Some rs \<and> list_all P rs"
  using assms
proof (induction entry rel minSize buf need off acc rule: walk_records.induct)
  case (1 entry rel minSize buf need off acc)
  show ?case
  proof (cases "off + 8 \<le> need")
    case False
    with "1.prems" show ?thesis by (simp add: walk_records.simps [of entry])
  next
    case True
    then obtain r sz where rd: "read_u32 buf off = Some r" "read_u32 buf (off + 4) = Some sz"
      using "1.prems"(1) read_in_bounds(1) [of off buf] read_in_bounds(1) [of "off + 4" buf] by auto
    show ?thesis
    proof (cases "sz \<noteq> 0 \<and> r = rel \<and> minSize \<le> unat sz \<and> off + unat sz \<le> need")
      case hit: True
      then have "off + minSize \<le> length buf" using "1.prems"(1) by linarith
      then obtain new where "entry buf off = Some new" "list_all P new"
        using "1.prems"(2) by blast
      with True rd hit "1.prems" "1.IH"(1) show ?thesis
        by (simp add: walk_records.simps [of entry rel minSize buf need off])
    next
      case False
      with True rd "1.prems" "1.IH"(2) show ?thesis
        by (auto simp add: walk_records.simps [of entry rel minSize buf need off])
    qed
  qed
qed

lemma ccx_entry_safe:
  "p + 56 \<le> length buf \<Longrightarrow> \<exists>new. ccx_entry buf p = Some new \<and> list_all (\<lambda>m. m \<noteq> 0) new"
  using read_in_bounds(4) [of "p + 8" buf] read_in_bounds(1) [of "p + 16" buf]
    read_in_bounds(3) [of "p + 38" buf] read_in_bounds(2) [of "p + 40" buf]
  by (auto simp: ccx_entry_def)

lemma smt_entry_safe:
  "p + 48 \<le> length buf \<Longrightarrow> \<exists>new. smt_entry buf p = Some new \<and> list_all sibling_pair new"
  using read_in_bounds(4) [of "p + 8" buf] read_in_bounds(3) [of "p + 30" buf]
    read_in_bounds(2) [of "p + 32" buf]
  by (auto simp del: bit.de_Morgan_conj bit.de_Morgan_disj simp: smt_entry_def Let_def kernighan_sibling_pair)

section \<open>Shared memory and the single-host lock\<close>

text \<open>
  The Win32 calls used by the memory-mapping and locking functions, over an arbitrary
  state \<open>'os\<close> of the operating system. A handle or an address is a number, and NULL is
  \<open>None\<close>. \<open>CreateFileMappingW\<close> and \<open>CreateMutexW\<close> also report whether \<open>GetLastError\<close> is
  \<open>ERROR_ALREADY_EXISTS\<close>; \<open>WaitMutex\<close> is \<open>WaitForSingleObject(h, 0) == WAIT_OBJECT_0\<close>.
\<close>

type_synonym ShmHandle = "nat option"

record 'os win32 =
  CreateFileMappingW :: "u32 \<Rightarrow> u32 \<Rightarrow> string \<Rightarrow> 'os \<Rightarrow> (ShmHandle \<times> bool) \<times> 'os"
  OpenFileMappingW :: "string \<Rightarrow> 'os \<Rightarrow> ShmHandle \<times> 'os"
  MapViewOfFile :: "nat \<Rightarrow> 'os \<Rightarrow> nat option \<times> 'os"
  VirtualQueryRegionSize :: "nat \<Rightarrow> 'os \<Rightarrow> u64"
  UnmapViewOfFile :: "nat \<Rightarrow> 'os \<Rightarrow> 'os"
  CloseHandle :: "nat \<Rightarrow> 'os \<Rightarrow> 'os"
  CreateMutexW :: "string \<Rightarrow> 'os \<Rightarrow> (ShmHandle \<times> bool) \<times> 'os"
  WaitMutex :: "nat \<Rightarrow> 'os \<Rightarrow> bool \<times> 'os"
  ReleaseMutex :: "nat \<Rightarrow> 'os \<Rightarrow> 'os"
  CreateEventW :: "string \<Rightarrow> 'os \<Rightarrow> EventHandle \<times> 'os"
  CloseEventHandle :: "string \<Rightarrow> 'os \<Rightarrow> 'os"

definition CreateNamedEvent :: "'os win32 \<Rightarrow> string \<Rightarrow> 'os \<Rightarrow> EventHandle \<times> 'os" where
  "CreateNamedEvent w name os = CreateEventW w (kernel_name name) os"

definition CloseEvent :: "'os win32 \<Rightarrow> EventHandle \<Rightarrow> 'os \<Rightarrow> 'os" where
  "CloseEvent w h os = (case h of None \<Rightarrow> os | Some e \<Rightarrow> CloseEventHandle w e os)"

text \<open>
  Opening an event and pinning a thread; their Win32 calls are arguments. Removing a name has
  no effect: the objects are reference counted.
\<close>

definition OpenEvent :: "(string \<Rightarrow> 'os \<Rightarrow> EventHandle \<times> 'os) \<Rightarrow> string \<Rightarrow> 'os \<Rightarrow> EventHandle \<times> 'os" where
  "OpenEvent openEventW name os = openEventW (kernel_name name) os"

definition UnlinkNamedEvent :: "string \<Rightarrow> 'os \<Rightarrow> 'os" where
  "UnlinkNamedEvent name os = os"

definition UnlinkShm :: "string \<Rightarrow> 'os \<Rightarrow> 'os" where
  "UnlinkShm name os = os"

definition PinCurrentThreadAffinity :: "(u64 \<Rightarrow> 'os \<Rightarrow> u64 \<times> 'os) \<Rightarrow> u64 \<Rightarrow> 'os \<Rightarrow> u64 \<times> 'os" where
  "PinCurrentThreadAffinity setThreadAffinityMask m os = (if m = 0 then (0, os) else setThreadAffinityMask m os)"

text \<open>The result is the mapped address, the handle and the \<open>outExists\<close> flag.\<close>

definition CreateNamedShm ::
  "'os win32 \<Rightarrow> string \<Rightarrow> u64 \<Rightarrow> 'os \<Rightarrow> (nat option \<times> ShmHandle \<times> bool) \<times> 'os" where
  "CreateNamedShm w name sz os =
     (case CreateFileMappingW w (ucast (drop_bit 32 sz)) (ucast sz) (kernel_name name) os of
        ((None, _), os1) \<Rightarrow> ((None, None, False), os1)
      | ((Some h, existed), os1) \<Rightarrow>
          (case MapViewOfFile w h os1 of (addr, os2) \<Rightarrow> ((addr, Some h, existed), os2)))"

definition CloseShm :: "'os win32 \<Rightarrow> ShmHandle \<Rightarrow> nat option \<Rightarrow> 'os \<Rightarrow> 'os" where
  "CloseShm w h addr os =
     (let os1 = (case addr of None \<Rightarrow> os | Some a \<Rightarrow> UnmapViewOfFile w a os)
      in case h of None \<Rightarrow> os1 | Some x \<Rightarrow> CloseHandle w x os1)"

text \<open>The result is the handle, the mapped address and the real size of the region.\<close>

definition OpenShm ::
  "'os win32 \<Rightarrow> string \<Rightarrow> 'os \<Rightarrow> (ShmHandle \<times> nat option \<times> u64) \<times> 'os" where
  "OpenShm w name os =
     (case OpenFileMappingW w (kernel_name name) os of
        (None, os1) \<Rightarrow> ((None, None, 0), os1)
      | (Some h, os1) \<Rightarrow>
          (case MapViewOfFile w h os1 of
             (None, os2) \<Rightarrow> ((Some h, None, 0), os2)
           | (Some a, os2) \<Rightarrow> ((Some h, Some a, VirtualQueryRegionSize w a os2), os2)))"

text \<open>
  The process-local registry of the names whose lock this process holds, keyed by the
  mutex handle (a \<open>std::map\<close>; the association list has at most one entry for a key).
\<close>

type_synonym registry = "(nat \<times> string) list"

definition LockShm ::
  "'os win32 \<Rightarrow> string \<Rightarrow> registry \<Rightarrow> 'os \<Rightarrow> (bool \<times> ShmHandle) \<times> registry \<times> 'os" where
  "LockShm w name reg os =
     (if list_ex (\<lambda>kv. snd kv = name) reg then ((False, None), reg, os)
      else case CreateMutexW w (kernel_name (name @ ''_lock'')) os of
        ((None, _), os1) \<Rightarrow> ((False, None), reg, os1)
      | ((Some h, existed), os1) \<Rightarrow>
          (if existed then
             (case WaitMutex w h os1 of
                (False, os2) \<Rightarrow> ((False, None), reg, CloseHandle w h os2)
              | (True, os2) \<Rightarrow> ((True, Some h), AList.update h name reg, os2))
           else ((True, Some h), AList.update h name reg, os1)))"

definition UnlockShm :: "'os win32 \<Rightarrow> ShmHandle \<Rightarrow> registry \<Rightarrow> 'os \<Rightarrow> registry \<times> 'os" where
  "UnlockShm w hLock reg os =
     (case hLock of None \<Rightarrow> (reg, os)
      | Some h \<Rightarrow> (AList.delete h reg, CloseHandle w h (ReleaseMutex w h os)))"

definition registry_inv :: "registry \<Rightarrow> bool" where
  "registry_inv reg = (distinct (map fst reg) \<and> distinct (map snd reg))"

lemma set_update_names: "snd ` set (AList.update h n reg) \<subseteq> insert n (snd ` set reg)"
  by (induction reg) auto

lemma set_delete_names: "snd ` set (AList.delete h reg) \<subseteq> snd ` set reg"
  by (induction reg) (auto simp: AList.delete_eq)

lemma update_distinct_names:
  "distinct (map snd reg) \<Longrightarrow> n \<notin> snd ` set reg \<Longrightarrow> distinct (map snd (AList.update h n reg))"
proof (induction reg)
  case (Cons kv reg)
  then show ?case using set_update_names [of h n reg] by (cases kv) (auto split: if_splits)
qed simp

lemma delete_distinct_names:
  "distinct (map snd reg) \<Longrightarrow> distinct (map snd (AList.delete h reg))"
proof (induction reg)
  case (Cons kv reg)
  then show ?case using set_delete_names [of h reg] by (cases kv) (auto split: if_splits)
qed simp

lemma LockShm_cases:
  "(\<exists>os'. LockShm w name reg os = ((False, None), reg, os')) \<or>
   (\<exists>h os'. name \<notin> snd ` set reg \<and>
      LockShm w name reg os = ((True, Some h), AList.update h name reg, os'))"
  by (auto simp: LockShm_def list_ex_iff split: option.splits prod.splits bool.splits)

lemma registry_inv_LockShm:
  "registry_inv reg \<Longrightarrow> registry_inv (fst (snd (LockShm w name reg os)))"
  using LockShm_cases [of w name reg os]
  by (auto simp: registry_inv_def update_distinct_names AList.distinct_update)

lemma registry_inv_UnlockShm:
  "registry_inv reg \<Longrightarrow> registry_inv (fst (UnlockShm w hLock reg os))"
  by (auto simp: registry_inv_def UnlockShm_def delete_distinct_names AList.distinct_delete
      split: option.splits)

lemma update_mem: "(h, n) \<in> set (AList.update h n reg)"
  by (induction reg) auto

lemma delete_removes_name:
  assumes "registry_inv reg" and "(h, n) \<in> set reg"
  shows "n \<notin> snd ` set (AList.delete h reg)"
proof
  assume "n \<in> snd ` set (AList.delete h reg)"
  then obtain k where k: "(k, n) \<in> set reg" "k \<noteq> h" by (auto simp: AList.delete_eq)
  have "inj_on snd (set reg)"
    using assms(1) by (simp add: registry_inv_def distinct_map)
  from inj_onD [OF this, of "(k, n)" "(h, n)"] k assms(2) show False by simp
qed

section \<open>Platform properties\<close>

text \<open>
  C24. \<open>CopySmall\<close> is \<open>memcpy\<close>: for every size, whichever rung of the ladder it takes, it
  stays inside both buffers, the first \<open>n\<close> bytes of the destination become the first \<open>n\<close>
  bytes of the source and the rest of the destination is untouched.
\<close>

theorem copy_small_is_memcpy:
  assumes "n \<le> length src" and "n \<le> length dst"
  shows "CopySmall n src dst = memcpy 0 0 n src dst \<and>
    memcpy 0 0 n src dst = Some (take n src @ drop n dst)"
  using assms by (simp add: mem_safe overwrite_def)

theorem copy_small_is_memcpy_witness:
  "CopySmall 3 [1, 2, 3, 4] [9, 9, 9, 9, 9] = Some [1, 2, 3, 9, 9 :: byte]"
  using copy_small_is_memcpy [of 3 "[1, 2, 3, 4]" "[9, 9, 9, 9, 9 :: byte]"] by simp

text \<open>
  C25. On every topology buffer the operating system can return (\<open>need\<close> bytes or more, any
  contents), the two enumerators read inside the buffer only and terminate with a result;
  every L3 mask is non-zero, and every SMT pair consists of two single-bit masks, the
  host's below the guest's, so two workers of one slot are never pinned to the same
  logical processor.
\<close>

theorem topology_enumeration_safe:
  assumes "unat need \<le> length buf"
  shows "(\<exists>masks. EnumerateCcxMasks need0 (Some (need, buf)) = Some masks \<and>
            list_all (\<lambda>m. m \<noteq> 0) masks) \<and>
    (\<exists>pairs. EnumerateSmtPairs need0 (Some (need, buf)) = Some pairs \<and>
            list_all sibling_pair pairs)"
proof -
  have "\<exists>masks. walk_records ccx_entry RelationCache 56 buf (unat need) 0 [] = Some masks \<and>
      list_all (\<lambda>m. m \<noteq> 0) masks"
    by (rule walk_records_safe [OF assms]) (simp_all add: ccx_entry_safe)
  moreover have "\<exists>pairs. walk_records smt_entry RelationProcessorCore 48 buf (unat need) 0 [] = Some pairs \<and>
      list_all sibling_pair pairs"
    by (rule walk_records_safe [OF assms]) (simp_all add: smt_entry_safe)
  ultimately show ?thesis
    by (simp add: EnumerateCcxMasks_def EnumerateSmtPairs_def)
qed

definition sample_core_record :: "byte list" where
  "sample_core_record = put_u32 0 @ put_u32 48 @ [1] @ replicate 21 0 @ [1, 0] @ put_u64 48 @ replicate 8 0"

theorem topology_enumeration_safe_witness:
  "EnumerateSmtPairs 48 (Some (48, sample_core_record)) = Some [(16, 32)] \<and>
   (\<exists>pairs. EnumerateSmtPairs 48 (Some (48, sample_core_record)) = Some pairs \<and>
      list_all sibling_pair pairs)"
proof -
  have len: "unat (48 :: u32) \<le> length sample_core_record"
    by (simp add: sample_core_record_def)
  have "EnumerateSmtPairs 48 (Some (48, sample_core_record)) = Some [(16, 32)]"
    by code_simp
  then show ?thesis using topology_enumeration_safe [OF len, of 48] by simp
qed

text \<open>
  The lease clock is exact: for every system time from 1970 until the 64-bit
  nanosecond counter is exhausted, the 64-bit computation does not wrap and yields the
  nanoseconds since the Unix epoch.
\<close>

lemma monotonic_nanos_exact:
  assumes "unat kEpochDeltaTicks \<le> ticks" and "(ticks - unat kEpochDeltaTicks) * 100 < 2 ^ 64"
  shows "unat (MonotonicNanos (word_of_nat (ticks mod 2 ^ 32)) (word_of_nat (ticks div 2 ^ 32))) =
    (ticks - unat kEpochDeltaTicks) * 100"
proof -
  let ?t = "word_of_nat ticks :: u64"
  have lim: "ticks < 2 ^ 64" using assms by (simp add: kEpochDeltaTicks_def)
  define d where "d = ?t - kEpochDeltaTicks"
  have d: "unat d = ticks - unat kEpochDeltaTicks"
    using assms(1) lim by (simp add: d_def unat_sub word_le_nat_alt unat_of_nat)
  have "unat (d * 100) = unat d * unat (100 :: u64)"
    using assms(2) d by (subst unat_mult_lem [symmetric]) simp
  then have "unat ((?t - kEpochDeltaTicks) * 100) = (ticks - unat kEpochDeltaTicks) * 100"
    using d unfolding d_def by simp
  then show ?thesis
    unfolding MonotonicNanos_def Let_def join_halves [OF lim] .
qed

lemma monotonic_nanos_exact_witness:
  "unat (MonotonicNanos (word_of_nat (116444736000000005 mod 2 ^ 32))
     (word_of_nat (116444736000000005 div 2 ^ 32))) = 500"
  using monotonic_nanos_exact [of 116444736000000005] by (simp add: kEpochDeltaTicks_def)

text \<open>
  C26. The in-process half of the single-host lock: once a host holds the lock for a name,
  every further attempt in the same process is refused without a system call, whatever the
  (recursive, thread-owned) kernel mutex would have answered; the registry keeps at most
  one entry for each name and each handle, and unlocking drops exactly that claim.
\<close>

theorem lock_excludes_second_host:
  assumes "registry_inv reg" and "LockShm w name reg os = ((True, hLock), reg', os')"
  shows "registry_inv reg' \<and> LockShm w name reg' os'' = ((False, None), reg', os'') \<and>
    \<not> list_ex (\<lambda>kv. snd kv = name) (fst (UnlockShm w hLock reg' os''))"
proof -
  from assms(2) obtain h where h: "hLock = Some h" "reg' = AList.update h name reg"
    using LockShm_cases [of w name reg os] by auto
  have inv: "registry_inv reg'"
    using registry_inv_LockShm [OF assms(1), of w name os] assms(2) by simp
  have mem: "(h, name) \<in> set reg'" using h update_mem by simp
  then have "list_ex (\<lambda>kv. snd kv = name) reg'" by (auto simp: list_ex_iff intro: bexI [rotated])
  moreover have "name \<notin> snd ` set (AList.delete h reg')"
    using delete_removes_name [OF inv mem] .
  ultimately show ?thesis
    using inv h by (force simp: LockShm_def UnlockShm_def list_ex_iff)
qed

text \<open>An operating system whose mutex is created by the first caller and recursive after.\<close>

definition sample_win32 :: "bool win32" where
  "sample_win32 = \<lparr>CreateFileMappingW = (\<lambda>_ _ _ os. ((Some 1, False), os)),
     OpenFileMappingW = (\<lambda>_ os. (Some 1, os)), MapViewOfFile = (\<lambda>_ os. (Some 4096, os)),
     VirtualQueryRegionSize = (\<lambda>_ _. 4096), UnmapViewOfFile = (\<lambda>_ os. os),
     CloseHandle = (\<lambda>_ os. os), CreateMutexW = (\<lambda>_ os. ((Some 7, os), True)),
     WaitMutex = (\<lambda>_ os. (True, os)), ReleaseMutex = (\<lambda>_ os. os),
     CreateEventW = (\<lambda>n os. (Some n, os)), CloseEventHandle = (\<lambda>_ os. os)\<rparr>"

theorem lock_excludes_second_host_witness:
  "LockShm sample_win32 ''IPC'' [(7, ''IPC'')] True = ((False, None), [(7, ''IPC'')], True)"
proof -
  have "LockShm sample_win32 ''IPC'' [] False = ((True, Some 7), [(7, ''IPC'')], True)"
    by (simp add: LockShm_def sample_win32_def)
  from lock_excludes_second_host [OF _ this, of True] show ?thesis
    by (simp add: registry_inv_def)
qed

end
