(* ===== verification/Shm_Result.thy ===== *)
theory Shm_Result
  imports Shm_Prelude
begin

text \<open>
  The error codes and the two result types of \<open>src/include/shm/Result.h\<close>.
  \<open>Result<T>\<close> is a \<open>std::variant<T, Error>\<close>: a sum whose left injection is the error.
  \<open>Result<void>\<close> holds just an error code, and the code \<open>None\<close> means success.
\<close>

section \<open>Error codes\<close>

datatype error =
    Error_None
  | Timeout
  | BufferTooSmall
  | InvalidArgs
  | NotConnected
  | ResourceExhausted
  | InternalError
  | ProtocolViolation

section \<open>Result of a value\<close>

type_synonym 'a result = "error + 'a"

definition HasError :: "'a result \<Rightarrow> bool" where
  "HasError r = (case r of Inl _ \<Rightarrow> True | Inr _ \<Rightarrow> False)"

definition GetError :: "'a result \<Rightarrow> error" where
  "GetError r = (case r of Inl e \<Rightarrow> e | Inr _ \<Rightarrow> Error_None)"

text \<open>\<open>Value()\<close> throws \<open>std::runtime_error\<close> on an error: the model returns \<open>None\<close>.\<close>

definition Value :: "'a result \<Rightarrow> 'a option" where
  "Value r = (case r of Inl _ \<Rightarrow> None | Inr v \<Rightarrow> Some v)"

definition ValueOr :: "'a result \<Rightarrow> 'a \<Rightarrow> 'a" where
  "ValueOr r d = (if HasError r then d else (case r of Inr v \<Rightarrow> v | Inl _ \<Rightarrow> d))"

text \<open>The conversions to \<open>bool\<close>.\<close>

definition result_bool :: "'a result \<Rightarrow> bool" where
  "result_bool r = (\<not> HasError r)"

section \<open>Result of nothing\<close>

datatype result_void = ResultVoid (void_error: error)

definition Success :: result_void where
  "Success = ResultVoid Error_None"

definition Failure :: "error \<Rightarrow> result_void" where
  "Failure e = ResultVoid e"

definition void_HasError :: "result_void \<Rightarrow> bool" where
  "void_HasError r = (void_error r \<noteq> Error_None)"

definition void_GetError :: "result_void \<Rightarrow> error" where
  "void_GetError r = void_error r"

definition void_bool :: "result_void \<Rightarrow> bool" where
  "void_bool r = (\<not> void_HasError r)"

lemmas result_simps [simp] =
  HasError_def GetError_def Value_def ValueOr_def Success_def Failure_def
  void_HasError_def void_GetError_def result_bool_def void_bool_def

lemma value_iff_no_error: "(\<exists>v. Value r = Some v) \<longleftrightarrow> \<not> HasError r"
  by (simp split: sum.splits)

lemma get_error_none_iff: "GetError r = Error_None \<longleftrightarrow> \<not> HasError r \<or> r = Inl Error_None"
  by (simp split: sum.splits)

end
