(* ===== verification/Shm_Wait.thy ===== *)
theory Shm_Wait
  imports Shm_Prelude
begin

text \<open>
  \<open>src/include/shm/WaitStrategy.h\<close>: the adaptive spin-then-sleep wait shared by every slot
  and by the guest-call worker. The condition and the sleep action are operations on the
  caller's state; \<open>currentLimit\<close> is a field of that state, given by its reader and writer.
\<close>

section \<open>Definitions\<close>

definition kMinSpin :: int where "kMinSpin = 100"
definition kMaxSpin :: int where "kMaxSpin = 50000"
definition kIncStep :: int where "kIncStep = 5000"
definition kDecStep :: int where "kDecStep = 1000"

lemmas spin_consts = kMinSpin_def kMaxSpin_def kIncStep_def kDecStep_def

text \<open>The \<open>for\<close> loop: at most \<open>n\<close> tests of the condition (\<open>CpuRelax\<close> has no effect).\<close>

primrec spin :: "nat \<Rightarrow> ('s, bool) state \<Rightarrow> ('s, bool) state" where
  "spin 0 condition = ret False"
| "spin (Suc n) condition = do {
     c \<leftarrow> condition;
     if c then ret True else spin n condition }"

definition grow_limit :: "int \<Rightarrow> int" where
  "grow_limit l = (if l < kMaxSpin
     then (if l + kIncStep > kMaxSpin then kMaxSpin else l + kIncStep) else l)"

definition shrink_limit :: "int \<Rightarrow> int" where
  "shrink_limit l = (if l > kMinSpin
     then (if l - kDecStep < kMinSpin then kMinSpin else l - kDecStep) else l)"

definition Wait ::
  "('s \<Rightarrow> int) \<Rightarrow> ((int \<Rightarrow> int) \<Rightarrow> 's \<Rightarrow> 's) \<Rightarrow> ('s, bool) state \<Rightarrow> ('s, unit outcome) state \<Rightarrow>
   ('s, bool outcome) state" where
  "Wait limit setLimit condition sleepAction = do {
     l \<leftarrow> gets limit;
     ready \<leftarrow> spin (nat l) condition;
     if ready then do {
       modify (setLimit grow_limit);
       ret (Ret True)
     } else do {
       modify (setLimit shrink_limit);
       obind sleepAction (\<lambda>_. do {
         c \<leftarrow> condition;
         ret (Ret c) })
     } }"

section \<open>The adaptive limit\<close>

definition limit_ok :: "int \<Rightarrow> bool" where
  "limit_ok l = (kMinSpin \<le> l \<and> l \<le> kMaxSpin)"

lemma limit_ok_grow: "limit_ok l \<Longrightarrow> limit_ok (grow_limit l)"
  by (simp add: limit_ok_def grow_limit_def spin_consts)

lemma limit_ok_shrink: "limit_ok l \<Longrightarrow> limit_ok (shrink_limit l)"
  by (simp add: limit_ok_def shrink_limit_def spin_consts)

text \<open>
  The spin window stays between \<open>kMinSpin\<close> and \<open>kMaxSpin\<close> under every sequence of
  outcomes. Sustained failure shrinks it to exactly \<open>kMinSpin\<close> within 50 waits and
  sustained success grows it back to exactly \<open>kMaxSpin\<close> within 10, whatever it was.
\<close>

lemma spin_limit_adapts:
  assumes "limit_ok l"
  shows "limit_ok (fold (\<lambda>ready. if ready then grow_limit else shrink_limit) rs l) \<and>
    (shrink_limit ^^ 50) l = kMinSpin \<and> (grow_limit ^^ 10) l = kMaxSpin"
proof -
  have ok: "limit_ok (fold (\<lambda>ready. if ready then grow_limit else shrink_limit) rs l)"
    using assms by (induction rs arbitrary: l) (auto simp: limit_ok_grow limit_ok_shrink)
  have down: "(shrink_limit ^^ n) l = max kMinSpin (l - kDecStep * int n)" for n
    using assms by (induction n) (auto simp: limit_ok_def shrink_limit_def spin_consts)
  have up: "(grow_limit ^^ n) l = min kMaxSpin (l + kIncStep * int n)" for n
    using assms by (induction n) (auto simp: limit_ok_def grow_limit_def spin_consts)
  show ?thesis
    using assms ok down [of 50] up [of 10] by (auto simp: limit_ok_def spin_consts)
qed

lemma spin_limit_adapts_witness:
  "limit_ok kMaxSpin \<and> (shrink_limit ^^ 50) kMaxSpin = kMinSpin \<and>
   (grow_limit ^^ 10) kMinSpin = kMaxSpin"
proof -
  have a: "limit_ok kMaxSpin" and b: "limit_ok kMinSpin"
    by (simp_all add: limit_ok_def spin_consts)
  show ?thesis
    using a spin_limit_adapts [OF a] spin_limit_adapts [OF b] by simp
qed

section \<open>The wait\<close>

text \<open>
  A property that every test of the condition establishes for its result holds of the
  wait: the rule the clients use.
\<close>

lemma wp_spin:
  assumes "I s"
    and "\<And>s. I s \<Longrightarrow> wp condition (\<lambda>c s'. I s' \<and> (c \<longrightarrow> Q s')) s"
  shows "wp (spin n condition) (\<lambda>r s'. I s' \<and> (r \<longrightarrow> Q s')) s"
  using assms(1)
proof (induction n arbitrary: s)
  case 0
  then show ?case by (simp add: wp_rules)
next
  case (Suc n)
  show ?case
    using assms(2) [OF Suc.prems]
    by (auto simp: wp_rules intro: Suc.IH elim!: wp_mono)
qed

lemma wp_Wait:
  assumes "I s"
    and "\<And>s. I s \<Longrightarrow> wp condition (\<lambda>c s'. I s' \<and> (c \<longrightarrow> Q s')) s"
    and "\<And>s. I s \<Longrightarrow> wp sleepAction (\<lambda>r s'. r \<noteq> Trap \<and> I s') s"
    and "\<And>g s. I s \<Longrightarrow> I (setLimit g s)"
    and "\<And>g s. Q s \<Longrightarrow> Q (setLimit g s)"
  shows "wp (Wait limit setLimit condition sleepAction)
    (\<lambda>r s'. r \<noteq> Trap \<and> I s' \<and> (r = Ret True \<longrightarrow> Q s')) s"
  unfolding Wait_def wp_bind wp_gets
proof (rule wp_mono [OF wp_spin [where I = I and Q = Q, OF assms(1,2)]])
  fix ready s'
  assume "I s' \<and> (ready \<longrightarrow> Q s')"
  then show "wp (if ready then modify (setLimit grow_limit) \<bind> (\<lambda>_. ret (Ret True))
      else modify (setLimit shrink_limit) \<bind>
        (\<lambda>_. obind sleepAction (\<lambda>_. condition \<bind> (\<lambda>c. ret (Ret c)))))
      (\<lambda>r s'. r \<noteq> Trap \<and> I s' \<and> (r = Ret True \<longrightarrow> Q s')) s'"
    by (auto simp: wp_rules assms intro!: wp_mono [OF assms(3)] wp_mono [OF assms(2)]
        split: outcome.splits)
qed

end
