(* ===== verification/Shm_Slots.thy ===== *)
theory Shm_Slots
  imports Shm_Layout Shm_Platform Shm_Result Shm_Wait
begin

text \<open>
  The slot state machine, \<open>src/include/shm/SlotAllocator.h\<close>: claiming, reclaiming, waiting
  and the send paths. The shared header of a slot and the host-local \<open>Slot\<close> are records;
  the allocator is a record that also holds the state of the kernel events and the
  thread-local \<open>cachedSlotIdx\<close> of the calling thread.

  Other host threads, the guest and the operating system run concurrently. They are the
  environment: before every access to a shared location the environment may change the
  allocator in any way, and a blocking wait lets it run for the length of the wait. The
  definitions take the environment as an argument, so a theorem that holds for every
  environment holds for every interleaving with the atomic accesses of the operation
  (accesses are sequentially consistent).
\<close>

section \<open>State\<close>

record slot_header =
  h_state :: u32
  h_hostState :: u32
  h_guestState :: u32
  h_msgSeq :: u32
  h_msgType :: MsgType
  h_reqSize :: i32
  h_respSize :: i32
  h_lease :: u64
  h_gen :: u64

record slot =
  header :: slot_header
  reqBuffer :: "byte list"
  respBuffer :: "byte list"
  hReqEvent :: EventHandle
  hRespEvent :: EventHandle
  maxReqSize :: u32
  maxRespSize :: u32
  currentLimit :: int
  msgSeq :: u32
  activeWait :: bool

text \<open>
  \<open>cachedSlotIdx\<close> is a \<open>thread_local static\<close> of \<open>AcquireSlot\<close> in the source, shared by all hosts of a
  thread: the field is its value for the thread that runs the operation, and the theorems about
  an operation hold for every value it may have at the start.
\<close>

record alloc =
  slots :: "slot list"
  nextSlot :: u32
  numSlots :: u32
  numGuestSlots :: u32
  msgSeqStride :: u32
  responseTimeoutMs :: u32
  autoReclaimTimeoutNs :: u64
  running :: bool
  cachedSlotIdx :: u32
  events :: events
  tick :: nat

text \<open>
  \<open>interference env k ms\<close> is what the environment does to the allocator at the \<open>k\<close>-th access
  of the operation, having \<open>ms\<close> milliseconds when the access is a blocking wait; the two
  clocks are read at the tick of the access before.
\<close>

record env =
  interference :: "nat \<Rightarrow> nat \<Rightarrow> alloc \<Rightarrow> alloc"
  steadyNs :: "nat \<Rightarrow> nat"
  wallNs :: "nat \<Rightarrow> u64"

section \<open>Accesses\<close>

definition poll :: "env \<Rightarrow> nat \<Rightarrow> alloc \<Rightarrow> alloc" where
  "poll env ms a = (interference env (tick a) ms a)\<lparr>tick := Suc (tick a)\<rparr>"

definition upd_slot :: "nat \<Rightarrow> (slot \<Rightarrow> slot) \<Rightarrow> alloc \<Rightarrow> alloc" where
  "upd_slot i f a = a\<lparr>slots := (slots a)[i := f (slots a ! i)]\<rparr>"

definition upd_header :: "(slot_header \<Rightarrow> slot_header) \<Rightarrow> slot \<Rightarrow> slot" where
  "upd_header f s = s\<lparr>header := f (header s)\<rparr>"

definition load :: "env \<Rightarrow> nat \<Rightarrow> (slot \<Rightarrow> 'a) \<Rightarrow> (alloc, 'a) state" where
  "load env i f = State (\<lambda>a. let b = poll env 0 a in (f (slots b ! i), b))"

definition store :: "env \<Rightarrow> nat \<Rightarrow> (slot \<Rightarrow> slot) \<Rightarrow> (alloc, unit) state" where
  "store env i f = State (\<lambda>a. ((), upd_slot i f (poll env 0 a)))"

definition cas_state :: "env \<Rightarrow> nat \<Rightarrow> u32 \<Rightarrow> u32 \<Rightarrow> (alloc, bool) state" where
  "cas_state env i expected desired = State (\<lambda>a. let b = poll env 0 a in
     if h_state (header (slots b ! i)) = expected
     then (True, upd_slot i (upd_header (h_state_update (\<lambda>_. desired))) b)
     else (False, b))"

definition cas_gen :: "env \<Rightarrow> nat \<Rightarrow> u64 \<Rightarrow> u64 \<Rightarrow> (alloc, bool) state" where
  "cas_gen env i expected desired = State (\<lambda>a. let b = poll env 0 a in
     if h_gen (header (slots b ! i)) = expected
     then (True, upd_slot i (upd_header (h_gen_update (\<lambda>_. desired))) b)
     else (False, b))"

abbreviation store_state :: "env \<Rightarrow> nat \<Rightarrow> u32 \<Rightarrow> (alloc, unit) state" where
  "store_state env i v \<equiv> store env i (upd_header (h_state_update (\<lambda>_. v)))"

abbreviation state_of :: "slot \<Rightarrow> u32" where
  "state_of s \<equiv> h_state (header s)"

text \<open>The two clocks, and the parts of a slot only its owner writes.\<close>

abbreviation steady_now :: "env \<Rightarrow> (alloc, nat) state" where
  "steady_now env \<equiv> gets (\<lambda>a. steadyNs env (tick a))"

abbreviation wall_now :: "env \<Rightarrow> (alloc, u64) state" where
  "wall_now env \<equiv> gets (\<lambda>a. wallNs env (tick a))"

abbreviation own :: "nat \<Rightarrow> (slot \<Rightarrow> 'a) \<Rightarrow> (alloc, 'a) state" where
  "own i f \<equiv> gets (\<lambda>a. f (slots a ! i))"

definition signal :: "env \<Rightarrow> EventHandle \<Rightarrow> (alloc, unit) state" where
  "signal env h = State (\<lambda>a. ((), (poll env 0 a)\<lparr>events := SignalEvent h (events (poll env 0 a))\<rparr>))"

definition wait_event :: "env \<Rightarrow> EventHandle \<Rightarrow> nat \<Rightarrow> (alloc, bool) state" where
  "wait_event env h ms = State (\<lambda>a. let b = poll env ms a in
     (case WaitEvent h (events b) of (r, ev) \<Rightarrow> (r, b\<lparr>events := ev\<rparr>)))"

section \<open>Waiting for a response\<close>

definition checkReady :: "env \<Rightarrow> nat \<Rightarrow> (alloc, bool) state" where
  "checkReady env i = do {
     st \<leftarrow> load env i state_of;
     ret (st = SLOT_RESP_READY) }"

definition INFINITE :: u32 where "INFINITE = 0xFFFFFFFF"

text \<open>The loop of \<open>sleepAction\<close>; \<open>fuel\<close> bounds its iterations.\<close>

fun resp_sleep_loop :: "nat \<Rightarrow> env \<Rightarrow> nat \<Rightarrow> u32 \<Rightarrow> nat \<Rightarrow> (alloc, unit outcome) state" where
  "resp_sleep_loop 0 env i timeoutMs start = ret NoFuel"
| "resp_sleep_loop (Suc fuel) env i timeoutMs start = do {
     c \<leftarrow> checkReady env i;
     if c then ret (Ret ())
     else do {
       now \<leftarrow> steady_now env;
       let elapsed = elapsed_ms start now;
       if timeoutMs \<noteq> INFINITE \<and> elapsed \<ge> unat timeoutMs then ret (Ret ())
       else do {
         let remaining = (if timeoutMs = INFINITE then INFINITE else timeoutMs - word_of_nat elapsed);
         let waitTime = (if remaining > 100 then 100 else remaining);
         let waitTime = (if timeoutMs = INFINITE then 100 else waitTime);
         h \<leftarrow> own i hRespEvent;
         _ \<leftarrow> wait_event env h (unat waitTime);
         resp_sleep_loop fuel env i timeoutMs start } } }"

definition resp_sleepAction :: "nat \<Rightarrow> env \<Rightarrow> nat \<Rightarrow> u32 \<Rightarrow> (alloc, unit outcome) state" where
  "resp_sleepAction fuel env i timeoutMs = do {
     store env i (upd_header (h_hostState_update (\<lambda>_. HOST_STATE_WAITING)));
     c \<leftarrow> checkReady env i;
     if c then do {
       store env i (upd_header (h_hostState_update (\<lambda>_. HOST_STATE_ACTIVE)));
       ret (Ret ())
     } else do {
       start \<leftarrow> steady_now env;
       obind (resp_sleep_loop fuel env i timeoutMs start) (\<lambda>_. do {
         store env i (upd_header (h_hostState_update (\<lambda>_. HOST_STATE_ACTIVE)));
         ret (Ret ()) }) } }"

definition WaitForRespReady :: "nat \<Rightarrow> env \<Rightarrow> nat \<Rightarrow> u32 \<Rightarrow> (alloc, bool outcome) state" where
  "WaitForRespReady fuel env i timeoutMs =
     Wait (\<lambda>a. currentLimit (slots a ! i)) (\<lambda>g. upd_slot i (currentLimit_update g))
       (checkReady env i) (resp_sleepAction fuel env i timeoutMs)"

definition FinishWait :: "env \<Rightarrow> nat \<Rightarrow> bool \<Rightarrow> (alloc, unit) state" where
  "FinishWait env i ready = do {
     (if ready then store_state env i SLOT_BUSY else ret ());
     store env i (activeWait_update (\<lambda>_. False)) }"

text \<open>Arming a slot: publish the request and ring the guest's doorbell if it waits.\<close>

definition publish_request :: "env \<Rightarrow> nat \<Rightarrow> (alloc, unit) state" where
  "publish_request env i = do {
     store env i (activeWait_update (\<lambda>_. True));
     store env i (upd_header (h_hostState_update (\<lambda>_. HOST_STATE_ACTIVE)));
     store_state env i SLOT_REQ_READY;
     g \<leftarrow> load env i (\<lambda>s. h_guestState (header s));
     if g = GUEST_STATE_WAITING then do { h \<leftarrow> own i hReqEvent; signal env h }
     else ret () }"

definition WaitResponse :: "nat \<Rightarrow> env \<Rightarrow> nat \<Rightarrow> u32 \<Rightarrow> (alloc, bool outcome) state" where
  "WaitResponse fuel env i timeoutMs = do {
     publish_request env i;
     obind (WaitForRespReady fuel env i timeoutMs) (\<lambda>ready. do {
       FinishWait env i ready;
       ret (Ret ready) }) }"

section \<open>Claiming\<close>

definition stealable :: "u32 \<Rightarrow> bool" where
  "stealable st = (st = SLOT_RESP_READY \<or> st = SLOT_REQ_READY \<or> st = SLOT_GUEST_BUSY)"

definition stamp_lease :: "env \<Rightarrow> nat \<Rightarrow> (alloc, unit) state" where
  "stamp_lease env i = do {
     now \<leftarrow> wall_now env;
     store env i (upd_header (h_lease_update (\<lambda>_. now))) }"

definition tryClaimSlot :: "env \<Rightarrow> nat \<Rightarrow> (alloc, bool) state" where
  "tryClaimSlot env i = do {
     genObserved \<leftarrow> load env i (\<lambda>s. h_gen (header s));
     current \<leftarrow> load env i state_of;
     if current = SLOT_FREE then do {
       store env i (upd_header (h_gen_update (\<lambda>g. g + 1)));
       ok \<leftarrow> cas_state env i current SLOT_BUSY;
       if ok then do { stamp_lease env i; ret True } else ret False
     } else if stealable current then do {
       aw \<leftarrow> load env i activeWait;
       if \<not> aw then do {
         won \<leftarrow> cas_gen env i genObserved (genObserved + 1);
         if won then do {
           ok \<leftarrow> cas_state env i current SLOT_BUSY;
           if ok then do { stamp_lease env i; ret True } else ret False
         } else ret False
       } else ret False
     } else ret False }"

text \<open>
  An \<open>int32_t\<close> slot index is an integer; \<open>(int32_t)numSlots\<close> is \<open>sint\<close> of the unsigned field.
\<close>

definition host_slot :: "alloc \<Rightarrow> int \<Rightarrow> bool" where
  "host_slot a slotIdx = (\<not> (slotIdx < 0 \<or> slotIdx \<ge> sint (numSlots a)))"

text \<open>One sweep of \<open>TryAcquireSlot\<close> from the \<open>n\<close>-th candidate; \<open>k\<close> candidates are left.\<close>

fun try_sweep :: "nat \<Rightarrow> env \<Rightarrow> u32 \<Rightarrow> u32 \<Rightarrow> (alloc, int) state" where
  "try_sweep 0 env start n = ret (- 1)"
| "try_sweep (Suc k) env start n = do {
     total \<leftarrow> gets numSlots;
     let idx = (start + n) mod total;
     ok \<leftarrow> tryClaimSlot env (unat idx);
     if ok then ret (sint idx) else try_sweep k env start (n + 1) }"

text \<open>\<open>nextSlot.fetch_add(1)\<close>.\<close>

definition fetch_next :: "env \<Rightarrow> (alloc, u32) state" where
  "fetch_next env = State (\<lambda>a. let b = poll env 0 a in (nextSlot b, b\<lparr>nextSlot := nextSlot b + 1\<rparr>))"

definition TryAcquireSlot :: "env \<Rightarrow> (alloc, int) state" where
  "TryAcquireSlot env = do {
     run \<leftarrow> gets running;
     total \<leftarrow> gets numSlots;
     if \<not> run \<or> total = 0 then ret (- 1)
     else do {
       nxt \<leftarrow> fetch_next env;
       try_sweep (unat total) env (nxt mod total) 0 } }"

section \<open>Reclaiming abandoned slots\<close>

definition SetAutoReclaimTimeoutNs :: "u64 \<Rightarrow> (alloc, unit) state" where
  "SetAutoReclaimTimeoutNs timeoutNs = modify (autoReclaimTimeoutNs_update (\<lambda>_. timeoutNs))"

definition GetAutoReclaimTimeoutNs :: "(alloc, u64) state" where
  "GetAutoReclaimTimeoutNs = gets autoReclaimTimeoutNs"

text \<open>The staleness test on the lease, in unsigned 64-bit arithmetic.\<close>

definition lease_stale :: "u64 \<Rightarrow> u64 \<Rightarrow> u64 \<Rightarrow> bool" where
  "lease_stale now lease maxLeaseAgeNs = (\<not> (now \<le> lease \<or> now - lease \<le> maxLeaseAgeNs))"

definition TryReclaimAbandonedSlot :: "env \<Rightarrow> int \<Rightarrow> u64 \<Rightarrow> (alloc, bool) state" where
  "TryReclaimAbandonedSlot env slotIdx maxLeaseAgeNs = do {
     total \<leftarrow> gets (\<lambda>a. sint (numSlots a + numGuestSlots a));
     if slotIdx < 0 \<or> slotIdx \<ge> total then ret False
     else do {
       let i = nat slotIdx;
       gen \<leftarrow> load env i (\<lambda>s. h_gen (header s));
       st \<leftarrow> load env i state_of;
       if st = SLOT_FREE then ret False
       else do {
         lease \<leftarrow> load env i (\<lambda>s. h_lease (header s));
         if lease = 0 then ret False
         else do {
           now \<leftarrow> wall_now env;
           if \<not> lease_stale now lease maxLeaseAgeNs then ret False
           else do {
             again \<leftarrow> load env i (\<lambda>s. h_lease (header s));
             if again \<noteq> lease then ret False
             else do {
               won \<leftarrow> cas_gen env i gen (gen + 1);
               if \<not> won then ret False
               else cas_state env i st SLOT_FREE } } } } } }"

section \<open>Blocking acquisition\<close>

primrec reclaim_sweep :: "nat \<Rightarrow> env \<Rightarrow> u32 \<Rightarrow> u64 \<Rightarrow> (alloc, unit) state" where
  "reclaim_sweep 0 env i thresh = ret ()"
| "reclaim_sweep (Suc k) env i thresh = do {
     _ \<leftarrow> TryReclaimAbandonedSlot env (sint i) thresh;
     reclaim_sweep k env (i + 1) thresh }"

text \<open>
  The \<open>while (true)\<close> of \<open>AcquireSlot\<close>. The retry counter only decides when to yield the
  processor and is left out: yielding is one more moment for the environment, which runs
  before every access anyway.
\<close>

fun acquire_loop :: "nat \<Rightarrow> env \<Rightarrow> u32 \<Rightarrow> (alloc, int outcome) state" where
  "acquire_loop 0 env idx = ret NoFuel"
| "acquire_loop (Suc fuel) env idx = do {
     ok \<leftarrow> tryClaimSlot env (unat idx);
     if ok then do {
       modify (cachedSlotIdx_update (\<lambda>_. idx));
       ret (Ret (sint idx))
     } else do {
       total \<leftarrow> gets numSlots;
       if idx + 1 \<ge> total then do {
         thresh \<leftarrow> gets autoReclaimTimeoutNs;
         (if thresh > 0 then reclaim_sweep (unat total) env 0 thresh else ret ());
         acquire_loop fuel env 0
       } else acquire_loop fuel env (idx + 1) } }"

definition AcquireSlot :: "nat \<Rightarrow> env \<Rightarrow> (alloc, int outcome) state" where
  "AcquireSlot fuel env = do {
     run \<leftarrow> gets running;
     if \<not> run then ret (Ret (- 1))
     else do {
       cached \<leftarrow> gets cachedSlotIdx;
       total \<leftarrow> gets numSlots;
       ok \<leftarrow> (if cached < total then tryClaimSlot env (unat cached) else ret False);
       if ok then ret (Ret (sint cached))
       else do {
         nxt \<leftarrow> fetch_next env;
         if total = 0 then ret Trap
         else acquire_loop fuel env (nxt mod total) } } }"

text \<open>
  The loop of \<open>AcquireSpecificSlot\<close>: \<open>retries\<close> counts the failures since the last yield,
  \<open>start\<close> is the lazily taken timestamp. The result tells whether the slot was claimed.
\<close>

fun specific_loop :: "nat \<Rightarrow> env \<Rightarrow> nat \<Rightarrow> u32 \<Rightarrow> nat \<Rightarrow> nat option \<Rightarrow> (alloc, bool outcome) state" where
  "specific_loop 0 env i effectiveTimeout retries start = ret NoFuel"
| "specific_loop (Suc fuel) env i effectiveTimeout retries start = do {
     ok \<leftarrow> tryClaimSlot env i;
     if ok then ret (Ret True)
     else if retries + 1 > 1000 then
       (if effectiveTimeout \<noteq> INFINITE then do {
          now \<leftarrow> steady_now env;
          let started = (case start of None \<Rightarrow> now | Some t \<Rightarrow> t);
          if elapsed_ms started now \<ge> unat effectiveTimeout then ret (Ret False)
          else specific_loop fuel env i effectiveTimeout 0 (Some started)
        } else specific_loop fuel env i effectiveTimeout 0 start)
     else specific_loop fuel env i effectiveTimeout (retries + 1) start }"

definition USE_DEFAULT_TIMEOUT :: u32 where "USE_DEFAULT_TIMEOUT = 0xFFFFFFFF"

definition effective_timeout :: "alloc \<Rightarrow> u32 \<Rightarrow> u32" where
  "effective_timeout a timeoutMs =
     (if timeoutMs = USE_DEFAULT_TIMEOUT then responseTimeoutMs a else timeoutMs)"

definition AcquireSpecificSlot :: "nat \<Rightarrow> env \<Rightarrow> int \<Rightarrow> u32 \<Rightarrow> (alloc, int outcome) state" where
  "AcquireSpecificSlot fuel env slotIdx timeoutMs = do {
     run \<leftarrow> gets running;
     valid \<leftarrow> gets (\<lambda>a. host_slot a slotIdx);
     if \<not> run \<or> \<not> valid then ret (Ret (- 1))
     else do {
       t \<leftarrow> gets (\<lambda>a. effective_timeout a timeoutMs);
       obind (specific_loop fuel env (nat slotIdx) t 0 None)
         (\<lambda>claimed. ret (Ret (if claimed then slotIdx else - 1))) } }"

section \<open>Accessors\<close>

text \<open>A request-buffer pointer is the index of the slot it points into, or NULL.\<close>

definition GetReqBuffer :: "int \<Rightarrow> (alloc, nat option) state" where
  "GetReqBuffer slotIdx = gets (\<lambda>a. if host_slot a slotIdx then Some (nat slotIdx) else None)"

definition GetMaxReqSize :: "int \<Rightarrow> (alloc, int) state" where
  "GetMaxReqSize slotIdx =
     gets (\<lambda>a. if host_slot a slotIdx then sint (maxReqSize (slots a ! nat slotIdx)) else 0)"

definition SignalSlot :: "env \<Rightarrow> int \<Rightarrow> (alloc, unit) state" where
  "SignalSlot env slotIdx = do {
     valid \<leftarrow> gets (\<lambda>a. host_slot a slotIdx);
     if valid then do { h \<leftarrow> own (nat slotIdx) hReqEvent; signal env h } else ret () }"

definition WaitForSlotEvent :: "env \<Rightarrow> int \<Rightarrow> u32 \<Rightarrow> (alloc, bool) state" where
  "WaitForSlotEvent env slotIdx timeoutMs = do {
     valid \<leftarrow> gets (\<lambda>a. host_slot a slotIdx);
     if valid then do { h \<leftarrow> own (nat slotIdx) hRespEvent; wait_event env h (unat timeoutMs) }
     else ret False }"

section \<open>Sending\<close>

text \<open>The header writes that precede every arm: sizes, type and a fresh sequence number.\<close>

definition write_request :: "env \<Rightarrow> nat \<Rightarrow> i32 \<Rightarrow> MsgType \<Rightarrow> (alloc, u32) state" where
  "write_request env i sz msgType = do {
     stride \<leftarrow> gets msgSeqStride;
     store env i (upd_header (h_reqSize_update (\<lambda>_. sz)));
     store env i (upd_header (h_msgType_update (\<lambda>_. msgType)));
     currentSeq \<leftarrow> own i msgSeq;
     store env i (upd_header (h_msgSeq_update (\<lambda>_. currentSeq)));
     modify (upd_slot i (msgSeq_update (\<lambda>q. q + stride)));
     ret currentSeq }"

definition SendAcquiredAsync :: "env \<Rightarrow> int \<Rightarrow> i32 \<Rightarrow> MsgType \<Rightarrow> (alloc, result_void) state" where
  "SendAcquiredAsync env slotIdx sz msgType = do {
     valid \<leftarrow> gets (\<lambda>a. host_slot a slotIdx);
     if \<not> valid then ret (Failure InvalidArgs)
     else do {
       let i = nat slotIdx;
       cap \<leftarrow> own i maxReqSize;
       if absSize sz > cap then do {
         store_state env i SLOT_FREE;
         ret (Failure BufferTooSmall)
       } else do {
         _ \<leftarrow> write_request env i sz msgType;
         publish_request env i;
         ret Success } } }"

text \<open>\<open>std::vector::resize\<close>.\<close>

definition resize :: "nat \<Rightarrow> byte list \<Rightarrow> byte list" where
  "resize n v = take n v @ replicate (n - length v) 0"

text \<open>
  The response copy at the end of the three send paths: the peer-reported size is clamped
  to the response buffer, a negative size selects the end of the buffer.
\<close>

definition clamp_resp :: "i32 \<Rightarrow> u32 \<Rightarrow> u32" where
  "clamp_resp respSize maxResp =
     (let absResp = absSize respSize in if absResp > maxResp then maxResp else absResp)"

definition copy_out :: "i32 \<Rightarrow> u32 \<Rightarrow> byte list \<Rightarrow> byte list \<Rightarrow> byte list option" where
  "copy_out respSize maxResp respBuf outResp =
     (let absResp = clamp_resp respSize maxResp; out = resize (unat absResp) outResp in
      if absResp > 0 then
        (if 0 \<le>s respSize then CopySmall (unat absResp) respBuf out
         else let offset = maxResp - absResp in
           if unat offset \<le> length respBuf
           then CopySmall (unat absResp) (drop (unat offset) respBuf) out else None)
      else Some out)"

definition consume_response ::
  "env \<Rightarrow> nat \<Rightarrow> u32 \<Rightarrow> bool \<Rightarrow> byte list \<Rightarrow> (alloc, (int result \<times> byte list) outcome) state" where
  "consume_response env i expectedSeq release outResp = do {
     sq \<leftarrow> load env i (\<lambda>s. h_msgSeq (header s));
     if sq \<noteq> expectedSeq then do {
       store_state env i SLOT_FREE;
       ret (Ret (Inl ProtocolViolation, outResp))
     } else do {
       mt \<leftarrow> load env i (\<lambda>s. h_msgType (header s));
       if mt = SYSTEM_ERROR then do {
         store_state env i SLOT_FREE;
         ret (Ret (Inl InternalError, outResp))
       } else do {
         respSize \<leftarrow> load env i (\<lambda>s. h_respSize (header s));
         maxResp \<leftarrow> own i maxRespSize;
         respBuf \<leftarrow> load env i respBuffer;
         case copy_out respSize maxResp respBuf outResp of
           None \<Rightarrow> ret Trap
         | Some out \<Rightarrow> do {
             (if release then store_state env i SLOT_FREE else ret ());
             ret (Ret (Inr (sint (clamp_resp respSize maxResp)), out)) } } } }"

definition WaitForSlot ::
  "nat \<Rightarrow> env \<Rightarrow> int \<Rightarrow> byte list \<Rightarrow> u32 \<Rightarrow> (alloc, (int result \<times> byte list) outcome) state" where
  "WaitForSlot fuel env slotIdx outResp timeoutMs = do {
     valid \<leftarrow> gets (\<lambda>a. host_slot a slotIdx);
     if \<not> valid then ret (Ret (Inl InvalidArgs, outResp))
     else do {
       let i = nat slotIdx;
       t \<leftarrow> gets (\<lambda>a. effective_timeout a timeoutMs);
       store env i (activeWait_update (\<lambda>_. True));
       store env i (upd_header (h_hostState_update (\<lambda>_. HOST_STATE_ACTIVE)));
       obind (WaitForRespReady fuel env i t) (\<lambda>ready. do {
         FinishWait env i ready;
         if \<not> ready then ret (Ret (Inl Timeout, outResp))
         else do {
           sq \<leftarrow> own i msgSeq;
           stride \<leftarrow> gets msgSeqStride;
           consume_response env i (sq - stride) True outResp } }) } }"

definition SendAcquired ::
  "nat \<Rightarrow> env \<Rightarrow> int \<Rightarrow> i32 \<Rightarrow> MsgType \<Rightarrow> byte list \<Rightarrow> u32 \<Rightarrow>
   (alloc, (int result \<times> byte list) outcome) state" where
  "SendAcquired fuel env slotIdx sz msgType outResp timeoutMs = do {
     valid \<leftarrow> gets (\<lambda>a. host_slot a slotIdx);
     if \<not> valid then ret (Ret (Inl InvalidArgs, outResp))
     else do {
       let i = nat slotIdx;
       cap \<leftarrow> own i maxReqSize;
       if absSize sz > cap then do {
         store_state env i SLOT_FREE;
         ret (Ret (Inl BufferTooSmall, outResp))
       } else do {
         currentSeq \<leftarrow> write_request env i sz msgType;
         t \<leftarrow> gets (\<lambda>a. effective_timeout a timeoutMs);
         obind (WaitResponse fuel env i t) (\<lambda>ready.
           if \<not> ready then ret (Ret (Inl Timeout, outResp))
           else consume_response env i currentSeq True outResp) } } }"

definition SendHeld ::
  "nat \<Rightarrow> env \<Rightarrow> int \<Rightarrow> i32 \<Rightarrow> MsgType \<Rightarrow> byte list \<Rightarrow> u32 \<Rightarrow>
   (alloc, (int result \<times> byte list) outcome) state" where
  "SendHeld fuel env slotIdx sz msgType outResp timeoutMs = do {
     valid \<leftarrow> gets (\<lambda>a. host_slot a slotIdx);
     if \<not> valid then ret (Ret (Inl InvalidArgs, outResp))
     else do {
       let i = nat slotIdx;
       cap \<leftarrow> own i maxReqSize;
       if absSize sz > cap then ret (Ret (Inl BufferTooSmall, outResp))
       else do {
         currentSeq \<leftarrow> write_request env i sz msgType;
         stamp_lease env i;
         publish_request env i;
         t \<leftarrow> gets (\<lambda>a. effective_timeout a timeoutMs);
         obind (WaitForRespReady fuel env i t) (\<lambda>ready. do {
           FinishWait env i ready;
           if \<not> ready then ret (Ret (Inl Timeout, outResp))
           else consume_response env i currentSeq False outResp }) } } }"

definition ReleaseHeldSlot :: "env \<Rightarrow> int \<Rightarrow> (alloc, unit) state" where
  "ReleaseHeldSlot env slotIdx = do {
     valid \<leftarrow> gets (\<lambda>a. host_slot a slotIdx);
     if valid then store_state env (nat slotIdx) SLOT_FREE else ret () }"

end
