(* ===== verification/Shm_Slot_Rely.thy ===== *)
theory Shm_Slot_Rely
  imports Shm_Slots
begin

text \<open>
  Reasoning about the operations on one slot under interference. The locale \<open>slot_rely\<close> is
  the interface between an operation and its environment: whatever the other threads, the
  guest and the kernel do, they keep the slot vector, the sequence stride and the number of slots and change the
  slot only as the relation \<open>rely\<close> allows. Its rules say what each access establishes; the
  outcome and the data of every send path follow from them for each such environment.
\<close>

section \<open>Assertions on one slot\<close>

text \<open>The fields of the allocator that are fixed once the host is initialised.\<close>

abbreviation config :: "alloc \<Rightarrow> u32 \<times> u32" where
  "config a \<equiv> (msgSeqStride a, numSlots a)"

definition at_slot :: "nat \<Rightarrow> u32 \<times> u32 \<Rightarrow> (slot \<Rightarrow> bool) \<Rightarrow> alloc \<Rightarrow> bool" where
  "at_slot i st \<phi> a = (i < length (slots a) \<and> config a = st \<and> \<phi> (slots a ! i))"

definition stable :: "(slot \<Rightarrow> slot \<Rightarrow> bool) \<Rightarrow> (slot \<Rightarrow> bool) \<Rightarrow> bool" where
  "stable rely \<phi> = (\<forall>s s'. rely s s' \<longrightarrow> \<phi> s \<longrightarrow> \<phi> s')"

definition triple :: "('s \<Rightarrow> bool) \<Rightarrow> ('s, 'a) state \<Rightarrow> ('a \<Rightarrow> 's \<Rightarrow> bool) \<Rightarrow> bool" where
  "triple P m Q = (\<forall>s. P s \<longrightarrow> wp m Q s)"

named_theorems triples \<open>rules of the operations under interference\<close>

lemma triple_bind:
  "triple P m Q \<Longrightarrow> (\<And>x. triple (Q x) (f x) R) \<Longrightarrow> triple P (State_Monad.bind m f) R"
  unfolding triple_def wp_bind by (blast intro: wp_mono)

lemma triple_bind_value:
  "triple P m (\<lambda>x s. x = v \<and> Q s) \<Longrightarrow> triple Q (f v) R \<Longrightarrow> triple P (State_Monad.bind m f) R"
  by (rule triple_bind [where Q = "\<lambda>x s. x = v \<and> Q s"]) (auto simp: triple_def)

lemma triple_obind:
  assumes "triple P m (case_outcome Q (R Trap) (R NoFuel))" and "\<And>x. triple (Q x) (f x) R"
  shows "triple P (obind m f) R"
  using assms by (auto simp: triple_def wp_obind elim!: wp_mono split: outcome.splits)

lemma triple_ret: "(\<And>s. P s \<Longrightarrow> Q x s) \<Longrightarrow> triple P (ret x) Q"
  by (simp add: triple_def wp_rules)

lemma triple_gets: "(\<And>s. P s \<Longrightarrow> Q (f s) s) \<Longrightarrow> triple P (gets f) Q"
  by (simp add: triple_def wp_rules)

lemma triple_modify: "(\<And>s. P s \<Longrightarrow> Q () (f s)) \<Longrightarrow> triple P (modify f) Q"
  by (simp add: triple_def wp_rules)

lemma triple_if:
  "(b \<Longrightarrow> triple P m Q) \<Longrightarrow> (\<not> b \<Longrightarrow> triple P n Q) \<Longrightarrow> triple P (if b then m else n) Q"
  by simp

lemma triple_weaken:
  "triple P m Q \<Longrightarrow> (\<And>s. P' s \<Longrightarrow> P s) \<Longrightarrow> (\<And>x s. Q x s \<Longrightarrow> Q' x s) \<Longrightarrow> triple P' m Q'"
  unfolding triple_def by (blast intro: wp_mono)

lemma triple_conj: "triple P m Q \<Longrightarrow> triple P m R \<Longrightarrow> triple P m (\<lambda>x s. Q x s \<and> R x s)"
  by (auto simp: triple_def wp_def split: prod.splits)

lemma triple_pure: "(A \<Longrightarrow> triple P m Q) \<Longrightarrow> triple (\<lambda>s. A \<and> P s) m Q"
  by (auto simp: triple_def)

lemma triple_pre: "(\<And>s. P s \<Longrightarrow> triple ((=) s) m Q) \<Longrightarrow> triple P m Q"
  by (auto simp: triple_def)

lemma triple_run: "triple P m Q \<Longrightarrow> P s \<Longrightarrow> run_state m s = (x, s') \<Longrightarrow> Q x s'"
  by (auto simp: triple_def dest: wp_run)

lemma triple_wp: "triple P m Q \<Longrightarrow> P s \<Longrightarrow> wp m Q s"
  by (simp add: triple_def)

lemma wp_gets_bind: "wp (State_Monad.bind (gets f) g) Q s = wp (g (f s)) Q s"
  by (simp add: wp_rules)

lemma wp_load: "wp (load env i f) Q a = Q (f (slots (poll env 0 a) ! i)) (poll env 0 a)"
  by (simp add: wp_def load_def Let_def)

lemma wp_store: "wp (store env i f) Q a = Q () (upd_slot i f (poll env 0 a))"
  by (simp add: wp_def store_def)

lemma at_slot_mono: "at_slot i st \<phi> a \<Longrightarrow> (\<And>s. \<phi> s \<Longrightarrow> \<psi> s) \<Longrightarrow> at_slot i st \<psi> a"
  by (simp add: at_slot_def)

lemma triple_at_pure:
  "(A \<Longrightarrow> triple (at_slot i st \<phi>) m Q) \<Longrightarrow> triple (at_slot i st (\<lambda>s. \<phi> s \<and> A)) m Q"
  by (auto simp: triple_def at_slot_def)

lemma at_slot_upd:
  "at_slot i st \<phi> a \<Longrightarrow> (\<And>s. \<phi> s \<Longrightarrow> \<psi> (f s)) \<Longrightarrow> at_slot i st \<psi> (upd_slot i f a)"
  by (simp add: at_slot_def upd_slot_def)

section \<open>The response window\<close>

definition slot_ok :: "slot \<Rightarrow> bool" where
  "slot_ok s = (length (reqBuffer s) = unat (maxReqSize s) \<and>
     length (respBuffer s) = unat (maxRespSize s) \<and>
     maxReqSize s < 2 ^ 31 \<and> maxRespSize s < 2 ^ 31)"

text \<open>The bytes a size field selects: the start of the buffer, or its end when negative.\<close>

definition resp_window :: "i32 \<Rightarrow> u32 \<Rightarrow> byte list \<Rightarrow> byte list" where
  "resp_window respSize maxResp buf =
     (let n = unat (clamp_resp respSize maxResp) in
      if 0 \<le>s respSize then take n buf else drop (length buf - n) buf)"

lemma clamp_resp_le: "clamp_resp rs mx \<le> mx"
  by (auto simp: clamp_resp_def Let_def)

lemma clamp_resp_le_nat: "unat (clamp_resp rs mx) \<le> unat mx"
  using clamp_resp_le [of rs mx] by (simp add: word_le_nat_alt)

lemma length_resize [simp]: "length (resize n v) = n"
  by (simp add: resize_def)

lemma length_resp_window:
  "length buf = unat mx \<Longrightarrow> length (resp_window rs mx buf) = unat (clamp_resp rs mx)"
  using clamp_resp_le_nat [of rs mx] by (simp add: resp_window_def Let_def)

lemma copy_out_in_bounds [mem_safe]:
  assumes "length buf = unat mx"
  shows "copy_out rs mx buf v = Some (resp_window rs mx buf)"
proof -
  let ?n = "clamp_resp rs mx"
  have n: "unat ?n \<le> length buf"
    using assms clamp_resp_le_nat [of rs mx] by simp
  have off: "unat (mx - ?n) = length buf - unat ?n"
    using assms clamp_resp_le [of rs mx] by (simp add: unat_sub)
  show ?thesis
    using n off by (auto simp: copy_out_def resp_window_def Let_def mem_safe word_gt_0 resize_def)
qed

lemma sint_clamp_resp:
  assumes "length buf = unat mx" and "mx < 2 ^ 31"
  shows "sint (clamp_resp rs mx) = int (length (resp_window rs mx buf))"
  using assms le_less_trans [OF clamp_resp_le assms(2)]
  by (simp add: length_resp_window sint_small)

section \<open>The interface\<close>

text \<open>
  What consuming a response gives, when the slot satisfies \<open>\<phi>\<close> while it is consumed: every
  field read comes from a slot that satisfies \<open>\<phi>\<close>.
\<close>

definition freed :: "(slot \<Rightarrow> bool) \<Rightarrow> slot \<Rightarrow> bool" where
  "freed \<phi> s' = (\<exists>s. \<phi> s \<and> s' = upd_header (h_state_update (\<lambda>_. SLOT_FREE)) s)"

definition consume_post ::
  "(slot \<Rightarrow> bool) \<Rightarrow> u32 \<Rightarrow> u32 \<Rightarrow> bool \<Rightarrow> byte list \<Rightarrow> (int result \<times> byte list) outcome \<Rightarrow> slot \<Rightarrow> bool" where
  "consume_post \<phi> sq mx release out r s' = (case r of
     Ret (Inl e, out') \<Rightarrow> out' = out \<and> freed \<phi> s' \<and>
       (e = ProtocolViolation \<and> (\<exists>s. \<phi> s \<and> h_msgSeq (header s) \<noteq> sq) \<or>
        e = InternalError \<and> (\<exists>s. \<phi> s \<and> h_msgSeq (header s) = sq) \<and>
          (\<exists>s. \<phi> s \<and> h_msgType (header s) = SYSTEM_ERROR))
   | Ret (Inr n, out') \<Rightarrow> (if release then freed \<phi> s' else \<phi> s') \<and>
       (\<exists>s. \<phi> s \<and> h_msgSeq (header s) = sq) \<and> (\<exists>s. \<phi> s \<and> h_msgType (header s) \<noteq> SYSTEM_ERROR) \<and>
       (\<exists>s t. \<phi> s \<and> \<phi> t \<and> n = sint (clamp_resp (h_respSize (header s)) mx) \<and>
          out' = resp_window (h_respSize (header s)) mx (respBuffer t))
   | Trap \<Rightarrow> False
   | NoFuel \<Rightarrow> False)"

locale slot_rely =
  fixes env :: env and i :: nat and rely :: "slot \<Rightarrow> slot \<Rightarrow> bool"
  assumes keeps_slots: "length (slots (interference env k ms a)) = length (slots a)"
    and keeps_stride: "msgSeqStride (interference env k ms a) = msgSeqStride a"
    and keeps_numSlots: "numSlots (interference env k ms a) = numSlots a"
    and within_rely: "i < length (slots a) \<Longrightarrow> rely (slots a ! i) (slots (interference env k ms a) ! i)"
begin

lemma at_poll: "stable rely \<phi> \<Longrightarrow> at_slot i st \<phi> a \<Longrightarrow> at_slot i st \<phi> (poll env ms a)"
  using within_rely [of a "tick a" ms]
  by (auto simp: at_slot_def poll_def keeps_slots keeps_stride keeps_numSlots stable_def)

lemma t_load:
  assumes "stable rely \<phi>" and "\<And>s. \<phi> s \<Longrightarrow> \<psi> (f s) s"
  shows "triple (at_slot i st \<phi>) (load env i f) (\<lambda>x. at_slot i st (\<psi> x))"
  using at_poll [OF assms(1)] assms(2)
  by (auto simp: triple_def wp_def load_def Let_def at_slot_def)

lemma t_store:
  assumes "stable rely \<phi>" and "\<And>s. \<phi> s \<Longrightarrow> \<psi> (f s)"
  shows "triple (at_slot i st \<phi>) (store env i f) (\<lambda>_. at_slot i st \<psi>)"
  using at_poll [OF assms(1)] at_slot_upd [of i st \<phi> _ \<psi> f] assms(2)
  by (auto simp: triple_def wp_def store_def)

lemma t_cas_state:
  assumes "stable rely \<phi>"
    and "\<And>s. \<phi> s \<Longrightarrow> state_of s = e \<Longrightarrow> \<psi> True (upd_header (h_state_update (\<lambda>_. d)) s)"
    and "\<And>s. \<phi> s \<Longrightarrow> state_of s \<noteq> e \<Longrightarrow> \<psi> False s"
  shows "triple (at_slot i st \<phi>) (cas_state env i e d) (\<lambda>x. at_slot i st (\<psi> x))"
  using at_poll [OF assms(1)] assms(2,3)
  by (auto simp: triple_def wp_def cas_state_def Let_def at_slot_def upd_slot_def)

lemma t_signal:
  assumes "stable rely \<phi>"
  shows "triple (at_slot i st \<phi>) (signal env h) (\<lambda>_. at_slot i st \<phi>)"
  using at_poll [OF assms]
  by (auto simp: triple_def wp_def signal_def at_slot_def)

lemma t_wait_event:
  assumes "stable rely \<phi>"
  shows "triple (at_slot i st \<phi>) (wait_event env h ms) (\<lambda>_. at_slot i st \<phi>)"
  using at_poll [OF assms]
  by (auto simp: triple_def wp_def wait_event_def Let_def at_slot_def split: prod.splits)

lemma t_checkReady:
  assumes "stable rely \<phi>"
  shows "triple (at_slot i st \<phi>) (checkReady env i)
    (\<lambda>c. at_slot i st (\<lambda>s. \<phi> s \<and> (c \<longrightarrow> state_of s = SLOT_RESP_READY)))"
  unfolding checkReady_def
  by (rule triple_bind [OF t_load [OF assms, where \<psi> = "\<lambda>x s. \<phi> s \<and> x = state_of s"]])
    (auto intro: triple_ret at_slot_mono)

lemma t_resp_sleep_loop:
  assumes "stable rely \<phi>"
  shows "triple (at_slot i st \<phi>) (resp_sleep_loop fuel env i t start)
    (\<lambda>r a. r \<noteq> Trap \<and> at_slot i st \<phi> a)"
proof (induction fuel)
  case 0
  show ?case by (simp add: triple_ret)
next
  case (Suc fuel)
  have weak: "at_slot i st \<phi> a" if "at_slot i st (\<lambda>s. \<phi> s \<and> \<psi> s) a" for \<psi> a
    using that by (simp add: at_slot_def)
  show ?case
    unfolding resp_sleep_loop.simps Let_def
    by (intro triple_bind [OF t_checkReady [OF assms]] triple_if triple_ret conjI
        triple_bind [where m = "gets _" and Q = "\<lambda>_. at_slot i st \<phi>"] triple_gets
        triple_bind [OF t_wait_event [OF assms]] Suc.IH)
      (auto dest: weak)
qed

lemma t_resp_sleepAction:
  assumes "stable rely \<phi>" and "\<And>s v. \<phi> s \<Longrightarrow> \<phi> (upd_header (h_hostState_update (\<lambda>_. v)) s)"
  shows "triple (at_slot i st \<phi>) (resp_sleepAction fuel env i t)
    (\<lambda>r a. r \<noteq> Trap \<and> at_slot i st \<phi> a)"
proof -
  have weak: "at_slot i st \<phi> a" if "at_slot i st (\<lambda>s. \<phi> s \<and> \<psi> s) a" for \<psi> a
    using that by (simp add: at_slot_def)
  have put: "triple (at_slot i st \<phi>)
      (store env i (upd_header (h_hostState_update (\<lambda>_. v)))) (\<lambda>_. at_slot i st \<phi>)" for v
    by (rule t_store [OF assms(1)]) (rule assms(2))
  have check: "triple (at_slot i st \<phi>) (checkReady env i) (\<lambda>c. at_slot i st \<phi>)"
    by (rule triple_weaken [OF t_checkReady [OF assms(1)]]) (auto dest: weak)
  have loop: "triple (at_slot i st \<phi>) (resp_sleep_loop fuel env i t start)
      (case_outcome (\<lambda>_. at_slot i st \<phi>) (\<lambda>_. False) (at_slot i st \<phi>))" for start
    by (rule triple_weaken [OF t_resp_sleep_loop [OF assms(1)]]) (auto split: outcome.splits)
  have tail: "triple (at_slot i st \<phi>) (obind (resp_sleep_loop fuel env i t start)
      (\<lambda>_. store env i (upd_header (h_hostState_update (\<lambda>_. v))) \<bind> (\<lambda>_. ret (Ret ()))))
      (\<lambda>r a. r \<noteq> Trap \<and> at_slot i st \<phi> a)" for start v
    by (rule triple_obind [where Q = "\<lambda>_. at_slot i st \<phi>", OF triple_weaken [OF loop]])
      (auto intro: triple_bind [OF put] triple_ret split: outcome.splits)
  show ?thesis
    unfolding resp_sleepAction_def
    by (intro triple_bind [OF put] triple_bind [OF check] triple_if triple_ret tail
        triple_bind [where m = "gets _" and Q = "\<lambda>_. at_slot i st \<phi>"] triple_gets) auto
qed

lemma t_WaitForRespReady:
  assumes "stable rely \<phi>" and "\<And>s v. \<phi> s \<Longrightarrow> \<phi> (upd_header (h_hostState_update (\<lambda>_. v)) s)"
    and "\<And>s g. \<phi> s \<Longrightarrow> \<phi> (currentLimit_update g s)"
  shows "triple (at_slot i st \<phi>) (WaitForRespReady fuel env i t)
    (\<lambda>r a. r \<noteq> Trap \<and> at_slot i st \<phi> a \<and>
      (r = Ret True \<longrightarrow> at_slot i st (\<lambda>s. \<phi> s \<and> state_of s = SLOT_RESP_READY) a))"
  unfolding triple_def WaitForRespReady_def
proof (intro allI impI, rule wp_Wait)
  fix a assume "at_slot i st \<phi> a"
  then show "at_slot i st \<phi> a" .
next
  fix a assume "at_slot i st \<phi> a"
  then show "wp (checkReady env i) (\<lambda>c b. at_slot i st \<phi> b \<and>
      (c \<longrightarrow> at_slot i st (\<lambda>s. \<phi> s \<and> state_of s = SLOT_RESP_READY) b)) a"
    using t_checkReady [OF assms(1), of st] unfolding triple_def
    by (blast intro: wp_mono at_slot_mono)
next
  fix a assume "at_slot i st \<phi> a"
  then show "wp (resp_sleepAction fuel env i t) (\<lambda>r b. r \<noteq> Trap \<and> at_slot i st \<phi> b) a"
    using t_resp_sleepAction [OF assms(1,2)] unfolding triple_def by blast
qed (auto intro!: at_slot_upd assms(3) elim: at_slot_mono)

text \<open>
  Consuming a response: the errors free the slot and leave the caller's vector alone; a
  success returns the clamped window of the response buffer.
\<close>

lemma t_consume_response:
  assumes "stable rely \<phi>"
    and "\<And>s. \<phi> s \<Longrightarrow> length (respBuffer s) = unat (maxRespSize s) \<and> maxRespSize s = mx"
  shows "triple (at_slot i st \<phi>) (consume_response env i sq release out)
    (\<lambda>r a. consume_post \<phi> sq mx release out r (slots a ! i))"
  unfolding triple_def
proof (intro allI impI)
  fix a assume "at_slot i st \<phi> a"
  moreover define b1 where "b1 = poll env 0 a"
  moreover define b2 where "b2 = poll env 0 b1"
  moreover define b3 where "b3 = poll env 0 b2"
  moreover define b4 where "b4 = poll env 0 b3"
  moreover define b5 where "b5 = poll env 0 b4"
  ultimately have \<phi>: "at_slot i st \<phi> b1" "at_slot i st \<phi> b2" "at_slot i st \<phi> b3"
      "at_slot i st \<phi> b4" "at_slot i st \<phi> b5"
    using at_poll [OF assms(1)] by auto
  note b = b1_def [symmetric] b2_def [symmetric] b3_def [symmetric] b4_def [symmetric]
    b5_def [symmetric]
  have c: "copy_out rs mx (respBuffer (slots b4 ! i)) out =
      Some (resp_window rs mx (respBuffer (slots b4 ! i)))" for rs
    using assms(2) \<phi>(4) by (auto simp: at_slot_def intro: copy_out_in_bounds)
  have mx: "maxRespSize (slots b3 ! i) = mx"
    using assms(2) \<phi>(3) by (auto simp: at_slot_def)
  show "wp (consume_response env i sq release out)
      (\<lambda>r a. consume_post \<phi> sq mx release out r (slots a ! i)) a"
    using \<phi> unfolding consume_response_def
    by (auto simp: wp_rules wp_load wp_store b c mx consume_post_def freed_def upd_slot_def
        at_slot_def)
qed

text \<open>The header writes, the arming of the slot, and the wait with its clean-up.\<close>

lemma t_write_request:
  assumes "stable rely \<phi>0" and "stable rely \<phi>1" and "stable rely \<phi>2"
    and "\<And>s. \<phi>0 s \<Longrightarrow> \<phi>1 (upd_header (h_reqSize_update (\<lambda>_. sz)) s)"
    and "\<And>s. \<phi>1 s \<Longrightarrow> \<phi>2 (upd_header (h_msgType_update (\<lambda>_. mt)) s)"
    and "\<And>s t. \<phi>2 s \<Longrightarrow> \<phi>2 t \<Longrightarrow>
      \<psi> (msgSeq t) (msgSeq_update (\<lambda>q. q + fst st) (upd_header (h_msgSeq_update (\<lambda>_. msgSeq t)) s))"
  shows "triple (at_slot i st \<phi>0) (write_request env i sz mt) (\<lambda>q. at_slot i st (\<psi> q))"
  unfolding triple_def
proof (intro allI impI)
  fix a assume a: "at_slot i st \<phi>0 a"
  define b1 where "b1 = upd_slot i (upd_header (h_reqSize_update (\<lambda>_. sz))) (poll env 0 a)"
  have b1: "at_slot i st \<phi>1 b1"
    unfolding b1_def by (rule at_slot_upd [OF at_poll [OF assms(1) a]]) (rule assms(4))
  define b2 where "b2 = upd_slot i (upd_header (h_msgType_update (\<lambda>_. mt))) (poll env 0 b1)"
  have b2: "at_slot i st \<phi>2 b2"
    unfolding b2_def by (rule at_slot_upd [OF at_poll [OF assms(2) b1]]) (rule assms(5))
  define b3 where "b3 = poll env 0 b2"
  have b3: "at_slot i st \<phi>2 b3"
    unfolding b3_def by (rule at_poll [OF assms(3) b2])
  have st: "msgSeqStride a = fst st"
    using a by (auto simp: at_slot_def)
  show "wp (write_request env i sz mt) (\<lambda>q. at_slot i st (\<psi> q)) a"
    unfolding write_request_def wp_rules wp_store st b1_def [symmetric] b2_def [symmetric]
      b3_def [symmetric]
    using b2 b3 assms(6) by (simp add: at_slot_def upd_slot_def)
qed

lemma t_publish_request:
  assumes "stable rely \<phi>0" and "stable rely \<phi>1" and "stable rely \<phi>2" and "stable rely \<psi>"
    and "\<And>s. \<phi>0 s \<Longrightarrow> \<phi>1 (activeWait_update (\<lambda>_. True) s)"
    and "\<And>s. \<phi>1 s \<Longrightarrow> \<phi>2 (upd_header (h_hostState_update (\<lambda>_. HOST_STATE_ACTIVE)) s)"
    and "\<And>s. \<phi>2 s \<Longrightarrow> \<psi> (upd_header (h_state_update (\<lambda>_. SLOT_REQ_READY)) s)"
  shows "triple (at_slot i st \<phi>0) (publish_request env i) (\<lambda>_. at_slot i st \<psi>)"
  unfolding publish_request_def
  by (rule triple_bind [OF t_store [OF assms(1), where \<psi> = \<phi>1]], rule assms(5), assumption,
      rule triple_bind [OF t_store [OF assms(2), where \<psi> = \<phi>2]], rule assms(6), assumption,
      rule triple_bind [OF t_store [OF assms(3), where \<psi> = \<psi>]], rule assms(7), assumption,
      rule triple_bind [OF t_load [OF assms(4), where \<psi> = "\<lambda>_. \<psi>"]])
    (auto intro!: triple_ret triple_bind [where m = "gets _" and Q = "\<lambda>_. at_slot i st \<psi>"]
      triple_gets t_signal [OF assms(4)])

lemma t_wait_finish:
  assumes "stable rely \<phi>" and "\<And>s v. \<phi> s \<Longrightarrow> \<phi> (upd_header (h_hostState_update (\<lambda>_. v)) s)"
    and "\<And>s g. \<phi> s \<Longrightarrow> \<phi> (currentLimit_update g s)"
    and "stable rely \<phi>1" and "\<And>s. \<phi> s \<Longrightarrow> state_of s = SLOT_RESP_READY \<Longrightarrow> \<phi>1 s"
    and "stable rely \<phi>2" and "\<And>s. \<phi>1 s \<Longrightarrow> \<phi>2 (upd_header (h_state_update (\<lambda>_. SLOT_BUSY)) s)"
    and "\<And>s. \<phi>2 s \<Longrightarrow> \<psi> (activeWait_update (\<lambda>_. False) s)"
    and "triple (at_slot i st \<psi>) (K True) R"
    and "triple (at_slot i st (\<lambda>s'. \<exists>s. \<phi> s \<and> s' = activeWait_update (\<lambda>_. False) s)) (K False) R"
    and "\<And>a. at_slot i st \<phi> a \<Longrightarrow> R NoFuel a"
  shows "triple (at_slot i st \<phi>)
    (obind (WaitForRespReady fuel env i t) (\<lambda>ready. FinishWait env i ready \<bind> (\<lambda>_. K ready))) R"
proof (rule triple_obind)
  show "triple (at_slot i st \<phi>) (WaitForRespReady fuel env i t)
      (case_outcome (\<lambda>r. at_slot i st (if r then \<phi>1 else \<phi>)) (R Trap) (R NoFuel))"
    by (rule triple_weaken [OF t_WaitForRespReady [OF assms(1-3)]])
      (auto intro: at_slot_mono assms(5,11) split: outcome.splits)
next
  fix ready
  have "triple (at_slot i st \<phi>1) (FinishWait env i True) (\<lambda>_. at_slot i st \<psi>)"
    unfolding FinishWait_def if_True
    by (rule triple_bind [OF t_store [OF assms(4), where \<psi> = \<phi>2]], rule assms(7), assumption,
        rule t_store [OF assms(6)], rule assms(8))
  moreover have "triple (at_slot i st \<phi>) (FinishWait env i False)
      (\<lambda>_. at_slot i st (\<lambda>s'. \<exists>s. \<phi> s \<and> s' = activeWait_update (\<lambda>_. False) s))"
    by (auto simp: FinishWait_def intro: t_store [OF assms(1)])
  ultimately show "triple (at_slot i st (if ready then \<phi>1 else \<phi>))
      (FinishWait env i ready \<bind> (\<lambda>_. K ready)) R"
    using assms(9,10) by (cases ready) (auto intro: triple_bind)
qed

end

text \<open>Laws of \<open>obind\<close> that bring the send paths to the form of the rule above.\<close>

lemma obind_bind: "obind (State_Monad.bind m f) g = State_Monad.bind m (\<lambda>x. obind (f x) g)"
  by (simp add: obind_def)

lemma obind_ret [simp]: "obind (ret (Ret x)) g = g x"
  by (simp add: obind_def)

lemma obind_obind: "obind (obind m f) g = obind m (\<lambda>x. obind (f x) g)"
  unfolding obind_def by (auto intro!: arg_cong2 [where f = State_Monad.bind] simp: fun_eq_iff split: outcome.splits)

end
