(* ===== verification/Shm_Slot_Send.thy ===== *)
theory Shm_Slot_Send
  imports Shm_Slot_Rely
begin

unbundle bit_operations_syntax

text \<open>
  What the send paths of \<open>src/include/shm/SlotAllocator.h\<close> give their caller: first under a
  peer that writes what it likes into the slot, then under a guest that answers requests.
\<close>

section \<open>Arbitrary peers\<close>

text \<open>
  The environment may write anything into the header and the buffers of the slot; the
  sizes of the buffers are local to the host and do not change.
\<close>

definition shape_rely :: "slot \<Rightarrow> slot \<Rightarrow> bool" where
  "shape_rely s s' = (slot_ok s \<longrightarrow>
     slot_ok s' \<and> maxReqSize s' = maxReqSize s \<and> maxRespSize s' = maxRespSize s)"

definition shaped :: "u32 \<Rightarrow> slot \<Rightarrow> bool" where
  "shaped mx s = (slot_ok s \<and> maxRespSize s = mx)"

text \<open>What a transaction may end in; \<open>frees\<close> tells whether a success releases the slot.\<close>

definition send_outcome ::
  "bool \<Rightarrow> u32 \<Rightarrow> byte list \<Rightarrow> (int result \<times> byte list) outcome \<Rightarrow> slot \<Rightarrow> bool" where
  "send_outcome frees mx out r s' = (case r of
     Ret (Inl e, out') \<Rightarrow> out' = out \<and>
       (e = Timeout \<and> \<not> activeWait s' \<or>
        (e = ProtocolViolation \<or> e = InternalError) \<and> state_of s' = SLOT_FREE)
   | Ret (Inr n, out') \<Rightarrow> n = int (length out') \<and> length out' \<le> unat mx \<and>
       (frees \<longrightarrow> state_of s' = SLOT_FREE)
   | Trap \<Rightarrow> False
   | NoFuel \<Rightarrow> True)"

lemma stable_shaped: "stable shape_rely (shaped mx)"
  by (auto simp: stable_def shape_rely_def shaped_def)

lemma shaped_updates [simp]:
  "shaped mx (upd_header f s) = shaped mx s"
  "shaped mx (activeWait_update g s) = shaped mx s"
  "shaped mx (currentLimit_update h s) = shaped mx s"
  "shaped mx (msgSeq_update k s) = shaped mx s"
  by (simp_all add: shaped_def slot_ok_def upd_header_def)

lemma consume_send_outcome:
  assumes "consume_post (shaped mx) sq mx release out r s'"
  shows "send_outcome release mx out r s'"
proof -
  have "length (resp_window rs mx (respBuffer t)) = unat (clamp_resp rs mx)"
      "sint (clamp_resp rs mx) = int (unat (clamp_resp rs mx))" if "shaped mx t" for rs t
    using that le_less_trans [OF clamp_resp_le [of rs mx]]
    by (auto simp: shaped_def slot_ok_def length_resp_window sint_small)
  then show ?thesis
    using assms clamp_resp_le_nat
    by (auto simp: consume_post_def send_outcome_def freed_def upd_header_def
        split: outcome.splits sum.splits prod.splits if_splits)
qed

text \<open>The common tail of the three paths: wait, clean up, consume.\<close>

lemma t_shaped_consume:
  assumes "slot_rely env i shape_rely"
  shows "triple (at_slot i st (shaped mx)) (consume_response env i sq release out)
    (\<lambda>r a. send_outcome release mx out r (slots a ! i))"
  by (rule triple_weaken [OF slot_rely.t_consume_response [OF assms stable_shaped]])
    (auto simp: shaped_def slot_ok_def dest: consume_send_outcome)

lemma send_no_fuel: "send_outcome frees mx out NoFuel s'"
  by (simp add: send_outcome_def)

lemma send_timeout: "send_outcome frees mx out (Ret (Inl Timeout, out)) (activeWait_update (\<lambda>_. False) s)"
  by (simp add: send_outcome_def)

lemma t_shaped_tail:
  assumes "slot_rely env i shape_rely"
    and "triple (at_slot i st (shaped mx)) K (\<lambda>r a. send_outcome release mx out r (slots a ! i))"
  shows "triple (at_slot i st (shaped mx))
    (obind (WaitForRespReady fuel env i t) (\<lambda>ready. FinishWait env i ready \<bind> (\<lambda>_.
       if \<not> ready then ret (Ret (Inl Timeout, out)) else K)))
    (\<lambda>r a. send_outcome release mx out r (slots a ! i))"
  by (rule slot_rely.t_wait_finish [OF assms(1), where ?\<phi>1.0 = "shaped mx" and ?\<phi>2.0 = "shaped mx"
        and \<psi> = "shaped mx"])
    (auto intro!: triple_ret simp: stable_shaped assms(2) send_timeout send_no_fuel at_slot_def)

lemma t_shaped_write:
  "slot_rely env i shape_rely \<Longrightarrow>
   triple (at_slot i st (shaped mx)) (write_request env i sz mt) (\<lambda>_. at_slot i st (shaped mx))"
  by (rule slot_rely.t_write_request [where ?\<phi>1.0 = "shaped mx" and ?\<phi>2.0 = "shaped mx"])
    (auto intro: stable_shaped)

lemma t_shaped_publish:
  "slot_rely env i shape_rely \<Longrightarrow>
   triple (at_slot i st (shaped mx)) (publish_request env i) (\<lambda>_. at_slot i st (shaped mx))"
  by (rule slot_rely.t_publish_request [where ?\<phi>1.0 = "shaped mx" and ?\<phi>2.0 = "shaped mx"])
    (auto intro: stable_shaped)

lemma SendAcquired_eq:
  "SendAcquired fuel env slotIdx sz msgType outResp timeoutMs = do {
     valid \<leftarrow> gets (\<lambda>a. host_slot a slotIdx);
     if \<not> valid then ret (Ret (Inl InvalidArgs, outResp))
     else do {
       cap \<leftarrow> own (nat slotIdx) maxReqSize;
       if absSize sz > cap then do {
         store_state env (nat slotIdx) SLOT_FREE;
         ret (Ret (Inl BufferTooSmall, outResp))
       } else do {
         currentSeq \<leftarrow> write_request env (nat slotIdx) sz msgType;
         t \<leftarrow> gets (\<lambda>a. effective_timeout a timeoutMs);
         publish_request env (nat slotIdx);
         obind (WaitForRespReady fuel env (nat slotIdx) t) (\<lambda>ready.
           FinishWait env (nat slotIdx) ready \<bind> (\<lambda>_.
             if \<not> ready then ret (Ret (Inl Timeout, outResp))
             else consume_response env (nat slotIdx) currentSeq True outResp)) } } }"
  unfolding SendAcquired_def WaitResponse_def Let_def obind_bind obind_obind obind_ret ..

text \<open>The part of each send path behind its guards.\<close>

lemma t_shaped_sends:
  assumes "slot_rely env i shape_rely"
  shows "triple (at_slot i st (shaped mx))
      (write_request env i sz msgType \<bind> (\<lambda>currentSeq.
       gets (\<lambda>a. effective_timeout a timeoutMs) \<bind> (\<lambda>t. publish_request env i \<bind> (\<lambda>_.
       obind (WaitForRespReady fuel env i t) (\<lambda>ready. FinishWait env i ready \<bind> (\<lambda>_.
         if \<not> ready then ret (Ret (Inl Timeout, out))
         else consume_response env i currentSeq release out))))))
      (\<lambda>r a. send_outcome release mx out r (slots a ! i))"
  by (intro triple_bind [OF t_shaped_write [OF assms]] triple_bind [OF t_shaped_publish [OF assms]]
      triple_bind [where m = "gets _" and Q = "\<lambda>_. at_slot i st (shaped mx)"] triple_gets
      t_shaped_tail [OF assms t_shaped_consume [OF assms]])

lemma t_shaped_held:
  assumes "slot_rely env i shape_rely"
  shows "triple (at_slot i st (shaped mx))
      (write_request env i sz msgType \<bind> (\<lambda>currentSeq.
       stamp_lease env i \<bind> (\<lambda>_. publish_request env i \<bind> (\<lambda>_.
       gets (\<lambda>a. effective_timeout a timeoutMs) \<bind> (\<lambda>t.
       obind (WaitForRespReady fuel env i t) (\<lambda>ready. FinishWait env i ready \<bind> (\<lambda>_.
         if \<not> ready then ret (Ret (Inl Timeout, out))
         else consume_response env i currentSeq release out)))))))
      (\<lambda>r a. send_outcome release mx out r (slots a ! i))"
proof -
  have stamp: "triple (at_slot i st (shaped mx)) (stamp_lease env i) (\<lambda>_. at_slot i st (shaped mx))"
    unfolding stamp_lease_def
    by (intro triple_bind [where m = "gets _" and Q = "\<lambda>_. at_slot i st (shaped mx)"] triple_gets
        slot_rely.t_store [OF assms stable_shaped]) auto
  show ?thesis
    by (intro triple_bind [OF t_shaped_write [OF assms]] triple_bind [OF t_shaped_publish [OF assms]]
        triple_bind [OF stamp]
        triple_bind [where m = "gets _" and Q = "\<lambda>_. at_slot i st (shaped mx)"] triple_gets
        t_shaped_tail [OF assms t_shaped_consume [OF assms]])
qed

lemma t_shaped_wait:
  assumes "slot_rely env i shape_rely"
  shows "triple (at_slot i st (shaped mx))
      (store env i (activeWait_update (\<lambda>_. True)) \<bind> (\<lambda>_.
       store env i (upd_header (h_hostState_update (\<lambda>_. HOST_STATE_ACTIVE))) \<bind> (\<lambda>_.
       obind (WaitForRespReady fuel env i t) (\<lambda>ready. FinishWait env i ready \<bind> (\<lambda>_.
         if \<not> ready then ret (Ret (Inl Timeout, out))
         else own i msgSeq \<bind> (\<lambda>sq. gets msgSeqStride \<bind> (\<lambda>stride.
           consume_response env i (sq - stride) True out)))))))
      (\<lambda>r a. send_outcome True mx out r (slots a ! i))"
  by (intro triple_bind [OF slot_rely.t_store [OF assms stable_shaped, where \<psi> = "shaped mx"]]
      triple_bind [where m = "gets _" and Q = "\<lambda>_. at_slot i st (shaped mx)"] triple_gets
      t_shaped_tail [OF assms] t_shaped_consume [OF assms]) simp_all

text \<open>
  C10. Memory safety and outcome of the three send paths against every peer. Whatever
  sizes, sequence numbers and bytes the other side writes into the slot, at whatever
  moments, the response copy stays inside both buffers; a success returns exactly as many
  bytes as it reports, at most the response buffer; a timeout leaves the state of the slot
  to its late writer with \<open>activeWait\<close> cleared, every other failure frees the slot, and no
  failure touches the caller's vector.
\<close>

theorem send_paths_safe_against_any_peer:
  assumes "slot_rely env (nat slotIdx) shape_rely" and "host_slot a slotIdx"
    and "nat slotIdx < length (slots a)" and "slot_ok (slots a ! nat slotIdx)"
    and "absSize sz \<le> maxReqSize (slots a ! nat slotIdx)"
  shows "(case run_state (SendAcquired fuel env slotIdx sz mt out t) a of (r, b) \<Rightarrow>
      send_outcome True (maxRespSize (slots a ! nat slotIdx)) out r (slots b ! nat slotIdx)) \<and>
    (case run_state (SendHeld fuel env slotIdx sz mt out t) a of (r, b) \<Rightarrow>
      send_outcome False (maxRespSize (slots a ! nat slotIdx)) out r (slots b ! nat slotIdx)) \<and>
    (case run_state (WaitForSlot fuel env slotIdx out t) a of (r, b) \<Rightarrow>
      send_outcome True (maxRespSize (slots a ! nat slotIdx)) out r (slots b ! nat slotIdx))"
proof -
  let ?i = "nat slotIdx" and ?mx = "maxRespSize (slots a ! nat slotIdx)"
  have a: "at_slot ?i (config a) (shaped ?mx) a"
    using assms(3,4) by (simp add: at_slot_def shaped_def)
  have g: "host_slot a slotIdx = True" "(absSize sz > maxReqSize (slots a ! ?i)) = False"
    using assms(2,5) by auto
  note run = g wp_gets_bind not_True_eq_False if_False Let_def
  have "wp (SendAcquired fuel env slotIdx sz mt out t) (\<lambda>r b. send_outcome True ?mx out r (slots b ! ?i)) a"
    unfolding SendAcquired_eq run by (rule triple_wp [OF t_shaped_sends [OF assms(1)] a])
  moreover have "wp (SendHeld fuel env slotIdx sz mt out t) (\<lambda>r b. send_outcome False ?mx out r (slots b ! ?i)) a"
    unfolding SendHeld_def run by (rule triple_wp [OF t_shaped_held [OF assms(1)] a])
  moreover have "wp (WaitForSlot fuel env slotIdx out t) (\<lambda>r b. send_outcome True ?mx out r (slots b ! ?i)) a"
    unfolding WaitForSlot_def run by (rule triple_wp [OF t_shaped_wait [OF assms(1)] a])
  ultimately show ?thesis
    by (simp add: wp_def)
qed

text \<open>
  The checks of the arguments. An index outside the host slots is refused by the operations
  below and changes nothing. A request larger than the request buffer (the magnitude of the
  signed size, \<open>INT32_MIN\<close> included) is refused before the request is written: the one-shot
  paths give the slot back, a held session keeps it.
\<close>

lemma bad_arguments_rejected:
  "(\<not> host_slot a slotIdx \<longrightarrow>
     run_state (SendAcquired fuel env slotIdx sz mt out t) a = (Ret (Inl InvalidArgs, out), a) \<and>
     run_state (SendHeld fuel env slotIdx sz mt out t) a = (Ret (Inl InvalidArgs, out), a) \<and>
     run_state (WaitForSlot fuel env slotIdx out t) a = (Ret (Inl InvalidArgs, out), a) \<and>
     run_state (SendAcquiredAsync env slotIdx sz mt) a = (Failure InvalidArgs, a) \<and>
     run_state (AcquireSpecificSlot fuel env slotIdx t) a = (Ret (- 1), a) \<and>
     run_state (GetReqBuffer slotIdx) a = (None, a) \<and> run_state (GetMaxReqSize slotIdx) a = (0, a) \<and>
     run_state (SignalSlot env slotIdx) a = ((), a) \<and>
     run_state (WaitForSlotEvent env slotIdx t) a = (False, a) \<and>
     run_state (ReleaseHeldSlot env slotIdx) a = ((), a)) \<and>
   (host_slot a slotIdx \<and> unat (maxReqSize (slots a ! nat slotIdx)) < nat \<bar>sint sz\<bar> \<longrightarrow>
     (let freed = upd_slot (nat slotIdx) (upd_header (h_state_update (\<lambda>_. SLOT_FREE))) (poll env 0 a) in
      run_state (SendAcquired fuel env slotIdx sz mt out t) a = (Ret (Inl BufferTooSmall, out), freed) \<and>
      run_state (SendAcquiredAsync env slotIdx sz mt) a = (Failure BufferTooSmall, freed) \<and>
      run_state (SendHeld fuel env slotIdx sz mt out t) a = (Ret (Inl BufferTooSmall, out), a)))"
proof -
  have big: "maxReqSize (slots a ! nat slotIdx) < absSize sz \<longleftrightarrow>
      unat (maxReqSize (slots a ! nat slotIdx)) < nat \<bar>sint sz\<bar>"
    by (simp add: word_less_nat_alt unat_absSize)
  note ops = SendAcquired_def SendHeld_def WaitForSlot_def SendAcquiredAsync_def AcquireSpecificSlot_def
    GetReqBuffer_def GetMaxReqSize_def SignalSlot_def WaitForSlotEvent_def ReleaseHeldSlot_def
  show ?thesis
    by (intro conjI impI) (simp_all add: ops Let_def big store_def)
qed

section \<open>A guest that answers\<close>

text \<open>
  The guest's handler gets the message type and the request bytes and returns the type of
  the response, the response bytes and whether they are placed at the end of the response
  buffer (then the size it writes is negative).
\<close>

type_synonym handler = "MsgType \<Rightarrow> byte list \<Rightarrow> MsgType \<times> byte list \<times> bool"

definition req_window :: "slot \<Rightarrow> byte list" where
  "req_window s = resp_window (h_reqSize (header s)) (maxReqSize s) (reqBuffer s)"

definition place_response :: "byte list \<Rightarrow> bool \<Rightarrow> slot \<Rightarrow> slot" where
  "place_response reply fromEnd s = s\<lparr>
     header := (header s)\<lparr>h_respSize :=
       (if fromEnd then - word_of_nat (length reply) else word_of_nat (length reply))\<rparr>,
     respBuffer := overwrite (if fromEnd then length (respBuffer s) - length reply else 0)
       reply (respBuffer s)\<rparr>"

definition answer :: "handler \<Rightarrow> slot \<Rightarrow> slot" where
  "answer g s = (case g (h_msgType (header s)) (req_window s) of (ty, reply, fromEnd) \<Rightarrow>
     upd_header (h_msgType_update (\<lambda>_. ty) \<circ> h_state_update (\<lambda>_. SLOT_RESP_READY))
       (place_response reply fromEnd s))"

text \<open>
  The part of a slot that belongs to its transaction: the two wait flags, the lease, the
  generation counter and the spin window may change at any time without harm.
\<close>

definition core :: "slot \<Rightarrow> slot" where
  "core s = s\<lparr>header := (header s)\<lparr>h_hostState := 0, h_guestState := 0, h_lease := 0, h_gen := 0\<rparr>,
     currentLimit := 0\<rparr>"

definition host_owned :: "slot \<Rightarrow> bool" where
  "host_owned s = (state_of s = SLOT_BUSY \<or> state_of s = SLOT_RESP_READY \<and> activeWait s)"

definition in_service :: "slot \<Rightarrow> bool" where
  "in_service s = ((state_of s = SLOT_REQ_READY \<or> state_of s = SLOT_GUEST_BUSY) \<and> activeWait s)"

text \<open>
  The environment of a slot whose owner is alive and alone: nobody touches the transaction
  while the host owns the slot, and while the request is in service the guest leaves it,
  marks it as taken or answers it.
\<close>

definition guest_rely :: "handler \<Rightarrow> slot \<Rightarrow> slot \<Rightarrow> bool" where
  "guest_rely g s s' =
     ((host_owned s \<longrightarrow> core s' = core s) \<and>
      (in_service s \<longrightarrow> core s' = core s \<or>
         core s' = core (upd_header (h_state_update (\<lambda>_. SLOT_GUEST_BUSY)) s) \<or>
         core s' = core (answer g s)))"

lemma core_updates [simp]:
  "core (upd_header (h_hostState_update f) s) = core s"
  "core (upd_header (h_lease_update k) s) = core s"
  "core (currentLimit_update l s) = core s"
  "core (core s) = core s"
  by (simp_all add: core_def upd_header_def)

lemma core_commutes:
  "core (upd_header (h_state_update f1) s) = upd_header (h_state_update f1) (core s)"
  "core (upd_header (h_reqSize_update f2) s) = upd_header (h_reqSize_update f2) (core s)"
  "core (upd_header (h_msgType_update f3) s) = upd_header (h_msgType_update f3) (core s)"
  "core (upd_header (h_msgSeq_update f2') s) = upd_header (h_msgSeq_update f2') (core s)"
  "core (activeWait_update f4 s) = activeWait_update f4 (core s)"
  "core (msgSeq_update f5 s) = msgSeq_update f5 (core s)"
  by (simp_all add: core_def upd_header_def)

lemma core_fields [simp]:
  "h_state (header (core s)) = h_state (header s)"
  "h_msgSeq (header (core s)) = h_msgSeq (header s)"
  "h_msgType (header (core s)) = h_msgType (header s)"
  "h_reqSize (header (core s)) = h_reqSize (header s)"
  "h_respSize (header (core s)) = h_respSize (header s)"
  "reqBuffer (core s) = reqBuffer s" "respBuffer (core s) = respBuffer s"
  "maxReqSize (core s) = maxReqSize s" "maxRespSize (core s) = maxRespSize s"
  "msgSeq (core s) = msgSeq s" "activeWait (core s) = activeWait s"
  by (simp_all add: core_def)

lemma core_answer: "core (answer g s) = answer g (core s)"
  by (simp add: answer_def req_window_def place_response_def core_def upd_header_def
      split: prod.splits)

lemma answer_taken [simp]: "answer g (upd_header (h_state_update f) s) = answer g s"
  by (simp add: answer_def req_window_def place_response_def upd_header_def split: prod.splits)

lemma host_owned_core [simp]: "host_owned (core s) = host_owned s"
  by (simp add: host_owned_def)

lemma in_service_core [simp]: "in_service (core s) = in_service s"
  by (simp add: in_service_def)

lemma core_cong:
  assumes "core s = core c"
  shows "host_owned s = host_owned c" "in_service s = in_service c" "core (answer g s) = core (answer g c)"
    "core (upd_header (h_state_update f) s) = core (upd_header (h_state_update f) c)"
proof -
  show "host_owned s = host_owned c" by (metis assms host_owned_core)
  show "in_service s = in_service c" by (metis assms in_service_core)
  show "core (answer g s) = core (answer g c)" by (simp only: core_answer assms)
  show "core (upd_header (h_state_update f) s) = core (upd_header (h_state_update f) c)"
    by (simp only: core_commutes assms)
qed

text \<open>The two phases of a transaction that the environment cannot disturb.\<close>

definition pinned :: "slot \<Rightarrow> slot \<Rightarrow> bool" where
  "pinned c s = (core s = core c)"

definition pending :: "handler \<Rightarrow> slot \<Rightarrow> slot \<Rightarrow> bool" where
  "pending g c s = (core s = core c \<or>
     core s = core (upd_header (h_state_update (\<lambda>_. SLOT_GUEST_BUSY)) c) \<or>
     core s = core (answer g c))"

lemma stable_pinned: "host_owned c \<Longrightarrow> stable (guest_rely g) (pinned c)"
  unfolding stable_def guest_rely_def pinned_def using core_cong(1) by metis

lemma answer_host_owned: "activeWait c \<Longrightarrow> host_owned (answer g c)"
  by (simp add: host_owned_def answer_def place_response_def upd_header_def split: prod.splits)

lemma upd_state_twice:
  "upd_header (h_state_update (\<lambda>_. v)) (upd_header (h_state_update (\<lambda>_. w)) s) =
   upd_header (h_state_update (\<lambda>_. v)) s"
  by (simp add: upd_header_def)

lemma stable_pending:
  assumes "in_service c"
  shows "stable (guest_rely g) (pending g c)"
  unfolding stable_def
proof (intro allI impI)
  fix s s' assume r: "guest_rely g s s'" and p: "pending g c s"
  let ?b = "upd_header (h_state_update (\<lambda>_. SLOT_GUEST_BUSY))"
  have c: "in_service (?b c)" "activeWait c"
    using assms by (auto simp: in_service_def upd_header_def)
  from p consider "core s = core c" | "core s = core (?b c)" | "core s = core (answer g c)"
    by (auto simp: pending_def)
  then show "pending g c s'"
  proof cases
    case 1
    then show ?thesis
      using r assms by (auto simp: guest_rely_def pending_def core_cong [OF 1])
  next
    case 2
    then show ?thesis
      using r c by (auto simp: guest_rely_def pending_def core_cong [OF 2] upd_state_twice)
  next
    case 3
    then show ?thesis
      using r answer_host_owned [OF c(2)] by (auto simp: guest_rely_def pending_def core_cong [OF 3])
  qed
qed

lemma resp_window_placed:
  assumes "length reply \<le> length (respBuffer s)" and "length (respBuffer s) = unat mx" and "mx < 2 ^ 31"
  shows "resp_window (h_respSize (header (place_response reply e s))) mx
      (respBuffer (place_response reply e s)) = reply"
proof -
  have n: "length reply < 2 ^ 31"
    using assms by (simp add: word_less_nat_alt)
  let ?rs = "if e then - word_of_nat (length reply) else word_of_nat (length reply) :: i32"
  have si: "sint ?rs = (if e then - int (length reply) else int (length reply))"
    using n by (simp add: sint_of_nat_i32 sint_neg_of_nat_i32)
  have abs: "unat (absSize ?rs) = length reply"
    by (simp add: unat_absSize si)
  have clamp: "unat (clamp_resp ?rs mx) = length reply"
    using abs assms(1,2) by (auto simp: clamp_resp_def Let_def word_less_nat_alt)
  have sgn: "0 \<le>s ?rs \<longleftrightarrow> \<not> e \<or> reply = []"
    by (auto simp: word_sle_eq si)
  show ?thesis
    using assms clamp sgn
    by (auto simp: resp_window_def place_response_def Let_def overwrite_def)
qed
text \<open>What a remote call returns: the handler's reply to the request in the slot.\<close>

definition rpc_outcome ::
  "bool \<Rightarrow> MsgType \<Rightarrow> byte list \<Rightarrow> byte list \<Rightarrow> (int result \<times> byte list) outcome \<Rightarrow> slot \<Rightarrow> bool" where
  "rpc_outcome frees ty reply out r s' = (case r of
     Ret v \<Rightarrow> v = (Inl Timeout, out) \<and> \<not> activeWait s' \<or>
       (if ty = SYSTEM_ERROR then v = (Inl InternalError, out) \<and> state_of s' = SLOT_FREE
        else v = (Inr (int (length reply)), reply) \<and>
          state_of s' = (if frees then SLOT_FREE else SLOT_BUSY))
   | Trap \<Rightarrow> False
   | NoFuel \<Rightarrow> True)"

definition answered :: "handler \<Rightarrow> slot \<Rightarrow> slot" where
  "answered g c = activeWait_update (\<lambda>_. False)
     (upd_header (h_state_update (\<lambda>_. SLOT_BUSY)) (answer g c))"

lemma pinned_fields:
  assumes "pinned c s"
  shows "h_msgSeq (header s) = h_msgSeq (header c)" "h_msgType (header s) = h_msgType (header c)"
    "h_respSize (header s) = h_respSize (header c)" "respBuffer s = respBuffer c"
    "maxRespSize s = maxRespSize c" "state_of s = state_of c" "maxReqSize s = maxReqSize c"
    "reqBuffer s = reqBuffer c" "msgSeq s = msgSeq c" "activeWait s = activeWait c"
  using assms unfolding pinned_def by (metis core_fields)+

lemma answered_fields:
  assumes "g (h_msgType (header c)) (req_window c) = (ty, reply, e)"
  shows "h_msgSeq (header (answered g c)) = h_msgSeq (header c)" "h_msgType (header (answered g c)) = ty"
    "h_respSize (header (answered g c)) = h_respSize (header (place_response reply e c))"
    "respBuffer (answered g c) = respBuffer (place_response reply e c)"
    "maxRespSize (answered g c) = maxRespSize c" "state_of (answered g c) = SLOT_BUSY"
  using assms by (simp_all add: answered_def answer_def place_response_def upd_header_def)

lemma consume_rpc_outcome:
  assumes "consume_post (pinned (answered g c)) (h_msgSeq (header c)) (maxRespSize c) release out r s'"
    and "slot_ok c" and g: "g (h_msgType (header c)) (req_window c) = (ty, reply, e)"
    and fit: "length reply \<le> unat (maxRespSize c)"
  shows "rpc_outcome release ty reply out r s'"
proof -
  have len: "length (respBuffer (place_response reply e c)) = unat (maxRespSize c)"
    using assms(2) fit by (auto simp: slot_ok_def place_response_def)
  have w: "resp_window (h_respSize (header (place_response reply e c))) (maxRespSize c)
      (respBuffer (place_response reply e c)) = reply"
    using assms(2) fit by (intro resp_window_placed) (auto simp: slot_ok_def)
  have n: "sint (clamp_resp (h_respSize (header (place_response reply e c))) (maxRespSize c)) =
      int (length reply)"
    using sint_clamp_resp [OF len] w assms(2) by (simp add: slot_ok_def)
  have fr: "state_of s' = SLOT_FREE" if "freed \<phi> s'" for \<phi>
    using that by (auto simp: freed_def upd_header_def)
  note pin = pinned_fields [where c = "answered g c", unfolded answered_fields [of g c, OF g]]
  obtain v out' where r: "r = Ret (v, out')"
    using assms(1) by (cases r) (auto simp: consume_post_def)
  show ?thesis
  proof (cases v)
    case (Inl er)
    with r assms(1) fr pin(1,2) show ?thesis
      by (auto simp: consume_post_def rpc_outcome_def)
  next
    case (Inr n')
    with r assms(1) obtain s1 s2 s3 where "pinned (answered g c) s1" "h_msgType (header s1) \<noteq> SYSTEM_ERROR"
      "pinned (answered g c) s2" "n' = sint (clamp_resp (h_respSize (header s2)) (maxRespSize c))"
      "pinned (answered g c) s3" "out' = resp_window (h_respSize (header s2)) (maxRespSize c) (respBuffer s3)"
      and s': "if release then freed (pinned (answered g c)) s' else pinned (answered g c) s'"
      by (auto simp: consume_post_def)
    then have "ty \<noteq> SYSTEM_ERROR" "n' = int (length reply)" "out' = reply"
      using pin(2) [of s1] pin(3) [of s2] pin(4) [of s3] w n by auto
    moreover have "state_of s' = (if release then SLOT_FREE else SLOT_BUSY)"
      using s' fr pin(6) [of s'] by (auto split: if_splits)
    ultimately show ?thesis
      using r Inr by (simp add: rpc_outcome_def)
  qed
qed

lemma pinned_upd:
  assumes "pinned c s"
  shows "pinned (upd_header (h_state_update f1) c) (upd_header (h_state_update f1) s)"
    "pinned (upd_header (h_reqSize_update f2) c) (upd_header (h_reqSize_update f2) s)"
    "pinned (upd_header (h_msgType_update f3) c) (upd_header (h_msgType_update f3) s)"
    "pinned (upd_header (h_msgSeq_update f4) c) (upd_header (h_msgSeq_update f4) s)"
    "pinned (activeWait_update f5 c) (activeWait_update f5 s)"
    "pinned (msgSeq_update f6 c) (msgSeq_update f6 s)"
    "pinned c (upd_header (h_hostState_update f7) s)"
    "pinned c (upd_header (h_lease_update f8) s)"
    "pinned c (currentLimit_update f9 s)"
  using assms unfolding pinned_def by (simp_all add: core_commutes)

lemma pinned_refl: "pinned c c"
  by (simp add: pinned_def)

text \<open>A slot with a request written into it, and the slot once the request is published.\<close>

definition written :: "u32 \<times> u32 \<Rightarrow> i32 \<Rightarrow> MsgType \<Rightarrow> slot \<Rightarrow> slot" where
  "written st sz mt s = msgSeq_update (\<lambda>q. q + fst st) (upd_header (h_msgSeq_update (\<lambda>_. msgSeq s))
     (upd_header (h_msgType_update (\<lambda>_. mt)) (upd_header (h_reqSize_update (\<lambda>_. sz)) s)))"

definition armed :: "slot \<Rightarrow> slot" where
  "armed s = upd_header (h_state_update (\<lambda>_. SLOT_REQ_READY)) (activeWait_update (\<lambda>_. True) s)"

lemma t_guest_write:
  assumes "slot_rely env i (guest_rely g)" and "state_of c = SLOT_BUSY"
  shows "triple (at_slot i st (pinned c)) (write_request env i sz mt)
    (\<lambda>q. at_slot i st (\<lambda>s. pinned (written st sz mt c) s \<and> q = msgSeq c))"
proof -
  let ?c1 = "upd_header (h_reqSize_update (\<lambda>_. sz)) c"
  let ?c2 = "upd_header (h_msgType_update (\<lambda>_. mt)) ?c1"
  have own: "host_owned c" "host_owned ?c1" "host_owned ?c2"
    using assms(2) by (simp_all add: host_owned_def upd_header_def)
  show ?thesis
  proof (rule slot_rely.t_write_request [OF assms(1) stable_pinned [OF own(1)] stable_pinned [OF own(2)]
        stable_pinned [OF own(3)]])
    fix s t assume "pinned ?c2 s" "pinned ?c2 t"
    moreover have "msgSeq ?c2 = msgSeq c"
      by (simp add: upd_header_def)
    ultimately show "pinned (written st sz mt c) (msgSeq_update (\<lambda>q. q + fst st)
        (upd_header (h_msgSeq_update (\<lambda>_. msgSeq t)) s)) \<and> msgSeq t = msgSeq c"
      using pinned_fields(9) [of ?c2 t] by (simp add: written_def pinned_upd)
  qed (auto intro: pinned_upd)
qed

lemma t_guest_publish:
  assumes "slot_rely env i (guest_rely g)" and "state_of c = SLOT_BUSY"
  shows "triple (at_slot i st (pinned c)) (publish_request env i) (\<lambda>_. at_slot i st (pending g (armed c)))"
proof -
  have own: "host_owned c" "host_owned (activeWait_update (\<lambda>_. True) c)" "in_service (armed c)"
    using assms(2) by (simp_all add: host_owned_def upd_header_def in_service_def armed_def)
  show ?thesis
  proof (rule slot_rely.t_publish_request [OF assms(1) stable_pinned [OF own(1)] stable_pinned [OF own(2)]
        stable_pinned [OF own(2)] stable_pending [OF own(3)]])
    fix s assume "pinned (activeWait_update (\<lambda>_. True) c) s"
    then show "pending g (armed c) (upd_header (h_state_update (\<lambda>_. SLOT_REQ_READY)) s)"
      unfolding pending_def armed_def by (metis pinned_def pinned_upd(1))
  qed (auto intro: pinned_upd)
qed

lemma t_guest_tail:
  assumes "slot_rely env i (guest_rely g)" and "in_service c"
    and "triple (at_slot i st (pinned (answered g c))) K (\<lambda>r a. rpc_outcome release ty reply out r (slots a ! i))"
  shows "triple (at_slot i st (pending g c))
    (obind (WaitForRespReady fuel env i t) (\<lambda>ready. FinishWait env i ready \<bind> (\<lambda>_.
       if \<not> ready then ret (Ret (Inl Timeout, out)) else K)))
    (\<lambda>r a. rpc_outcome release ty reply out r (slots a ! i))"
proof (rule slot_rely.t_wait_finish [OF assms(1), where ?\<phi>1.0 = "pinned (answer g c)"
      and ?\<phi>2.0 = "pinned (upd_header (h_state_update (\<lambda>_. SLOT_BUSY)) (answer g c))"
      and \<psi> = "pinned (answered g c)"])
  show "stable (guest_rely g) (pinned (answer g c))"
    using assms(2) by (intro stable_pinned answer_host_owned) (simp add: in_service_def)
  show "stable (guest_rely g) (pinned (upd_header (h_state_update (\<lambda>_. SLOT_BUSY)) (answer g c)))"
    by (rule stable_pinned) (simp add: host_owned_def upd_header_def)
  show "pinned (answer g c) s" if p: "pending g c s" and r: "state_of s = SLOT_RESP_READY" for s
  proof -
    let ?b = "upd_header (h_state_update (\<lambda>_. SLOT_GUEST_BUSY)) c"
    have "\<not> pinned c s" "\<not> pinned ?b s"
      using r assms(2) pinned_fields(6) [of c s] pinned_fields(6) [of ?b s]
      by (auto simp: in_service_def upd_header_def)
    then show ?thesis
      using p by (auto simp: pending_def pinned_def)
  qed
  show "triple (at_slot i st (pinned (answered g c)))
      (if \<not> True then ret (Ret (Inl Timeout, out)) else K)
      (\<lambda>r a. rpc_outcome release ty reply out r (slots a ! i))"
    using assms(3) by simp
qed (auto intro!: stable_pending assms(2) triple_ret pinned_upd
      simp: pending_def answered_def rpc_outcome_def at_slot_def)

lemma t_guest_consume:
  assumes "slot_rely env i (guest_rely g)" and "slot_ok c"
    and "g (h_msgType (header c)) (req_window c) = (ty, reply, e)"
    and "length reply \<le> unat (maxRespSize c)"
  shows "triple (at_slot i st (pinned (answered g c)))
    (consume_response env i (h_msgSeq (header c)) release out)
    (\<lambda>r a. rpc_outcome release ty reply out r (slots a ! i))"
proof (rule triple_weaken [OF slot_rely.t_consume_response [OF assms(1), where \<phi> = "pinned (answered g c)"
        and mx = "maxRespSize c"]])
  note f = answered_fields [of g c, OF assms(3)]
  show "stable (guest_rely g) (pinned (answered g c))"
    by (rule stable_pinned) (simp add: host_owned_def f)
  show "length (respBuffer s) = unat (maxRespSize s) \<and> maxRespSize s = maxRespSize c"
    if "pinned (answered g c) s" for s
    using pinned_fields(4,5) [OF that] assms(2,4) by (simp add: f slot_ok_def place_response_def)
qed (auto intro!: consume_rpc_outcome [where g = g and c = c] assms)

text \<open>The bytes a request of size \<open>sz\<close> selects in the request buffer of a slot.\<close>

definition request_bytes :: "i32 \<Rightarrow> slot \<Rightarrow> byte list" where
  "request_bytes sz s = resp_window sz (maxReqSize s) (reqBuffer s)"

lemma armed_written_fields:
  "h_msgType (header (armed (written st sz mt s))) = mt"
  "req_window (armed (written st sz mt s)) = request_bytes sz s"
  "maxRespSize (armed (written st sz mt s)) = maxRespSize s"
  "slot_ok (armed (written st sz mt s)) = slot_ok s"
  "in_service (armed (written st sz mt s))"
  "h_msgSeq (header (armed (written st sz mt s))) = msgSeq s"
  "state_of (written st sz mt s) = state_of s"
  "msgSeq (armed (written st sz mt s)) = msgSeq s + fst st"
  by (simp_all add: armed_def written_def req_window_def request_bytes_def upd_header_def slot_ok_def
      in_service_def)

lemma wp_SendAcquired_remote_call:
  assumes "slot_rely env (nat slotIdx) (guest_rely g)" and "host_slot a slotIdx"
    and "nat slotIdx < length (slots a)" and s: "s = slots a ! nat slotIdx"
    and "slot_ok s" and "state_of s = SLOT_BUSY" and "absSize sz \<le> maxReqSize s"
    and "g mt (request_bytes sz s) = (ty, reply, fromEnd)" and "length reply \<le> unat (maxRespSize s)"
  shows "wp (SendAcquired fuel env slotIdx sz mt out t) (\<lambda>r b. rpc_outcome True ty reply out r (slots b ! nat slotIdx)) a"
proof -
  let ?i = "nat slotIdx" and ?st = "config a"
  let ?w = "written ?st sz mt s"
  have a: "at_slot ?i ?st (pinned s) a"
    using assms(3) s by (simp add: at_slot_def pinned_refl)
  have g: "host_slot a slotIdx = True" "(absSize sz > maxReqSize (slots a ! ?i)) = False"
    using assms(2,7) s by auto
  note f = armed_written_fields [of ?st sz mt s]
  have consume: "triple (at_slot ?i ?st (pinned (answered g (armed ?w))))
      (consume_response env ?i (msgSeq s) True out) (\<lambda>r a. rpc_outcome True ty reply out r (slots a ! ?i))"
    by (rule t_guest_consume [OF assms(1), where c = "armed ?w", unfolded f, OF assms(5,8,9)])
  have tail: "triple (at_slot ?i ?st (pinned ?w))
     (gets (\<lambda>a. effective_timeout a t) \<bind> (\<lambda>t. publish_request env ?i \<bind> (\<lambda>_.
       obind (WaitForRespReady fuel env ?i t) (\<lambda>ready. FinishWait env ?i ready \<bind> (\<lambda>_.
         if \<not> ready then ret (Ret (Inl Timeout, out)) else consume_response env ?i (msgSeq s) True out)))))
     (\<lambda>r a. rpc_outcome True ty reply out r (slots a ! ?i))"
    by (intro triple_bind [where m = "gets _" and Q = "\<lambda>_. at_slot ?i ?st (pinned ?w)"] triple_gets
        triple_bind [OF t_guest_publish [OF assms(1)]] t_guest_tail [OF assms(1)] consume f(5))
      (simp_all add: f assms(6))
  show ?thesis
    unfolding SendAcquired_eq wp_gets_bind g not_True_eq_False if_False
    by (rule triple_wp [OF triple_bind [OF t_guest_write [OF assms(1,6)]] a])
      (use tail in \<open>auto intro: triple_at_pure\<close>)
qed

text \<open>
  C9. A send on an acquired slot is a remote procedure call. For every handler \<open>g\<close> of the
  guest, every schedule of the guest and every interference that leaves the owner's
  transaction alone, \<open>SendAcquired\<close> returns exactly the bytes \<open>g\<close> computes from the bytes
  of the request and their message type, at either end of the response buffer, and frees
  the slot; it reports \<open>InternalError\<close> exactly when the guest answers \<open>SYSTEM_ERROR\<close>, and
  the only other answer is a timeout. It never reads outside a buffer and never takes the
  response for a protocol violation.
\<close>

theorem send_acquired_is_remote_call:
  assumes "slot_rely env (nat slotIdx) (guest_rely g)" and "host_slot a slotIdx"
    and "nat slotIdx < length (slots a)" and s: "s = slots a ! nat slotIdx"
    and "slot_ok s" and "state_of s = SLOT_BUSY" and "absSize sz \<le> maxReqSize s"
    and "g mt (request_bytes sz s) = (ty, reply, fromEnd)" and "length reply \<le> unat (maxRespSize s)"
  shows "case run_state (SendAcquired fuel env slotIdx sz mt out t) a of (r, b) \<Rightarrow>
      rpc_outcome True ty reply out r (slots b ! nat slotIdx)"
  using wp_SendAcquired_remote_call [OF assms] by (simp add: wp_def)

text \<open>
  C19. A held session is a sequence of remote calls on one slot. Under the same environment
  \<open>SendHeld\<close> returns exactly the guest's reply and keeps the slot at \<open>SLOT_BUSY\<close>, ready for
  the next call of the session; only an error answer of the guest releases it.
\<close>

theorem send_held_is_remote_call:
  assumes "slot_rely env (nat slotIdx) (guest_rely g)" and "host_slot a slotIdx"
    and "nat slotIdx < length (slots a)" and s: "s = slots a ! nat slotIdx"
    and "slot_ok s" and "state_of s = SLOT_BUSY" and "absSize sz \<le> maxReqSize s"
    and "g mt (request_bytes sz s) = (ty, reply, fromEnd)" and "length reply \<le> unat (maxRespSize s)"
  shows "case run_state (SendHeld fuel env slotIdx sz mt out t) a of (r, b) \<Rightarrow>
      rpc_outcome False ty reply out r (slots b ! nat slotIdx)"
proof -
  let ?i = "nat slotIdx" and ?st = "config a"
  let ?w = "written ?st sz mt s"
  have a: "at_slot ?i ?st (pinned s) a"
    using assms(3) s by (simp add: at_slot_def pinned_refl)
  have g: "host_slot a slotIdx = True" "(absSize sz > maxReqSize (slots a ! ?i)) = False"
    using assms(2,7) s by auto
  note f = armed_written_fields [of ?st sz mt s]
  have consume: "triple (at_slot ?i ?st (pinned (answered g (armed ?w))))
      (consume_response env ?i (msgSeq s) False out) (\<lambda>r a. rpc_outcome False ty reply out r (slots a ! ?i))"
    by (rule t_guest_consume [OF assms(1), where c = "armed ?w", unfolded f, OF assms(5,8,9)])
  have own: "host_owned ?w"
    using f(7) assms(6) by (simp add: host_owned_def)
  have stamp: "triple (at_slot ?i ?st (pinned ?w)) (stamp_lease env ?i) (\<lambda>_. at_slot ?i ?st (pinned ?w))"
    unfolding stamp_lease_def
    by (intro triple_bind [where m = "gets _" and Q = "\<lambda>_. at_slot ?i ?st (pinned ?w)"] triple_gets
        slot_rely.t_store [OF assms(1) stable_pinned [OF own]] pinned_upd)
  have tail: "triple (at_slot ?i ?st (pinned ?w))
     (stamp_lease env ?i \<bind> (\<lambda>_. publish_request env ?i \<bind> (\<lambda>_. gets (\<lambda>a. effective_timeout a t) \<bind> (\<lambda>t.
       obind (WaitForRespReady fuel env ?i t) (\<lambda>ready. FinishWait env ?i ready \<bind> (\<lambda>_.
         if \<not> ready then ret (Ret (Inl Timeout, out)) else consume_response env ?i (msgSeq s) False out))))))
     (\<lambda>r a. rpc_outcome False ty reply out r (slots a ! ?i))"
    by (intro triple_bind [OF stamp] triple_bind [OF t_guest_publish [OF assms(1)]]
        triple_bind [where m = "gets _" and Q = "\<lambda>_. at_slot ?i ?st (pending g (armed ?w))"] triple_gets
        t_guest_tail [OF assms(1)] consume f(5)) (simp_all add: f assms(6))
  have "wp (SendHeld fuel env slotIdx sz mt out t) (\<lambda>r b. rpc_outcome False ty reply out r (slots b ! ?i)) a"
    unfolding SendHeld_def Let_def wp_gets_bind g not_True_eq_False if_False
    by (rule triple_wp [OF triple_bind [OF t_guest_write [OF assms(1,6)]] a])
      (use tail in \<open>auto intro: triple_at_pure\<close>)
  then show ?thesis
    by (simp add: wp_def)
qed


lemma t_guest_wait:
  assumes "slot_rely env i (guest_rely g)" and "in_service c" and "slot_ok c"
    and "g (h_msgType (header c)) (req_window c) = (ty, reply, e)"
    and "length reply \<le> unat (maxRespSize c)" and "msgSeq c = h_msgSeq (header c) + fst st"
  shows "triple (at_slot i st (pending g c))
      (store env i (activeWait_update (\<lambda>_. True)) \<bind> (\<lambda>_.
       store env i (upd_header (h_hostState_update (\<lambda>_. HOST_STATE_ACTIVE))) \<bind> (\<lambda>_.
       obind (WaitForRespReady fuel env i t) (\<lambda>ready. FinishWait env i ready \<bind> (\<lambda>_.
         if \<not> ready then ret (Ret (Inl Timeout, out))
         else own i msgSeq \<bind> (\<lambda>sq. gets msgSeqStride \<bind> (\<lambda>stride.
           consume_response env i (sq - stride) True out)))))))
      (\<lambda>r a. rpc_outcome True ty reply out r (slots a ! i))"
proof -
  have aw: "pending g c (activeWait_update (\<lambda>_. True) s)" if p: "pending g c s" for s
  proof -
    have "activeWait (answer g c)" "activeWait (upd_header f c)" "activeWait c" for f
      using assms(2) by (auto simp: in_service_def answer_def place_response_def upd_header_def
          split: prod.splits)
    then have "activeWait s"
      using p unfolding pending_def by (metis core_fields(11))
    then have "activeWait_update (\<lambda>_. True) s = s"
      by (cases s) simp
    then show ?thesis using p by simp
  qed
  have "wp (own i msgSeq \<bind> (\<lambda>sq. gets msgSeqStride \<bind> (\<lambda>stride.
      consume_response env i (sq - stride) True out)))
      (\<lambda>r a. rpc_outcome True ty reply out r (slots a ! i)) b"
    if b: "at_slot i st (pinned (answered g c)) b" for b
  proof -
    have "msgSeq (slots b ! i) = msgSeq c" "msgSeqStride b = fst st"
      using b pinned_fields(9) [of "answered g c" "slots b ! i"]
      by (auto simp: at_slot_def answered_def answer_def place_response_def upd_header_def
          split: prod.splits)
    then show ?thesis
      using triple_wp [OF t_guest_consume [OF assms(1,3-5)] b] assms(6)
      by (simp add: wp_gets_bind)
  qed
  then have K: "triple (at_slot i st (pinned (answered g c)))
      (own i msgSeq \<bind> (\<lambda>sq. gets msgSeqStride \<bind> (\<lambda>stride. consume_response env i (sq - stride) True out)))
      (\<lambda>r a. rpc_outcome True ty reply out r (slots a ! i))"
    by (simp add: triple_def)
  note st = stable_pending [OF assms(2)]
  show ?thesis
    by (rule triple_bind [OF slot_rely.t_store [OF assms(1) st]], erule aw,
        rule triple_bind [OF slot_rely.t_store [OF assms(1) st, where \<psi> = "pending g c"]],
        simp add: pending_def, rule t_guest_tail [OF assms(1,2) K])
qed

text \<open>
  C20. Fire now, collect later. \<open>SendAcquiredAsync\<close> succeeds and leaves the request in
  service, and \<open>WaitForSlot\<close> on that slot, any time later, returns exactly what the blocking
  send would: the guest's reply to the request, with the slot freed.
\<close>

theorem async_send_then_wait_is_remote_call:
  assumes "slot_rely env (nat slotIdx) (guest_rely g)" and "host_slot a slotIdx"
    and "nat slotIdx < length (slots a)" and s: "s = slots a ! nat slotIdx"
    and "slot_ok s" and "state_of s = SLOT_BUSY" and "absSize sz \<le> maxReqSize s"
    and "g mt (request_bytes sz s) = (ty, reply, fromEnd)" and "length reply \<le> unat (maxRespSize s)"
  shows "case run_state (SendAcquiredAsync env slotIdx sz mt) a of (v, b) \<Rightarrow>
      v = Success \<and> (case run_state (WaitForSlot fuel env slotIdx out t) b of (r, c) \<Rightarrow>
        rpc_outcome True ty reply out r (slots c ! nat slotIdx))"
proof -
  let ?i = "nat slotIdx" and ?st = "config a"
  let ?w = "written ?st sz mt s"
  have a: "at_slot ?i ?st (pinned s) a"
    using assms(3) s by (simp add: at_slot_def pinned_refl)
  have g: "host_slot a slotIdx = True" "(absSize sz > maxReqSize (slots a ! ?i)) = False"
    using assms(2,7) s by auto
  note f = armed_written_fields [of ?st sz mt s]
  have "wp (SendAcquiredAsync env slotIdx sz mt)
      (\<lambda>v b. v = Success \<and> at_slot ?i ?st (pending g (armed ?w)) b) a"
    unfolding SendAcquiredAsync_def Let_def wp_gets_bind g not_True_eq_False if_False
    by (rule triple_wp [OF triple_bind [OF t_guest_write [OF assms(1,6)]] a])
      (auto intro!: triple_at_pure triple_bind [OF t_guest_publish [OF assms(1)]] triple_ret
        simp: f assms(6))
  moreover have "wp (WaitForSlot fuel env slotIdx out t)
      (\<lambda>r b. rpc_outcome True ty reply out r (slots b ! ?i)) b"
    if b: "at_slot ?i ?st (pending g (armed ?w)) b" for b
  proof -
    have h: "host_slot b slotIdx = True"
      using b assms(2) by (auto simp: at_slot_def host_slot_def)
    show ?thesis
      unfolding WaitForSlot_def Let_def wp_gets_bind h not_True_eq_False if_False
      by (rule triple_wp [OF t_guest_wait [OF assms(1) f(5)] b]) (simp_all add: f assms(5,8,9))
  qed
  ultimately show ?thesis
    unfolding wp_def by (cases "run_state (SendAcquiredAsync env slotIdx sz mt) a") simp
qed

section \<open>Environments\<close>

text \<open>
  The interface is met by a guest that serves every slot as soon as a request is in
  service, by a peer that overwrites the response header and buffer at every moment, and by
  no interference at all.
\<close>

definition serve :: "handler \<Rightarrow> slot \<Rightarrow> slot" where
  "serve g s = (if in_service s then answer g s else s)"

definition guest_env :: "handler \<Rightarrow> env" where
  "guest_env g = \<lparr>interference = (\<lambda>k ms. slots_update (map (serve g))),
     steadyNs = (\<lambda>k. k * 1000000), wallNs = word_of_nat\<rparr>"

definition spoil :: "slot \<Rightarrow> slot" where
  "spoil s = upd_header (\<lambda>h. h\<lparr>h_state := SLOT_RESP_READY, h_respSize := 0x80000000,
     h_msgSeq := h_msgSeq h XOR 1\<rparr>) (s\<lparr>respBuffer := map (\<lambda>_. 0xFF) (respBuffer s)\<rparr>)"

definition hostile_env :: env where
  "hostile_env = (guest_env (\<lambda>mt req. (mt, [], False)))\<lparr>interference := (\<lambda>k ms. slots_update (map spoil))\<rparr>"

definition quiet_env :: env where
  "quiet_env = \<lparr>interference = (\<lambda>k ms a. a), steadyNs = (\<lambda>k. k * 1000000), wallNs = word_of_nat\<rparr>"

interpretation prompt: slot_rely "guest_env g" i "guest_rely g" for g i
  by unfold_locales
    (auto simp: guest_env_def guest_rely_def serve_def host_owned_def in_service_def)

interpretation hostile: slot_rely hostile_env i shape_rely for i
  by unfold_locales (auto simp: hostile_env_def guest_env_def shape_rely_def slot_ok_def spoil_def upd_header_def)

interpretation quiet: slot_rely quiet_env i "(=)" for i
  by unfold_locales (auto simp: quiet_env_def)

definition demo_slot :: slot where
  "demo_slot = \<lparr>header = \<lparr>h_state = SLOT_BUSY, h_hostState = HOST_STATE_ACTIVE,
       h_guestState = GUEST_STATE_ACTIVE, h_msgSeq = 0, h_msgType = NORMAL, h_reqSize = 0,
       h_respSize = 0, h_lease = 5, h_gen = 1\<rparr>,
     reqBuffer = [1, 2, 3, 0], respBuffer = [0, 0, 0, 0], hReqEvent = Some ''req'',
     hRespEvent = Some ''resp'', maxReqSize = 4, maxRespSize = 4, currentLimit = kMaxSpin,
     msgSeq = 7, activeWait = False\<rparr>"

definition demo_alloc :: alloc where
  "demo_alloc = \<lparr>slots = [demo_slot], nextSlot = 0, numSlots = 1, numGuestSlots = 0,
     msgSeqStride = 1, responseTimeoutMs = 10000, autoReclaimTimeoutNs = 0, running = True,
     cachedSlotIdx = 0xFFFFFFFF, events = (\<lambda>_. False), tick = 0\<rparr>"

definition demo_handler :: handler where
  "demo_handler mt req = (mt, rev req, True)"

lemma demo_simps [simp]:
  "host_slot demo_alloc 0" "length (slots demo_alloc) = 1" "slots demo_alloc ! 0 = demo_slot"
  "slot_ok demo_slot" "state_of demo_slot = SLOT_BUSY" "maxReqSize demo_slot = 4"
  "maxRespSize demo_slot = 4" "absSize 3 = 3"
  by (simp_all add: host_slot_def demo_alloc_def demo_slot_def slot_ok_def absSize_def sless_0)

lemma demo_request [simp]: "request_bytes 3 demo_slot = [1, 2, 3]"
  by code_simp

theorem send_paths_safe_against_any_peer_witness:
  "(case run_state (SendAcquired 5 hostile_env 0 3 NORMAL [9] 100) demo_alloc of (r, b) \<Rightarrow>
      send_outcome True 4 [9] r (slots b ! 0)) \<and>
   (case run_state (SendHeld 5 hostile_env 0 3 NORMAL [9] 100) demo_alloc of (r, b) \<Rightarrow>
      send_outcome False 4 [9] r (slots b ! 0)) \<and>
   (case run_state (WaitForSlot 5 hostile_env 0 [9] 100) demo_alloc of (r, b) \<Rightarrow>
      send_outcome True 4 [9] r (slots b ! 0))"
  using send_paths_safe_against_any_peer [of hostile_env 0 demo_alloc 3, where fuel = 5 and
      mt = NORMAL and out = "[9]" and t = 100]
    hostile.slot_rely_axioms by simp


theorem send_acquired_is_remote_call_witness:
  "case run_state (SendAcquired 5 (guest_env demo_handler) 0 3 NORMAL [] 100) demo_alloc of (r, b) \<Rightarrow>
     rpc_outcome True NORMAL [3, 2, 1] [] r (slots b ! 0)"
  using send_acquired_is_remote_call [of "guest_env demo_handler" 0 demo_handler demo_alloc demo_slot 3
      NORMAL NORMAL "[3, 2, 1]" True, where fuel = 5 and out = "[]" and t = 100] prompt.slot_rely_axioms
  by (simp add: demo_handler_def)

theorem send_held_is_remote_call_witness:
  "case run_state (SendHeld 5 (guest_env demo_handler) 0 3 NORMAL [] 100) demo_alloc of (r, b) \<Rightarrow>
     rpc_outcome False NORMAL [3, 2, 1] [] r (slots b ! 0)"
  using send_held_is_remote_call [of "guest_env demo_handler" 0 demo_handler demo_alloc demo_slot 3
      NORMAL NORMAL "[3, 2, 1]" True, where fuel = 5 and out = "[]" and t = 100] prompt.slot_rely_axioms
  by (simp add: demo_handler_def)

theorem async_send_then_wait_is_remote_call_witness:
  "case run_state (SendAcquiredAsync (guest_env demo_handler) 0 3 NORMAL) demo_alloc of (v, b) \<Rightarrow>
     v = Success \<and> (case run_state (WaitForSlot 5 (guest_env demo_handler) 0 [] 100) b of (r, c) \<Rightarrow>
       rpc_outcome True NORMAL [3, 2, 1] [] r (slots c ! 0))"
  using async_send_then_wait_is_remote_call [of "guest_env demo_handler" 0 demo_handler demo_alloc
      demo_slot 3 NORMAL NORMAL "[3, 2, 1]" True, where fuel = 5 and out = "[]" and t = 100] prompt.slot_rely_axioms
  by (simp add: demo_handler_def)

end
