(* ===== verification/Shm_Slot_Claim.thy ===== *)
theory Shm_Slot_Claim
  imports Shm_Slot_Send
begin

text \<open>
  Claiming, acquiring and reclaiming slots, \<open>src/include/shm/SlotAllocator.h\<close>, by a thread
  that is not interfered with: what each operation returns and exactly what it changes.
  The interleavings of several claimers are the subject of \<open>Shm_Claim_Race\<close>.
\<close>

section \<open>Undisturbed runs\<close>

definition solo :: "env \<Rightarrow> bool" where
  "solo env = (interference env = (\<lambda>k ms a. a))"

text \<open>Two allocators that differ only in the access counter.\<close>

definition same :: "alloc \<Rightarrow> alloc \<Rightarrow> bool" where
  "same a b = (b = a\<lparr>tick := tick b\<rparr>)"

lemma poll_solo: "solo env \<Longrightarrow> poll env ms a = a\<lparr>tick := Suc (tick a)\<rparr>"
  by (simp add: poll_def solo_def)

lemma same_refl [simp]: "same a a"
  by (simp add: same_def)

lemma same_tick [simp]: "same a (b\<lparr>tick := k\<rparr>) = same a b" "same (a\<lparr>tick := k\<rparr>) b = same a b"
  by (cases a; cases b; simp add: same_def)+

lemma same_trans: "same a b \<Longrightarrow> same b c \<Longrightarrow> same a c"
  by (cases a; cases b; cases c; simp add: same_def)

lemma same_fields:
  assumes "same a b"
  shows "slots b = slots a" "numSlots b = numSlots a" "numGuestSlots b = numGuestSlots a"
    "running b = running a" "autoReclaimTimeoutNs b = autoReclaimTimeoutNs a"
    "nextSlot b = nextSlot a" "cachedSlotIdx b = cachedSlotIdx a" "msgSeqStride b = msgSeqStride a"
    "events b = events a" "responseTimeoutMs b = responseTimeoutMs a"
  using assms by (cases a; cases b; simp add: same_def)+

lemma same_upd: "same a b \<Longrightarrow> same (upd_slot i f a) (upd_slot i f b)"
  by (cases a; cases b; simp add: same_def upd_slot_def)

section \<open>Claiming one slot\<close>

definition claimable :: "slot \<Rightarrow> bool" where
  "claimable s = (state_of s = SLOT_FREE \<or> stealable (state_of s) \<and> \<not> activeWait s)"

definition claimed :: "u64 \<Rightarrow> slot \<Rightarrow> slot" where
  "claimed now s = upd_header (\<lambda>h. h\<lparr>h_state := SLOT_BUSY, h_gen := h_gen h + 1, h_lease := now\<rparr>) s"

lemma claimed_free:
  "(upd_header (h_lease_update (\<lambda>_. now)) \<circ> (upd_header (h_state_update (\<lambda>_. SLOT_BUSY)) \<circ>
    upd_header (h_gen_update (\<lambda>g. g + 1)))) = claimed now"
proof
  fix s
  show "(upd_header (h_lease_update (\<lambda>_. now)) \<circ> (upd_header (h_state_update (\<lambda>_. SLOT_BUSY)) \<circ>
    upd_header (h_gen_update (\<lambda>g. g + 1)))) s = claimed now s"
    by (cases "header s") (simp add: claimed_def upd_header_def)
qed

lemma claimed_steal:
  "upd_slot i (upd_header (h_lease_update (\<lambda>_. now)) \<circ> (upd_header (h_state_update (\<lambda>_. SLOT_BUSY)) \<circ>
    upd_header (h_gen_update (\<lambda>_. h_gen (header (slots a ! i)) + 1)))) a = upd_slot i (claimed now) a"
  by (cases "header (slots a ! i)") (simp add: claimed_def upd_header_def upd_slot_def)

lemma upd_slot_twice: "upd_slot i f (upd_slot i g a) = upd_slot i (f \<circ> g) a"
  by (cases "i < length (slots a)") (simp_all add: upd_slot_def list_update_beyond)

lemma upd_slot_tick: "upd_slot i f (a\<lparr>tick := k\<rparr>) = (upd_slot i f a)\<lparr>tick := k\<rparr>"
  by (simp add: upd_slot_def)

lemma slots_upd_slot [simp]: "slots (upd_slot i f a) = (slots a)[i := f (slots a ! i)]"
  by (simp add: upd_slot_def)

text \<open>The outcome of an undisturbed claim: the slot is taken exactly when it is claimable.\<close>

lemma run_tryClaimSlot:
  assumes "solo env" and "i < length (slots a)"
  shows "\<exists>t k. run_state (tryClaimSlot env i) a = (claimable (slots a ! i),
    (if claimable (slots a ! i) then upd_slot i (claimed (wallNs env t)) a else a)\<lparr>tick := k\<rparr>) \<and>
    tick a \<le> t \<and> t \<le> k"
proof -
  let ?s = "slots a ! i"
  note run = tryClaimSlot_def load_def store_def cas_state_def cas_gen_def stamp_lease_def
      poll_solo [OF assms(1)] Let_def upd_slot_tick upd_slot_twice claimed_free claimed_steal
  consider "state_of ?s = SLOT_FREE" | "stealable (state_of ?s)" "\<not> activeWait ?s"
    | "\<not> claimable ?s" by (auto simp: claimable_def)
  then show ?thesis
  proof cases
    case 1
    then have "run_state (tryClaimSlot env i) a =
        (True, (upd_slot i (claimed (wallNs env (Suc (Suc (Suc (Suc (tick a))))))) a)
           \<lparr>tick := Suc (Suc (Suc (Suc (Suc (tick a)))))\<rparr>)"
      using assms(2) by (simp add: run upd_header_def)
    then show ?thesis
      using 1 by (intro exI [of _ "tick a + 4"] exI [of _ "tick a + 5"])
        (simp add: claimable_def eval_nat_numeral)
  next
    case 2
    then have "run_state (tryClaimSlot env i) a =
        (True, (upd_slot i (claimed (wallNs env (Suc (Suc (Suc (Suc (Suc (tick a)))))))) a)
           \<lparr>tick := Suc (Suc (Suc (Suc (Suc (Suc (tick a))))))\<rparr>)"
      using assms(2) by (auto simp: run upd_header_def stealable_def)
    then show ?thesis
      using 2 by (intro exI [of _ "tick a + 5"] exI [of _ "tick a + 6"])
        (simp add: claimable_def eval_nat_numeral)
  next
    case 3
    then have "run_state (tryClaimSlot env i) a = (False, a\<lparr>tick :=
        tick a + (if stealable (state_of ?s) then 3 else 2)\<rparr>)"
      using assms(2) by (auto simp: run claimable_def eval_nat_numeral)
    then show ?thesis
      using 3 by (intro exI [of _ "tick a"]
          exI [of _ "tick a + (if stealable (state_of ?s) then 3 else 2)"]) simp
  qed
qed

section \<open>The non-blocking sweep\<close>

definition alloc_ok :: "alloc \<Rightarrow> bool" where
  "alloc_ok a = (length (slots a) = unat (numSlots a) + unat (numGuestSlots a) \<and>
     length (slots a) < 2 ^ 31)"

text \<open>The slot the \<open>m\<close>-th probe of a sweep looks at.\<close>

definition probe :: "u32 \<Rightarrow> nat \<Rightarrow> alloc \<Rightarrow> nat" where
  "probe start m a = (unat start + m) mod unat (numSlots a)"

definition claims :: "env \<Rightarrow> alloc \<Rightarrow> nat option \<Rightarrow> alloc \<Rightarrow> bool" where
  "claims env a j b = (\<exists>t k. b = (case j of None \<Rightarrow> a
     | Some i \<Rightarrow> upd_slot i (claimed (wallNs env t)) a)\<lparr>tick := k\<rparr>)"

lemma claims_tick: "claims env (a\<lparr>tick := k\<rparr>) j b = claims env a j b"
  by (cases j) (simp_all add: claims_def upd_slot_tick)

lemma unat_probe:
  fixes start n nt :: u32
  assumes "unat start < unat nt" and "unat n < unat nt" and "unat nt < 2 ^ 31"
  shows "unat ((start + n) mod nt) = (unat start + unat n) mod unat nt"
  using assms by (simp add: unat_mod unat_plus_if')

lemma alloc_ok_numSlots: "alloc_ok a \<Longrightarrow> unat (numSlots a) < 2 ^ 31 \<and> unat (numSlots a) \<le> length (slots a)"
  by (simp add: alloc_ok_def)

lemma run_try_sweep:
  assumes "solo env" and "alloc_ok a" and "unat start < unat (numSlots a)"
    and "unat n + k \<le> unat (numSlots a)"
  shows "\<exists>r b. run_state (try_sweep k env start n) a = (r, b) \<and>
    (case find (\<lambda>m. claimable (slots a ! probe start m a)) [unat n..<unat n + k] of
       None \<Rightarrow> r = - 1 \<and> claims env a None b
     | Some m \<Rightarrow> r = int (probe start m a) \<and> claims env a (Some (probe start m a)) b)"
  using assms
proof (induction k arbitrary: n a)
  case 0
  show ?case
    by (auto simp: claims_def intro!: exI [of _ "tick a"])
next
  case (Suc k)
  let ?idx = "(start + n) mod numSlots a" and ?i = "probe start (unat n) a"
  have lt: "?i < unat (numSlots a)"
    using Suc.prems(3) by (simp add: probe_def)
  moreover have "?i < length (slots a)"
    using lt alloc_ok_numSlots [OF Suc.prems(2)] less_le_trans by blast
  moreover have "unat ?idx = ?i"
    using unat_probe [OF Suc.prems(3), of n] Suc.prems alloc_ok_numSlots [OF Suc.prems(2)]
    by (simp add: probe_def)
  ultimately have i: "unat ?idx = ?i" "?i < unat (numSlots a)" "?i < length (slots a)"
    by simp_all
  then have sint: "sint ?idx = int ?i"
    using alloc_ok_numSlots [OF Suc.prems(2)] by (subst sint_small) (simp_all add: word_less_nat_alt)
  have upt: "[unat n..<unat n + Suc k] = unat n # [Suc (unat n)..<Suc (unat n) + k]"
    by (simp add: upt_conv_Cons)
  obtain t kk where run: "run_state (tryClaimSlot env ?i) a = (claimable (slots a ! ?i),
      (if claimable (slots a ! ?i) then upd_slot ?i (claimed (wallNs env t)) a else a)\<lparr>tick := kk\<rparr>)"
    using run_tryClaimSlot [OF Suc.prems(1) i(3)] by blast
  show ?case
  proof (cases "claimable (slots a ! ?i)")
    case True
    then show ?thesis
      using run sint i(1) unfolding upt by (auto simp: Let_def claims_def)
  next
    case False
    have n1: "unat (n + 1) = Suc (unat n)"
      using Suc.prems(4) alloc_ok_numSlots [OF Suc.prems(2)] by (simp add: unat_plus_if')
    have "\<exists>r b. run_state (try_sweep k env start (n + 1)) (a\<lparr>tick := kk\<rparr>) = (r, b) \<and>
      (case find (\<lambda>m. claimable (slots a ! probe start m a)) [Suc (unat n)..<Suc (unat n) + k] of
         None \<Rightarrow> r = - 1 \<and> claims env a None b
       | Some m \<Rightarrow> r = int (probe start m a) \<and> claims env a (Some (probe start m a)) b)"
      using Suc.IH [of "a\<lparr>tick := kk\<rparr>" "n + 1"] Suc.prems n1
      by (simp add: alloc_ok_def probe_def claims_tick cong: option.case_cong)
    then show ?thesis
      using False run i(1) unfolding upt by (simp add: Let_def)
  qed
qed

text \<open>
  C27. \<open>TryAcquireSlot\<close> is a complete search. Undisturbed, on a running host it returns a
  host slot that is free or an abandoned zombie, marked \<open>SLOT_BUSY\<close> with the next generation
  and a fresh lease and with nothing else changed; it returns \<open>-1\<close> only when no host slot
  is claimable, and then no slot has changed. The search covers all host slots from any
  starting point of the round-robin counter, wrapped or not.
\<close>

theorem try_acquire_complete:
  assumes "solo env" and "alloc_ok a" and "running a" and "numSlots a \<noteq> 0"
  shows "\<exists>r b. run_state (TryAcquireSlot env) a = (r, b) \<and>
    (if \<exists>i < unat (numSlots a). claimable (slots a ! i)
     then \<exists>i now. r = int i \<and> i < unat (numSlots a) \<and> claimable (slots a ! i) \<and>
       slots b = (slots a)[i := claimed now (slots a ! i)]
     else r = - 1 \<and> slots b = slots a)"
proof -
  let ?n = "unat (numSlots a)" and ?start = "nextSlot a mod numSlots a"
  let ?a = "a\<lparr>tick := Suc (tick a), nextSlot := nextSlot a + 1\<rparr>"
  have pos: "0 < ?n"
    using assms(4) by (simp add: unat_gt_0)
  obtain r b where run: "run_state (try_sweep ?n env ?start 0) ?a = (r, b)"
    and res: "case find (\<lambda>m. claimable (slots ?a ! probe ?start m ?a)) [unat (0 :: u32)..<unat (0 :: u32) + ?n] of
       None \<Rightarrow> r = - 1 \<and> claims env ?a None b
     | Some m \<Rightarrow> r = int (probe ?start m ?a) \<and> claims env ?a (Some (probe ?start m ?a)) b"
    using run_try_sweep [OF assms(1), of ?a ?start 0 ?n] assms(2) pos
    by (auto simp: alloc_ok_def unat_mod)
  have eq: "run_state (TryAcquireSlot env) a = (r, b)"
    using run assms(1,3,4) by (simp add: TryAcquireSlot_def fetch_next_def poll_solo Let_def)
  have surj: "\<exists>m < ?n. probe ?start m a = i" if "i < ?n" for i
  proof -
    have s: "unat ?start < ?n"
      using pos by (simp add: unat_mod)
    show ?thesis
      by (rule exI [of _ "(i + (?n - unat ?start)) mod ?n"])
        (use that s pos in \<open>simp add: probe_def mod_add_right_eq\<close>)
  qed
  have pr: "probe ?start m ?a = probe ?start m a" for m
    by (simp add: probe_def)
  show ?thesis
  proof (cases "find (\<lambda>m. claimable (slots a ! probe ?start m a)) [0..<?n]")
    case None
    then have "\<not> (\<exists>i < ?n. claimable (slots a ! i))"
      using surj by (auto simp: find_None_iff)
    then show ?thesis
      using None res eq by (simp add: pr claims_def) auto
  next
    case (Some m)
    then have m: "m < ?n" "claimable (slots a ! probe ?start m a)"
      by (auto simp: find_Some_iff)
    have lt: "probe ?start m a < ?n"
      using pos by (simp add: probe_def)
    have "\<exists>now. slots b = (slots a)[probe ?start m a := claimed now (slots a ! probe ?start m a)]"
      using res Some by (auto simp: pr claims_def)
    then show ?thesis
      using m lt eq res Some by (auto simp: pr)
  qed
qed

section \<open>Reclaiming\<close>

definition abandoned :: "u64 \<Rightarrow> u64 \<Rightarrow> slot \<Rightarrow> bool" where
  "abandoned now maxAge s = (state_of s \<noteq> SLOT_FREE \<and> h_lease (header s) \<noteq> 0 \<and>
     lease_stale now (h_lease (header s)) maxAge)"

definition reclaimed :: "slot \<Rightarrow> slot" where
  "reclaimed s = upd_header (\<lambda>h. h\<lparr>h_state := SLOT_FREE, h_gen := h_gen h + 1\<rparr>) s"

lemma lease_stale_iff: "lease_stale now lease age \<longleftrightarrow> unat lease + unat age < unat now"
proof (cases "now \<le> lease")
  case True
  then show ?thesis by (simp add: lease_stale_def word_le_nat_alt)
next
  case False
  then have "unat (now - lease) = unat now - unat lease" "unat lease < unat now"
    by (simp_all add: unat_sub word_le_nat_alt)
  then show ?thesis
    using False by (auto simp: lease_stale_def word_le_nat_alt)
qed

text \<open>The time the staleness test uses is read after the loads of the generation, the state and the lease.\<close>

abbreviation lease_check_time :: "env \<Rightarrow> alloc \<Rightarrow> u64" where
  "lease_check_time env a \<equiv> wallNs env (tick a + 3)"

lemma run_TryReclaimAbandonedSlot:
  assumes "solo env" and "alloc_ok a" and "i < length (slots a)"
  shows "\<exists>k. run_state (TryReclaimAbandonedSlot env (int i) age) a =
    (abandoned (lease_check_time env a) age (slots a ! i),
     (if abandoned (lease_check_time env a) age (slots a ! i) then upd_slot i reclaimed a else a)\<lparr>tick := k\<rparr>)"
proof -
  let ?s = "slots a ! i" and ?now = "lease_check_time env a"
  have "unat (numSlots a + numGuestSlots a) = length (slots a)" "length (slots a) < 2 ^ 31"
    using assms(2) by (simp_all add: alloc_ok_def unat_plus_if')
  then have sz: "sint (numSlots a + numGuestSlots a) = int (length (slots a))"
    by (subst sint_small) (simp_all add: word_less_nat_alt)
  have rec: "upd_slot i (upd_header (h_state_update (\<lambda>_. SLOT_FREE)) \<circ>
      upd_header (h_gen_update (\<lambda>_. h_gen (header ?s) + 1))) a = upd_slot i reclaimed a"
    by (cases "header ?s") (simp add: upd_slot_def upd_header_def reclaimed_def)
  note run = TryReclaimAbandonedSlot_def load_def cas_state_def cas_gen_def poll_solo [OF assms(1)]
    Let_def upd_slot_tick upd_slot_twice sz rec numeral_3_eq_3
  show ?thesis
  proof (cases "abandoned ?now age ?s")
    case True
    then show ?thesis
      using assms(3) by (auto simp: run abandoned_def upd_header_def)
  next
    case False
    then show ?thesis
      using assms(3) by (auto simp: run abandoned_def)
  qed
qed

text \<open>What automatic reclamation may do to a slot.\<close>

definition may_reclaim :: "u64 \<Rightarrow> slot \<Rightarrow> slot \<Rightarrow> bool" where
  "may_reclaim age s s' = (s' = s \<or> (0 < age \<and> (\<exists>now. abandoned now age s) \<and> s' = reclaimed s))"

definition swept :: "u64 \<Rightarrow> alloc \<Rightarrow> alloc \<Rightarrow> bool" where
  "swept age a b = (list_all2 (may_reclaim age) (slots a) (slots b) \<and>
     numSlots b = numSlots a \<and> numGuestSlots b = numGuestSlots a \<and>
     autoReclaimTimeoutNs b = autoReclaimTimeoutNs a)"

lemma may_reclaim_refl [simp]: "may_reclaim age s s"
  by (simp add: may_reclaim_def)

lemma may_reclaim_trans: "may_reclaim age s t \<Longrightarrow> may_reclaim age t u \<Longrightarrow> may_reclaim age s u"
  by (auto simp: may_reclaim_def abandoned_def reclaimed_def upd_header_def)

lemma may_reclaim_claimable: "may_reclaim age s t \<Longrightarrow> claimable s \<Longrightarrow> claimable t"
  by (auto simp: may_reclaim_def claimable_def reclaimed_def upd_header_def)

lemma swept_refl [simp]: "swept age a (a\<lparr>tick := k\<rparr>)"
  by (simp add: swept_def list.rel_refl)

lemma swept_trans: "swept age a b \<Longrightarrow> swept age b c \<Longrightarrow> swept age a c"
  using list_all2_trans [of "may_reclaim age" "may_reclaim age" "may_reclaim age" "slots a" "slots b" "slots c"]
    may_reclaim_trans by (auto simp: swept_def)

lemma swept_alloc_ok: "swept age a b \<Longrightarrow> alloc_ok a \<Longrightarrow> alloc_ok b"
  by (auto simp: swept_def alloc_ok_def dest: list_all2_lengthD)

lemma swept_nth:
  "swept age a b \<Longrightarrow> i < length (slots a) \<Longrightarrow> may_reclaim age (slots a ! i) (slots b ! i)"
  by (simp add: swept_def list_all2_nthD)

lemma swept_reclaim:
  assumes "0 < age" and "abandoned now age (slots a ! i)"
  shows "swept age a ((upd_slot i reclaimed a)\<lparr>tick := k\<rparr>)"
proof -
  have "may_reclaim age (slots a ! j) ((slots a)[i := reclaimed (slots a ! i)] ! j)"
    if "j < length (slots a)" for j
    using that assms by (cases "i = j") (auto simp: may_reclaim_def)
  then show ?thesis
    by (simp add: swept_def list_all2_conv_all_nth upd_slot_def)
qed

lemma run_reclaim_sweep:
  assumes "solo env" and "alloc_ok a" and "0 < age" and "unat i + k \<le> unat (numSlots a)"
  shows "swept age a (snd (run_state (reclaim_sweep k env i age) a))"
  using assms
proof (induction k arbitrary: i a)
  case 0
  show ?case using swept_refl [of age a "tick a"] by simp
next
  case (Suc k)
  have i: "unat i < length (slots a)" "i < 2 ^ 31" "unat (i + 1) = Suc (unat i)"
    using Suc.prems alloc_ok_numSlots [OF Suc.prems(2)]
    by (auto simp: unat_plus_if' word_less_nat_alt)
  obtain kk where run: "run_state (TryReclaimAbandonedSlot env (int (unat i)) age) a =
    (abandoned (lease_check_time env a) age (slots a ! unat i),
     (if abandoned (lease_check_time env a) age (slots a ! unat i) then upd_slot (unat i) reclaimed a else a)\<lparr>tick := kk\<rparr>)"
      (is "_ = (_, ?b)")
    using run_TryReclaimAbandonedSlot [OF Suc.prems(1,2) i(1)] by blast
  have s: "swept age a ?b"
    using Suc.prems(3) by (auto intro: swept_reclaim)
  then have "swept age ?b (snd (run_state (reclaim_sweep k env (i + 1) age) ?b))"
    using Suc.IH [of ?b "i + 1"] swept_alloc_ok [OF s Suc.prems(2)] Suc.prems i(3)
    by (simp add: swept_def)
  then show ?case
    using swept_trans [OF s] run by (simp add: sint_small [OF i(2)])
qed

section \<open>The blocking acquisition\<close>

text \<open>The number of probes between two positions of the cyclic search.\<close>

definition probes :: "nat \<Rightarrow> nat \<Rightarrow> nat \<Rightarrow> nat" where
  "probes n i j = (if i \<le> j then j - i else n - i + j)"

text \<open>The result of an acquisition: one slot claimed, the others at most reclaimed.\<close>

definition acquired :: "alloc \<Rightarrow> nat \<Rightarrow> alloc \<Rightarrow> bool" where
  "acquired a i b = (i < unat (numSlots a) \<and>
     (\<exists>now s. may_reclaim (autoReclaimTimeoutNs a) (slots a ! i) s \<and> claimable s \<and>
        slots b ! i = claimed now s) \<and>
     length (slots b) = length (slots a) \<and>
     (\<forall>j < length (slots a). j \<noteq> i \<longrightarrow> may_reclaim (autoReclaimTimeoutNs a) (slots a ! j) (slots b ! j)))"

lemma acquired_claim:
  assumes "swept (autoReclaimTimeoutNs a) a c" and "i < unat (numSlots a)" and "alloc_ok a"
    and "claimable (slots c ! i)" and "slots b = (slots c)[i := claimed now (slots c ! i)]"
  shows "acquired a i b"
  using assms swept_nth [OF assms(1)] alloc_ok_numSlots [OF assms(3)]
  by (auto simp: acquired_def swept_def dest: list_all2_lengthD) (metis less_le_trans list_all2_lengthD nth_list_update_eq)

text \<open>What the end of a round does: an optional sweep, after which a claimable slot is still claimable.\<close>

definition round_end :: "env \<Rightarrow> alloc \<Rightarrow> alloc" where
  "round_end env a = (if 0 < autoReclaimTimeoutNs a
     then snd (run_state (reclaim_sweep (unat (numSlots a)) env 0 (autoReclaimTimeoutNs a)) a) else a)"

lemma round_end_swept:
  assumes "solo env" and "alloc_ok a"
  shows "swept (autoReclaimTimeoutNs a) a (round_end env a)"
  unfolding round_end_def
  using run_reclaim_sweep [OF assms(1), of a "autoReclaimTimeoutNs a" 0 "unat (numSlots a)"] assms(2) swept_refl [of _ a "tick a"]
  by (auto simp: alloc_ok_def)

lemma acquire_loop_wraps:
  assumes "run_state (tryClaimSlot env (unat idx)) a = (False, b)" and "numSlots b \<le> idx + 1"
  shows "run_state (acquire_loop (Suc fuel) env idx) a = run_state (acquire_loop fuel env 0) (round_end env b)"
  using assms by (auto simp: round_end_def split: prod.splits)

lemma run_acquire_loop:
  assumes "solo env" and "alloc_ok a" and "swept (autoReclaimTimeoutNs a0) a0 a" and "alloc_ok a0"
    and "unat idx < unat (numSlots a)" and "j < unat (numSlots a)" and "claimable (slots a ! j)"
    and "probes (unat (numSlots a)) (unat idx) j < fuel"
  shows "\<exists>i b. run_state (acquire_loop fuel env idx) a = (Ret (int i), b) \<and> acquired a0 i b \<and>
    cachedSlotIdx b = word_of_nat i"
  using assms
proof (induction fuel arbitrary: idx a)
  case 0
  then show ?case by simp
next
  case (Suc fuel)
  let ?n = "unat (numSlots a)" and ?i = "unat idx"
  have n: "?n < 2 ^ 31" "?n \<le> length (slots a)" and idx: "?i < length (slots a)" "idx < 2 ^ 31"
    using alloc_ok_numSlots [OF Suc.prems(2)] Suc.prems(5) by (auto simp: word_less_nat_alt)
  obtain t kk where run: "run_state (tryClaimSlot env ?i) a = (claimable (slots a ! ?i),
      (if claimable (slots a ! ?i) then upd_slot ?i (claimed (wallNs env t)) a else a)\<lparr>tick := kk\<rparr>)"
    using run_tryClaimSlot [OF Suc.prems(1) idx(1)] by blast
  show ?case
  proof (cases "claimable (slots a ! ?i)")
    case True
    let ?b = "(upd_slot ?i (claimed (wallNs env t)) a)\<lparr>tick := kk, cachedSlotIdx := idx\<rparr>"
    have "run_state (acquire_loop (Suc fuel) env idx) a = (Ret (int ?i), ?b)"
      using True run by (simp add: sint_small [OF idx(2)])
    moreover have "acquired a0 ?i ?b"
      using Suc.prems(3-5) True
      by (intro acquired_claim [where c = a]) (auto simp: swept_def)
    ultimately show ?thesis by fastforce
  next
    case False
    let ?a = "a\<lparr>tick := kk\<rparr>"
    have j: "j \<noteq> ?i"
      using False Suc.prems(7) by auto
    have i1: "unat (idx + 1) = Suc ?i"
      using n(1) Suc.prems(5) by (simp add: unat_plus_if')
    show ?thesis
    proof (cases "Suc ?i < ?n")
      case True
      have "\<exists>i b. run_state (acquire_loop fuel env (idx + 1)) ?a = (Ret (int i), b) \<and>
          acquired a0 i b \<and> cachedSlotIdx b = word_of_nat i"
      proof (rule Suc.IH)
        show "swept (autoReclaimTimeoutNs a0) a0 ?a"
          using swept_trans [OF Suc.prems(3) swept_refl] .
        show "probes (unat (numSlots ?a)) (unat (idx + 1)) j < fuel"
          using Suc.prems(8) j True unfolding i1 by (auto simp: probes_def split: if_splits)
      qed (use Suc.prems True i1 in \<open>simp_all add: alloc_ok_def\<close>)
      then show ?thesis
        using False run True by (simp add: word_le_nat_alt i1 not_le)
    next
      case last: False
      define c where "c = round_end env ?a"
      have sc: "swept (autoReclaimTimeoutNs a0) ?a c"
        using round_end_swept [OF Suc.prems(1), of ?a] Suc.prems(2,3) by (simp add: c_def alloc_ok_def swept_def)
      have "\<exists>i b. run_state (acquire_loop fuel env 0) c = (Ret (int i), b) \<and>
          acquired a0 i b \<and> cachedSlotIdx b = word_of_nat i"
      proof (rule Suc.IH)
        show "swept (autoReclaimTimeoutNs a0) a0 c"
          by (rule swept_trans [OF swept_trans [OF Suc.prems(3) swept_refl] sc])
        show "claimable (slots c ! j)"
          using swept_nth [OF sc, of j] may_reclaim_claimable Suc.prems(6,7) n(2) by auto
        show "alloc_ok c"
          using swept_alloc_ok [OF sc] Suc.prems(2) by (simp add: alloc_ok_def)
        show "probes (unat (numSlots c)) (unat (0 :: u32)) j < fuel"
          using Suc.prems(5,6,8) j last by (auto simp: probes_def split: if_splits)
      qed (use Suc.prems sc in \<open>auto simp: swept_def\<close>)
      moreover have "run_state (acquire_loop (Suc fuel) env idx) a = run_state (acquire_loop fuel env 0) c"
        unfolding c_def by (rule acquire_loop_wraps) (use False run last i1 in \<open>simp_all add: word_le_nat_alt\<close>)
      ultimately show ?thesis by simp
    qed
  qed
qed

text \<open>The search behind the cached slot.\<close>

lemma run_search:
  assumes "solo env" and "alloc_ok a" and "j < unat (numSlots a)" and "claimable (slots a ! j)" and "unat (numSlots a) \<le> fuel"
  shows "\<exists>i b. run_state (fetch_next env \<bind> (\<lambda>nxt. if numSlots a = 0 then ret Trap
      else acquire_loop fuel env (nxt mod numSlots a))) (a\<lparr>tick := k\<rparr>) = (Ret (int i), b) \<and> acquired a i b"
proof -
  let ?n = "unat (numSlots a)" and ?a = "a\<lparr>tick := Suc k, nextSlot := nextSlot a + 1\<rparr>" and ?idx = "nextSlot a mod numSlots a"
  have nz: "numSlots a \<noteq> 0" "unat ?idx < ?n"
    using assms(3) by (auto simp: unat_mod)
  have "probes ?n (unat ?idx) j < fuel"
    using nz(2) assms(3,5) by (auto simp: probes_def)
  then have "\<exists>i b. run_state (acquire_loop fuel env ?idx) ?a = (Ret (int i), b) \<and> acquired a i b \<and>
      cachedSlotIdx b = word_of_nat i"
    using assms nz(2) by (intro run_acquire_loop [where j = j])
      (auto simp: alloc_ok_def swept_def list.rel_refl)
  then show ?thesis
    using nz(1) assms(1) by (auto simp: fetch_next_def poll_solo Let_def)
qed

text \<open>
  C28. \<open>AcquireSlot\<close> finds a slot whenever there is one, within one round of the slots.
  Undisturbed, on a running host with a claimable host slot, a search of at most \<open>numSlots\<close>
  probes returns the index of a host slot that is now \<open>SLOT_BUSY\<close> with the next generation
  and a fresh lease; every other slot is as before, apart from slots whose lease had
  expired by the configured threshold and that the sweep has freed (none when the threshold
  is zero).
\<close>

theorem acquire_slot_finds:
  assumes "solo env" and "alloc_ok a" and "running a" and "j < unat (numSlots a)"
    and "claimable (slots a ! j)" and "unat (numSlots a) \<le> fuel"
  shows "\<exists>i b. run_state (AcquireSlot fuel env) a = (Ret (int i), b) \<and> acquired a i b"
proof -
  let ?c = "cachedSlotIdx a" and ?n = "unat (numSlots a)"
  have n: "?n < 2 ^ 31" "?n \<le> length (slots a)"
    using alloc_ok_numSlots [OF assms(2)] by auto
  note slow = run_search [OF assms(1,2,4-6)]
  show ?thesis
  proof (cases "?c < numSlots a")
    case True
    then have c: "unat ?c < length (slots a)" "unat ?c < ?n" "?c < 2 ^ 31"
      using n by (auto simp: word_less_nat_alt)
    obtain t kk where run: "run_state (tryClaimSlot env (unat ?c)) a = (claimable (slots a ! unat ?c),
        (if claimable (slots a ! unat ?c) then upd_slot (unat ?c) (claimed (wallNs env t)) a else a)\<lparr>tick := kk\<rparr>)"
      using run_tryClaimSlot [OF assms(1) c(1)] by blast
    show ?thesis
    proof (cases "claimable (slots a ! unat ?c)")
      case cl: True
      let ?b = "(upd_slot (unat ?c) (claimed (wallNs env t)) a)\<lparr>tick := kk\<rparr>"
      have "acquired a (unat ?c) ?b"
        using cl c(2) assms(2) swept_refl [of _ a "tick a"]
        by (intro acquired_claim [where c = a]) auto
      moreover have "run_state (AcquireSlot fuel env) a = (Ret (int (unat ?c)), ?b)"
        using cl run True assms(3) by (simp add: AcquireSlot_def sint_small [OF c(3)])
      ultimately show ?thesis by blast
    next
      case False
      then show ?thesis
        using slow [of kk] run True assms(3) by (simp add: AcquireSlot_def)
    qed
  next
    case False
    then show ?thesis
      using slow [of "tick a"] assms(3) by (simp add: AcquireSlot_def)
  qed
qed

text \<open>
  \<open>AcquireSlot\<close> on a running host without host slots computes the round-robin start
  modulo zero, whatever the environment does; \<open>TryAcquireSlot\<close> returns \<open>-1\<close> there.
\<close>

lemma acquire_slot_without_slots:
  assumes "running a" and "numSlots a = 0"
  shows "fst (run_state (AcquireSlot fuel env) a) = Trap \<and> fst (run_state (TryAcquireSlot env) a) = - 1"
  using assms by (simp add: AcquireSlot_def TryAcquireSlot_def fetch_next_def Let_def)

text \<open>
  C22. Reclamation frees exactly the abandoned slots. Undisturbed, a slot of the host or of
  the guest pool is freed, with its generation advanced and nothing else changed, exactly
  when it is not free, has been leased, and its lease plus the allowed age lies strictly
  before the time at which the lease was checked, as natural numbers: no wrap-around of the
  unsigned difference can free a slot whose lease is in the future. So a clock that was set
  back only delays reclamation, and a clock that was set forward makes a live lease look
  expired; the comment at \<open>MonotonicNanos\<close> in \<open>Platform.h\<close> has it the other way round. Indices
  outside the pools are refused.
\<close>

theorem reclaim_frees_exactly_abandoned_slots:
  assumes "solo env" and "alloc_ok a"
  shows "(i < length (slots a) \<longrightarrow> (\<exists>k.
      run_state (TryReclaimAbandonedSlot env (int i) age) a =
        (if state_of (slots a ! i) \<noteq> SLOT_FREE \<and> h_lease (header (slots a ! i)) \<noteq> 0 \<and>
            unat (h_lease (header (slots a ! i))) + unat age < unat (wallNs env (tick a + 3))
         then (True, (upd_slot i reclaimed a)\<lparr>tick := k\<rparr>) else (False, a\<lparr>tick := k\<rparr>)))) \<and>
    (slotIdx < 0 \<or> slotIdx \<ge> int (length (slots a)) \<longrightarrow>
      run_state (TryReclaimAbandonedSlot env slotIdx age) a = (False, a))"
proof -
  have "unat (numSlots a + numGuestSlots a) = length (slots a)" "length (slots a) < 2 ^ 31"
    using assms(2) by (simp_all add: alloc_ok_def unat_plus_if')
  then have sz: "sint (numSlots a + numGuestSlots a) = int (length (slots a))"
    by (subst sint_small) (simp_all add: word_less_nat_alt)
  have "slotIdx < 0 \<or> slotIdx \<ge> int (length (slots a)) \<Longrightarrow>
      run_state (TryReclaimAbandonedSlot env slotIdx age) a = (False, a)"
    by (auto simp: TryReclaimAbandonedSlot_def sz)
  moreover have "\<exists>k. run_state (TryReclaimAbandonedSlot env (int i) age) a =
      (if state_of (slots a ! i) \<noteq> SLOT_FREE \<and> h_lease (header (slots a ! i)) \<noteq> 0 \<and>
          unat (h_lease (header (slots a ! i))) + unat age < unat (lease_check_time env a)
       then (True, (upd_slot i reclaimed a)\<lparr>tick := k\<rparr>) else (False, a\<lparr>tick := k\<rparr>))" if "i < length (slots a)"
    using run_TryReclaimAbandonedSlot [OF assms that, of age]
    by (rule ex_forward) (auto simp: abandoned_def lease_stale_iff)
  ultimately show ?thesis by blast
qed

section \<open>Examples\<close>

definition free_slot :: slot where
  "free_slot = upd_header (h_state_update (\<lambda>_. SLOT_FREE)) demo_slot"

definition demo_pool :: alloc where
  "demo_pool = demo_alloc\<lparr>slots := [demo_slot, free_slot], numSlots := 2, nextSlot := 0xFFFFFFFE\<rparr>"

lemma demo_pool_simps [simp]:
  "solo quiet_env" "alloc_ok demo_pool" "running demo_pool" "numSlots demo_pool = 2"
  "slots demo_pool = [demo_slot, free_slot]" "claimable free_slot" "\<not> claimable demo_slot"
  by (simp_all add: solo_def quiet_env_def alloc_ok_def demo_pool_def demo_alloc_def claimable_def
      free_slot_def demo_slot_def upd_header_def stealable_def)

theorem try_acquire_complete_witness:
  "\<exists>r b. run_state (TryAcquireSlot quiet_env) demo_pool = (r, b) \<and> r = 1 \<and>
    (\<exists>now. slots b = [demo_slot, claimed now free_slot])"
proof -
  have two: "(i < 2) = (i = 0 \<or> i = 1)" for i :: nat
    by auto
  show ?thesis
    using try_acquire_complete [of quiet_env demo_pool] by (auto simp: two split: if_splits)
qed

theorem acquire_slot_finds_witness:
  "\<exists>i b. run_state (AcquireSlot 2 quiet_env) demo_pool = (Ret (int i), b) \<and> acquired demo_pool i b"
  using acquire_slot_finds [of quiet_env demo_pool 1 2] by simp


text \<open>A slot that was leased at time 1: with an age of 1 it is freed at time 3, with an age of 2 it is not.\<close>

definition leased_pool :: alloc where
  "leased_pool = demo_pool\<lparr>slots := [upd_header (h_lease_update (\<lambda>_. 1)) demo_slot, free_slot]\<rparr>"

theorem reclaim_frees_exactly_abandoned_slots_witness:
  "(\<exists>k. run_state (TryReclaimAbandonedSlot quiet_env 0 1) leased_pool = (True, (upd_slot 0 reclaimed leased_pool)\<lparr>tick := k\<rparr>)) \<and>
   (\<exists>k. run_state (TryReclaimAbandonedSlot quiet_env 0 2) leased_pool = (False, leased_pool\<lparr>tick := k\<rparr>)) \<and>
   run_state (TryReclaimAbandonedSlot quiet_env 2 1) leased_pool = (False, leased_pool)"
proof -
  have "alloc_ok leased_pool" "state_of (slots leased_pool ! 0) = SLOT_BUSY" "h_lease (header (slots leased_pool ! 0)) = 1"
    "length (slots leased_pool) = 2" "wallNs quiet_env (tick leased_pool + 3) = 3"
    by (simp_all add: leased_pool_def alloc_ok_def demo_pool_def demo_alloc_def demo_slot_def upd_header_def quiet_env_def)
  then show ?thesis
    using reclaim_frees_exactly_abandoned_slots [of quiet_env leased_pool 0 1 2]
      reclaim_frees_exactly_abandoned_slots [of quiet_env leased_pool 0 2 2] by simp
qed

end
