(* ===== verification/Shm_Guest_Calls.thy ===== *)
theory Shm_Guest_Calls
  imports Shm_Slot_Send
begin

text \<open>
  Calls from the guest to the host, \<open>src/include/shm/GuestCallWorker.h\<close>: the wait behind the
  doorbell gate, the batch processor with its two-phase publish, and the life of the
  background worker. The handler is a parameter: from the request bytes, the response
  buffer, its capacity and the message type it computes the response size it returns and
  the response buffer it leaves behind.

  The state is that of the worker together with the slot allocator it points to; the
  interference of the guest and of other host threads is that of the slot allocator.
\<close>

section \<open>State\<close>

record worker =
  w_spin :: bool
  w_limit :: int
  w_pinMask :: u64
  guestWorkerRunning :: bool
  threadJoinable :: bool

type_synonym call_handler = "byte list \<Rightarrow> byte list \<Rightarrow> u32 \<Rightarrow> MsgType \<Rightarrow> i32 \<times> byte list"

definition on_alloc :: "(alloc, 'a) state \<Rightarrow> (worker \<times> alloc, 'a) state" where
  "on_alloc m = State (\<lambda>(w, a). case run_state m a of (x, b) \<Rightarrow> (x, (w, b)))"

definition kFallbackPollMs :: u32 where
  "kFallbackPollMs = 100"

definition sleep_for :: "env \<Rightarrow> u32 \<Rightarrow> (alloc, unit) state" where
  "sleep_for env ms = modify (poll env (unat ms))"

section \<open>Waiting for a request\<close>

definition GuestRequestEvent :: "alloc \<Rightarrow> EventHandle" where
  "GuestRequestEvent a =
     (if numGuestSlots a > 0 \<and> unat (numSlots a + numGuestSlots a) \<le> length (slots a)
      then hReqEvent (slots a ! unat (numSlots a)) else None)"

text \<open>
  The two loops over the guest slots, for \<open>k\<close> slots from index \<open>i\<close>. The first one is also
  given with the check that the index lies in the slot vector.
\<close>

fun anyRequestReady :: "nat \<Rightarrow> env \<Rightarrow> nat \<Rightarrow> (alloc, bool) state" where
  "anyRequestReady 0 env i = ret False"
| "anyRequestReady (Suc k) env i = do {
     st \<leftarrow> load env i state_of;
     if st = SLOT_REQ_READY then ret True else anyRequestReady k env (Suc i) }"

fun anyRequestReady_checked :: "nat \<Rightarrow> env \<Rightarrow> nat \<Rightarrow> (alloc, bool outcome) state" where
  "anyRequestReady_checked 0 env i = ret (Ret False)"
| "anyRequestReady_checked (Suc k) env i = do {
     n \<leftarrow> gets (length \<circ> slots);
     if i \<ge> n then ret Trap
     else do {
       st \<leftarrow> load env i state_of;
       if st = SLOT_REQ_READY then ret (Ret True) else anyRequestReady_checked k env (Suc i) } }"

fun setHostState :: "nat \<Rightarrow> env \<Rightarrow> nat \<Rightarrow> u32 \<Rightarrow> (alloc, unit) state" where
  "setHostState 0 env i v = ret ()"
| "setHostState (Suc k) env i v = do {
     store env i (upd_header (h_hostState_update (\<lambda>_. v)));
     setHostState k env (Suc i) v }"

definition request_sleepAction :: "env \<Rightarrow> nat \<Rightarrow> nat \<Rightarrow> EventHandle \<Rightarrow> u32 \<Rightarrow> (alloc, unit outcome) state" where
  "request_sleepAction env base k waitEvent timeoutMs = do {
     setHostState k env base HOST_STATE_WAITING;
     c \<leftarrow> anyRequestReady k env base;
     if c then do { setHostState k env base HOST_STATE_ACTIVE; ret (Ret ()) }
     else do {
       _ \<leftarrow> wait_event env waitEvent (unat timeoutMs);
       setHostState k env base HOST_STATE_ACTIVE;
       ret (Ret ()) } }"

text \<open>The number of iterations of a loop from \<open>numSlots\<close> to \<open>numSlots + numGuestSlots\<close>.\<close>

definition guest_count :: "alloc \<Rightarrow> nat" where
  "guest_count a = unat (numSlots a + numGuestSlots a) - unat (numSlots a)"

definition WaitForRequest :: "env \<Rightarrow> u32 \<Rightarrow> (worker \<times> alloc, bool outcome) state" where
  "WaitForRequest env timeoutMs = do {
     (w, a) \<leftarrow> gets id;
     if numGuestSlots a = 0 then do {
       (if timeoutMs > 0
        then on_alloc (sleep_for env (if timeoutMs < kFallbackPollMs then timeoutMs else kFallbackPollMs))
        else ret ());
       ret (Ret False)
     } else do {
       let base = unat (numSlots a);
       let k = guest_count a;
       case GuestRequestEvent a of
         None \<Rightarrow> do {
           on_alloc (sleep_for env
             (if timeoutMs > 0 \<and> timeoutMs < kFallbackPollMs then timeoutMs else kFallbackPollMs));
           on_alloc (anyRequestReady_checked k env base) }
       | Some e \<Rightarrow>
           obind
             (if \<not> w_spin w then on_alloc (request_sleepAction env base k (Some e) timeoutMs)
              else obind (Wait (\<lambda>(w, a). w_limit w) (\<lambda>g (w, a). (w_limit_update g w, a))
                (on_alloc (anyRequestReady k env base))
                (on_alloc (request_sleepAction env base k (Some e) timeoutMs))) (\<lambda>_. ret (Ret ())))
             (\<lambda>_. do {
                c \<leftarrow> on_alloc (anyRequestReady k env base);
                ret (Ret c) }) } }"

definition WakeWaiter :: "env \<Rightarrow> (alloc, unit) state" where
  "WakeWaiter env = do {
     ev \<leftarrow> gets GuestRequestEvent;
     case ev of None \<Rightarrow> ret () | Some e \<Rightarrow> signal env (Some e) }"

section \<open>Answering requests\<close>

definition LockForPublish :: "env \<Rightarrow> nat \<Rightarrow> (alloc, bool) state" where
  "LockForPublish env i = cas_state env i SLOT_BUSY SLOT_DONE"

definition PublishResponse :: "env \<Rightarrow> nat \<Rightarrow> (alloc, bool) state" where
  "PublishResponse env i = do {
     ok \<leftarrow> cas_state env i SLOT_DONE SLOT_RESP_READY;
     if \<not> ok then ret False
     else do {
       g \<leftarrow> load env i (\<lambda>s. h_guestState (header s));
       (if g = GUEST_STATE_WAITING then do { h \<leftarrow> own i hRespEvent; signal env h } else ret ());
       ret True } }"

text \<open>A response that is too large, or a request that is: the two error branches.\<close>

definition reject_request :: "env \<Rightarrow> nat \<Rightarrow> (alloc, unit) state" where
  "reject_request env i = do {
     locked \<leftarrow> LockForPublish env i;
     if locked then do {
       store env i (upd_header (h_respSize_update (\<lambda>_. 0)));
       store env i (upd_header (h_msgType_update (\<lambda>_. SYSTEM_ERROR)));
       _ \<leftarrow> PublishResponse env i;
       ret ()
     } else ret () }"

definition publish_answer :: "env \<Rightarrow> nat \<Rightarrow> i32 \<Rightarrow> bool \<Rightarrow> (alloc, unit) state" where
  "publish_answer env i respSize respOverflow = do {
     locked \<leftarrow> LockForPublish env i;
     if locked then do {
       (if respOverflow then store env i (upd_header (h_msgType_update (\<lambda>_. SYSTEM_ERROR))) else ret ());
       store env i (upd_header (h_respSize_update (\<lambda>_. respSize)));
       _ \<leftarrow> PublishResponse env i;
       ret ()
     } else ret () }"

text \<open>The bytes \<open>reqData\<close> points to: the start of the request buffer, or its end.\<close>

definition req_data :: "i32 \<Rightarrow> u32 \<Rightarrow> byte list \<Rightarrow> byte list option" where
  "req_data reqSize maxReq buf =
     (let absReqSize = absSize reqSize in
      if 0 \<le>s reqSize then mem_read 0 (unat absReqSize) buf
      else mem_read (unat (maxReq - absReqSize)) (unat absReqSize) buf)"

text \<open>A claimed request: its dispatch to the handler and its answer.\<close>

definition serve_request :: "call_handler \<Rightarrow> env \<Rightarrow> nat \<Rightarrow> (alloc, unit outcome) state" where
  "serve_request handler env i = do {
     reqSize \<leftarrow> load env i (\<lambda>s. h_reqSize (header s));
     maxReq \<leftarrow> own i maxReqSize;
     if absSize reqSize > maxReq then do { reject_request env i; ret (Ret ()) }
     else do {
       maxResp \<leftarrow> own i maxRespSize;
       msgType \<leftarrow> load env i (\<lambda>s. h_msgType (header s));
       reqBuf \<leftarrow> load env i reqBuffer;
       respBuf \<leftarrow> load env i respBuffer;
       case req_data reqSize maxReq reqBuf of
         None \<Rightarrow> ret Trap
       | Some req \<Rightarrow> do {
           let (respSize, resp) = handler req respBuf maxResp msgType;
           store env i (respBuffer_update (\<lambda>_. resp));
           let respOverflow = absSize respSize > maxResp;
           publish_answer env i (if respOverflow then 0 else respSize) respOverflow;
           ret (Ret ()) } } }"

text \<open>One iteration of the batch: whether the slot was claimed and processed.\<close>

definition process_slot :: "call_handler \<Rightarrow> env \<Rightarrow> bool \<Rightarrow> nat \<Rightarrow> (alloc, bool outcome) state" where
  "process_slot handler env fastClaim i = do {
     current \<leftarrow> load env i state_of;
     if current \<noteq> SLOT_REQ_READY then ret (Ret False)
     else do {
       (if \<not> fastClaim then store env i (upd_header (h_gen_update (\<lambda>g. g + 1))) else ret ());
       claimed \<leftarrow> cas_state env i current SLOT_BUSY;
       if \<not> claimed then ret (Ret False)
       else do {
         (if \<not> fastClaim then stamp_lease env i else ret ());
         obind (serve_request handler env i) (\<lambda>_. ret (Ret True)) } } }"

fun process_loop :: "nat \<Rightarrow> call_handler \<Rightarrow> env \<Rightarrow> bool \<Rightarrow> int \<Rightarrow> nat \<Rightarrow> int \<Rightarrow> (alloc, int outcome) state" where
  "process_loop 0 handler env fastClaim limit i processed = ret (Ret processed)"
| "process_loop (Suc k) handler env fastClaim limit i processed =
     (if limit > 0 \<and> processed \<ge> limit then ret (Ret processed)
      else do {
        n \<leftarrow> gets (length \<circ> slots);
        if i \<ge> n then ret Trap
        else obind (process_slot handler env fastClaim i) (\<lambda>done1.
          process_loop k handler env fastClaim limit (Suc i) (if done1 then processed + 1 else processed)) })"

definition ProcessGuestCalls :: "call_handler \<Rightarrow> env \<Rightarrow> int \<Rightarrow> (alloc, int outcome) state" where
  "ProcessGuestCalls handler env limit = do {
     a \<leftarrow> gets id;
     if \<not> running a then ret (Ret 0)
     else do {
       let fastClaim = (autoReclaimTimeoutNs a = 0);
       process_loop (guest_count a) handler env fastClaim limit (unat (numSlots a)) 0 } }"

section \<open>The background worker\<close>

text \<open>
  The loop of the worker thread; \<open>keep k\<close> is the value of \<open>guestWorkerRunning\<close> its \<open>k\<close>-th test
  reads, which \<open>Stop\<close> clears from another thread.
\<close>

fun GuestWorkerLoop :: "nat \<Rightarrow> (nat \<Rightarrow> bool) \<Rightarrow> call_handler \<Rightarrow> env \<Rightarrow> int \<Rightarrow> (worker \<times> alloc, unit outcome) state" where
  "GuestWorkerLoop 0 keep handler env maxBatchSize = ret NoFuel"
| "GuestWorkerLoop (Suc fuel) keep handler env maxBatchSize =
     (if \<not> keep 0 then ret (Ret ())
      else obind (WaitForRequest env 1000) (\<lambda>_.
        obind (on_alloc (ProcessGuestCalls handler env maxBatchSize)) (\<lambda>_.
          GuestWorkerLoop fuel (\<lambda>k. keep (Suc k)) handler env maxBatchSize)))"

text \<open>Starting tells whether a thread is created.\<close>

definition Start :: "(worker \<times> alloc, bool) state" where
  "Start = do {
     (w, a) \<leftarrow> gets id;
     if numGuestSlots a = 0 then ret False
     else do {
       modify (\<lambda>(w, a). (w\<lparr>guestWorkerRunning := True\<rparr>, a));
       if guestWorkerRunning w then ret False
       else do {
         modify (\<lambda>(w, a). (w\<lparr>threadJoinable := True\<rparr>, a));
         ret True } } }"

text \<open>Stopping tells whether the thread is joined.\<close>

definition Stop :: "env \<Rightarrow> (worker \<times> alloc, bool) state" where
  "Stop env = do {
     (w, a) \<leftarrow> gets id;
     modify (\<lambda>(w, a). (w\<lparr>guestWorkerRunning := False\<rparr>, a));
     if guestWorkerRunning w then do {
       on_alloc (WakeWaiter env);
       (w, a) \<leftarrow> gets id;
       if threadJoinable w then do {
         modify (\<lambda>(w, a). (w\<lparr>threadJoinable := False\<rparr>, a));
         ret True
       } else ret False
     } else ret False }"

end
