(* ===== verification/Shm_Host.thy ===== *)
theory Shm_Host
  imports Shm_Guest_Calls
begin

text \<open>
  \<open>src/include/shm/DirectHost.h\<close>: the host object that owns the shared memory segment, its
  geometry and its life, and the send paths and slot wrappers it offers on top of the slot
  allocator. The Win32 calls are those of the platform layer. The \<open>shared_ptr\<close> that tells the
  slot wrappers whether the host session is alive is a session number.
\<close>

section \<open>Configuration and state\<close>

record HostConfig =
  shmName :: string
  numHostSlots :: u32
  payloadSize :: u32
  c_numGuestSlots :: u32
  guestWorkerAffinity :: u64
  guestWorkerSpin :: bool

definition default_host_config :: "string \<Rightarrow> u32 \<Rightarrow> HostConfig" where
  "default_host_config name n = \<lparr>shmName = name, numHostSlots = n, payloadSize = 1024 * 1024,
     c_numGuestSlots = 0, guestWorkerAffinity = 0, guestWorkerSpin = True\<rparr>"

record host =
  h_alloc :: alloc
  h_worker :: worker
  shmBase :: "nat option"
  h_shmName :: string
  totalShmSize :: u64
  hMapFile :: ShmHandle
  hLockFile :: ShmHandle
  h_slotSize :: u32
  sharedState :: "nat option"
  sessions :: nat
  exHeader :: exchange_header

text \<open>The members after construction; the stack garbage in the plain members is zero here.\<close>

definition new_alloc :: alloc where
  "new_alloc = \<lparr>slots = [], nextSlot = 0, numSlots = 0, numGuestSlots = 0, msgSeqStride = 0,
     responseTimeoutMs = 10000, autoReclaimTimeoutNs = 0, running = False, cachedSlotIdx = 0xFFFFFFFF,
     events = (\<lambda>_. False), tick = 0\<rparr>"

definition new_worker :: worker where
  "new_worker = \<lparr>w_spin = True, w_limit = kMaxSpin, w_pinMask = 0, guestWorkerRunning = False,
     threadJoinable = False\<rparr>"

definition DirectHost :: host where
  "DirectHost = \<lparr>h_alloc = new_alloc, h_worker = new_worker, shmBase = None, h_shmName = [],
     totalShmSize = 0, hMapFile = None, hLockFile = None, h_slotSize = 0, sharedState = Some 0,
     sessions = 1, exHeader = \<lparr>magic = 0, version = 0, xh_numSlots = 0, xh_numGuestSlots = 0,
       slotSize = 0, reqOffset = 0, respOffset = 0, fastPathAllowed = 0\<rparr>\<rparr>"

definition SetTimeout :: "u32 \<Rightarrow> host \<Rightarrow> host" where
  "SetTimeout ms h = h\<lparr>h_alloc := (h_alloc h)\<lparr>responseTimeoutMs := ms\<rparr>\<rparr>"

definition host_SetAutoReclaimTimeoutNs :: "u64 \<Rightarrow> host \<Rightarrow> host" where
  "host_SetAutoReclaimTimeoutNs timeoutNs h =
     (let h1 = h\<lparr>h_alloc := snd (run_state (SetAutoReclaimTimeoutNs timeoutNs) (h_alloc h))\<rparr>
      in if shmBase h \<noteq> None
         then h1\<lparr>exHeader := (exHeader h1)\<lparr>fastPathAllowed := (if timeoutNs = 0 then 1 else 0)\<rparr>\<rparr>
         else h1)"

section \<open>Geometry\<close>

record geometry =
  halfSize :: u32
  g_slotSize :: u32
  perSlotTotal :: u64
  totalSlots :: u64
  totalSize :: u64

definition exchangeHeaderSize :: u64 where
  "exchangeHeaderSize = (let n = word_of_nat (sizeof 1 ExchangeHeader_members) in if n < 64 then 64 else n)"

definition slotHeaderSize :: u64 where
  "slotHeaderSize = word_of_nat (sizeof 64 SlotHeader_members)"

definition compute_geometry :: "u32 \<Rightarrow> u32 \<Rightarrow> u32 \<Rightarrow> geometry" where
  "compute_geometry payload nHost nGuest =
     (let half = payload div 2;
          half = (half div 64) * 64;
          half = (if half < 64 then 64 else half);
          slotSz = (if half + half > payload then half + half else payload);
          perSlot = slotHeaderSize + ucast slotSz;
          count = ucast (nHost + nGuest)
      in \<lparr>halfSize = half, g_slotSize = slotSz, perSlotTotal = perSlot, totalSlots = count,
          totalSize = exchangeHeaderSize + perSlot * count\<rparr>)"

text \<open>Where slot \<open>i\<close> lies, as offsets from the base of the segment.\<close>

definition slot_at :: "geometry \<Rightarrow> nat \<Rightarrow> nat" where
  "slot_at g i = unat exchangeHeaderSize + i * unat (perSlotTotal g)"

definition req_at :: "geometry \<Rightarrow> nat \<Rightarrow> nat" where
  "req_at g i = slot_at g i + unat slotHeaderSize"

definition resp_at :: "geometry \<Rightarrow> nat \<Rightarrow> nat" where
  "resp_at g i = slot_at g i + unat slotHeaderSize + unat (halfSize g)"

section \<open>Initialisation\<close>

text \<open>\<open>std::to_string\<close>.\<close>

fun to_string :: "nat \<Rightarrow> string" where
  "to_string n = (if n < 10 then [char_of (48 + n)] else to_string (n div 10) @ [char_of (48 + n mod 10)])"

declare to_string.simps [simp del]

definition reqName :: "string \<Rightarrow> u32 \<Rightarrow> nat \<Rightarrow> string" where
  "reqName name nHost i =
     (if i < unat nHost then name @ ''_slot_'' @ to_string i else name @ ''_guest_call'')"

definition respName :: "string \<Rightarrow> nat \<Rightarrow> string" where
  "respName name i = name @ ''_slot_'' @ to_string i @ ''_resp''"

definition zero_header :: slot_header where
  "zero_header = \<lparr>h_state = 0, h_hostState = 0, h_guestState = 0, h_msgSeq = 0, h_msgType = 0,
     h_reqSize = 0, h_respSize = 0, h_lease = 0, h_gen = 0\<rparr>"

text \<open>A slot of the vector before \<open>Init\<close> assigns it, and the assignment. The segment is zeroed.\<close>

definition new_slot :: slot where
  "new_slot = \<lparr>header = zero_header, reqBuffer = [], respBuffer = [], hReqEvent = None, hRespEvent = None,
     maxReqSize = 0, maxRespSize = 0, currentLimit = kMaxSpin, msgSeq = 0, activeWait = False\<rparr>"

definition init_slot :: "geometry \<Rightarrow> nat \<Rightarrow> EventHandle \<Rightarrow> EventHandle \<Rightarrow> slot \<Rightarrow> slot" where
  "init_slot g i req resp s = s\<lparr>header := (if req = None \<or> resp = None then zero_header
       else zero_header\<lparr>h_state := SLOT_FREE, h_hostState := HOST_STATE_ACTIVE, h_guestState := GUEST_STATE_ACTIVE\<rparr>),
     reqBuffer := replicate (unat (halfSize g)) 0,
     respBuffer := replicate (unat (g_slotSize g - halfSize g)) 0,
     hReqEvent := req, hRespEvent := resp,
     maxReqSize := halfSize g, maxRespSize := g_slotSize g - halfSize g, msgSeq := word_of_nat i + 1\<rparr>"

text \<open>The loop over the slots from index \<open>i\<close>, \<open>k\<close> of them left; it stops at the first event that
  cannot be created.\<close>

fun init_slots ::
  "'os win32 \<Rightarrow> string \<Rightarrow> u32 \<Rightarrow> geometry \<Rightarrow> nat \<Rightarrow> nat \<Rightarrow> slot list \<Rightarrow> 'os \<Rightarrow> (bool \<times> slot list) \<times> 'os" where
  "init_slots w name nHost g 0 i ss os = ((True, ss), os)"
| "init_slots w name nHost g (Suc k) i ss os =
     (case CreateNamedEvent w (reqName name nHost i) os of (req, os1) \<Rightarrow>
      case CreateNamedEvent w (respName name i) os1 of (resp, os2) \<Rightarrow>
        (let ss1 = ss[i := init_slot g i req resp (ss ! i)]
         in if req = None \<or> resp = None then ((False, ss1), os2)
            else init_slots w name nHost g k (Suc i) ss1 os2))"

definition resize_slots :: "nat \<Rightarrow> slot list \<Rightarrow> slot list" where
  "resize_slots n ss = take n ss @ replicate (n - length ss) new_slot"

definition close_events :: "'os win32 \<Rightarrow> slot list \<Rightarrow> 'os \<Rightarrow> 'os" where
  "close_events w ss os = fold (\<lambda>s os. CloseEvent w (hRespEvent s) (CloseEvent w (hReqEvent s) os)) ss os"

definition Shutdown :: "'os win32 \<Rightarrow> env \<Rightarrow> registry \<Rightarrow> 'os \<Rightarrow> host \<Rightarrow> host \<times> registry \<times> 'os" where
  "Shutdown w env reg os h =
     (if \<not> running (h_alloc h) then (h, reg, os)
      else case run_state (Stop env) (h_worker h, h_alloc h) of (_, wk, a) \<Rightarrow>
        (let os1 = close_events w (slots a) os;
             (reg2, os2) = (if shmBase h \<noteq> None
               then (case UnlockShm w (hLockFile h) reg os1 of (reg2, os2) \<Rightarrow>
                       (reg2, CloseShm w (hMapFile h) (shmBase h) os2))
               else (reg, os1))
         in (h\<lparr>h_worker := wk, h_alloc := a\<lparr>running := False\<rparr>, sharedState := None\<rparr>, reg2, os2)))"

definition make_exchange_header :: "u64 \<Rightarrow> HostConfig \<Rightarrow> geometry \<Rightarrow> exchange_header" where
  "make_exchange_header reclaimNs cfg g = \<lparr>magic = SHM_MAGIC, version = SHM_VERSION,
     xh_numSlots = numHostSlots cfg, xh_numGuestSlots = c_numGuestSlots cfg, slotSize = g_slotSize g,
     reqOffset = 0, respOffset = halfSize g, fastPathAllowed = (if reclaimNs = 0 then 1 else 0)\<rparr>"

text \<open>The assignments before the segment is created.\<close>

definition configure :: "HostConfig \<Rightarrow> geometry \<Rightarrow> host \<Rightarrow> host" where
  "configure cfg g h =
     (let h1 = (if sharedState h = None
                then h\<lparr>sharedState := Some (sessions h), sessions := Suc (sessions h)\<rparr> else h)
      in h1\<lparr>h_shmName := shmName cfg, h_slotSize := g_slotSize g, totalShmSize := totalSize g,
         h_alloc := (h_alloc h)\<lparr>numSlots := numHostSlots cfg, numGuestSlots := c_numGuestSlots cfg,
           msgSeqStride := numHostSlots cfg + c_numGuestSlots cfg\<rparr>,
         h_worker := (h_worker h)\<lparr>w_spin := guestWorkerSpin cfg, w_pinMask := guestWorkerAffinity cfg\<rparr>\<rparr>)"

definition Init ::
  "'os win32 \<Rightarrow> env \<Rightarrow> HostConfig \<Rightarrow> registry \<Rightarrow> 'os \<Rightarrow> host \<Rightarrow> result_void \<times> host \<times> registry \<times> 'os" where
  "Init w env cfg reg os h =
     (let g = compute_geometry (payloadSize cfg) (numHostSlots cfg) (c_numGuestSlots cfg);
          h0 = configure cfg g h
      in case CreateNamedShm w (shmName cfg) (totalSize g) os of ((base, hmap, _), os1) \<Rightarrow>
        (let h1 = h0\<lparr>shmBase := base, hMapFile := hmap\<rparr>
         in if base = None then (Failure InternalError, h1, reg, os1)
            else case LockShm w (shmName cfg) reg os1 of ((locked, lock), reg2, os2) \<Rightarrow>
              (if \<not> locked
               then (Failure ResourceExhausted, h1\<lparr>shmBase := None\<rparr>, reg2, CloseShm w hmap base os2)
               else let a = h_alloc h1;
                        ss = resize_slots (unat (totalSlots g)) (slots a);
                        ((ok, ss1), os3) = init_slots w (shmName cfg) (numHostSlots cfg) g (unat (totalSlots g)) 0 ss os2;
                        h2 = h1\<lparr>hLockFile := lock, exHeader := make_exchange_header (autoReclaimTimeoutNs a) cfg g,
                          h_alloc := a\<lparr>slots := ss1, running := True\<rparr>\<rparr>
                    in if ok then (Success, h2, reg2, os3)
                       else case Shutdown w env reg2 os3 h2 of (h3, reg3, os4) \<Rightarrow> (Failure InternalError, h3, reg3, os4))))"

definition Init_deprecated ::
  "'os win32 \<Rightarrow> env \<Rightarrow> string \<Rightarrow> u32 \<Rightarrow> u32 \<Rightarrow> u32 \<Rightarrow> registry \<Rightarrow> 'os \<Rightarrow> host \<Rightarrow>
   result_void \<times> host \<times> registry \<times> 'os" where
  "Init_deprecated w env name nHost payload nGuest reg os h =
     Init w env ((default_host_config name nHost)\<lparr>payloadSize := payload, c_numGuestSlots := nGuest\<rparr>) reg os h"

section \<open>Sending with a copy\<close>

text \<open>
  The copy of the request into an acquired slot; \<open>None\<close> is success. The data pointer is the
  list of the bytes behind it, or NULL.
\<close>

definition fill_request :: "env \<Rightarrow> int \<Rightarrow> byte list option \<Rightarrow> i32 \<Rightarrow> (alloc, error option outcome) state" where
  "fill_request env idx data sz =
     (if sz = 0 then ret (Ret None)
      else case data of
        None \<Rightarrow> do { store_state env (nat idx) SLOT_FREE; ret (Ret (Some InvalidArgs)) }
      | Some d \<Rightarrow> do {
          cap \<leftarrow> GetMaxReqSize idx;
          let uAbsSize = absSize sz;
          if uAbsSize > word_of_int cap then do {
            store_state env (nat idx) SLOT_FREE;
            ret (Ret (Some BufferTooSmall))
          } else do {
            buf \<leftarrow> load env (nat idx) reqBuffer;
            let offset = (if 0 \<le>s sz then 0 else unat (word_of_int cap - uAbsSize));
            case (if offset \<le> length buf then CopySmall (unat uAbsSize) d (drop offset buf) else None) of
              None \<Rightarrow> ret Trap
            | Some tail \<Rightarrow> do {
                modify (upd_slot (nat idx) (reqBuffer_update (\<lambda>_. take offset buf @ tail)));
                ret (Ret None) } } })"

definition SendToSlot ::
  "nat \<Rightarrow> env \<Rightarrow> u32 \<Rightarrow> byte list option \<Rightarrow> i32 \<Rightarrow> MsgType \<Rightarrow> byte list \<Rightarrow> u32 \<Rightarrow>
   (alloc, (int result \<times> byte list) outcome) state" where
  "SendToSlot fuel env slotIdx data sz msgType outResp timeoutMs =
     obind (AcquireSpecificSlot fuel env (sint slotIdx) timeoutMs) (\<lambda>idx.
       if idx < 0 then ret (Ret (Inl ResourceExhausted, outResp))
       else obind (fill_request env idx data sz) (\<lambda>e. case e of
           Some err \<Rightarrow> ret (Ret (Inl err, outResp))
         | None \<Rightarrow> SendAcquired fuel env idx sz msgType outResp timeoutMs))"

definition host_Send ::
  "nat \<Rightarrow> env \<Rightarrow> byte list option \<Rightarrow> i32 \<Rightarrow> MsgType \<Rightarrow> byte list \<Rightarrow> u32 \<Rightarrow>
   (alloc, (int result \<times> byte list) outcome) state" where
  "host_Send fuel env data sz msgType outResp timeoutMs =
     obind (AcquireSlot fuel env) (\<lambda>idx.
       if idx < 0 then ret (Ret (Inl ResourceExhausted, outResp))
       else obind (fill_request env idx data sz) (\<lambda>e. case e of
           Some err \<Rightarrow> ret (Ret (Inl err, outResp))
         | None \<Rightarrow> SendAcquired fuel env idx sz msgType outResp timeoutMs))"

fun shutdown_loop :: "nat \<Rightarrow> nat \<Rightarrow> env \<Rightarrow> u32 \<Rightarrow> (alloc, unit outcome) state" where
  "shutdown_loop 0 fuel env i = ret (Ret ())"
| "shutdown_loop (Suc k) fuel env i =
     obind (SendToSlot fuel env i None 0 SHUTDOWN [] 1000) (\<lambda>_. shutdown_loop k fuel env (i + 1))"

definition SendShutdown :: "nat \<Rightarrow> env \<Rightarrow> (alloc, unit outcome) state" where
  "SendShutdown fuel env = do {
     a \<leftarrow> gets id;
     if \<not> running a then ret (Ret ()) else shutdown_loop (unat (numSlots a)) fuel env 0 }"

section \<open>Slot wrappers\<close>

text \<open>
  \<open>ZeroCopySlot\<close> and \<open>HeldSlot\<close> have the same members; \<open>alive\<close> below tells whether the session
  the wrapper was made in is still the one of the host.
\<close>

record slot_wrapper =
  z_host :: bool
  z_slotIdx :: int
  z_session :: "nat option"

definition make_wrapper :: "host \<Rightarrow> int \<Rightarrow> slot_wrapper" where
  "make_wrapper h idx = \<lparr>z_host = True, z_slotIdx = idx, z_session = sharedState h\<rparr>"

definition alive :: "host \<Rightarrow> slot_wrapper \<Rightarrow> bool" where
  "alive h z = (z_session z \<noteq> None \<and> z_session z = sharedState h)"

definition wrapper_IsValid :: "host \<Rightarrow> slot_wrapper \<Rightarrow> bool" where
  "wrapper_IsValid h z = (alive h z \<and> z_host z \<and> z_slotIdx z \<ge> 0)"

text \<open>The moved-to and the moved-from wrapper.\<close>

definition wrapper_move :: "slot_wrapper \<Rightarrow> slot_wrapper \<times> slot_wrapper" where
  "wrapper_move z = (z, \<lparr>z_host = False, z_slotIdx = - 1, z_session = None\<rparr>)"

definition GetZeroCopySlot :: "nat \<Rightarrow> env \<Rightarrow> host \<Rightarrow> (alloc, slot_wrapper outcome) state" where
  "GetZeroCopySlot fuel env h = obind (AcquireSlot fuel env) (\<lambda>idx. ret (Ret (make_wrapper h idx)))"

definition TryAcquireHeldSlot :: "env \<Rightarrow> host \<Rightarrow> (alloc, slot_wrapper) state" where
  "TryAcquireHeldSlot env h = do { idx \<leftarrow> TryAcquireSlot env; ret (make_wrapper h idx) }"

text \<open>The two overloads of \<open>AcquireHeldSlot\<close>: any slot, or the given one.\<close>

definition AcquireHeldSlot ::
  "nat \<Rightarrow> env \<Rightarrow> host \<Rightarrow> (int \<times> u32) option \<Rightarrow> (alloc, slot_wrapper outcome) state" where
  "AcquireHeldSlot fuel env h which =
     obind (case which of None \<Rightarrow> AcquireSlot fuel env
                        | Some (slotIdx, timeoutMs) \<Rightarrow> AcquireSpecificSlot fuel env slotIdx timeoutMs)
       (\<lambda>idx. ret (Ret (make_wrapper h idx)))"

definition wrapper_GetMaxReqSize :: "host \<Rightarrow> slot_wrapper \<Rightarrow> (alloc, int) state" where
  "wrapper_GetMaxReqSize h z =
     (if \<not> wrapper_IsValid h z then ret 0 else gets (\<lambda>a. sint (maxReqSize (slots a ! nat (z_slotIdx z)))))"

text \<open>The release in the destructor of a \<open>ZeroCopySlot\<close>: a store to the slot it holds.\<close>

definition zc_release :: "env \<Rightarrow> host \<Rightarrow> slot_wrapper \<Rightarrow> (alloc, unit) state" where
  "zc_release env h z =
     (if alive h z \<and> z_host z \<and> z_slotIdx z \<ge> 0 then store_state env (nat (z_slotIdx z)) SLOT_FREE else ret ())"

definition zc_assign :: "env \<Rightarrow> host \<Rightarrow> slot_wrapper \<Rightarrow> slot_wrapper \<Rightarrow> (alloc, slot_wrapper \<times> slot_wrapper) state" where
  "zc_assign env h target source = do { zc_release env h target; ret (wrapper_move source) }"

text \<open>The transaction shared by the two sends of a \<open>ZeroCopySlot\<close>, after the size check.\<close>

definition zc_transact ::
  "nat \<Rightarrow> env \<Rightarrow> slot_wrapper \<Rightarrow> i32 \<Rightarrow> MsgType \<Rightarrow> u32 \<Rightarrow> (alloc, (result_void \<times> slot_wrapper) outcome) state" where
  "zc_transact fuel env z reqSize msgType timeoutMs = do {
     let i = nat (z_slotIdx z);
     let gone = z\<lparr>z_slotIdx := - 1\<rparr>;
     currentSeq \<leftarrow> write_request env i reqSize msgType;
     t \<leftarrow> gets (\<lambda>a. effective_timeout a timeoutMs);
     obind (WaitResponse fuel env i t) (\<lambda>ready.
       if \<not> ready then ret (Ret (Failure Timeout, gone))
       else do {
         sq \<leftarrow> load env i (\<lambda>s. h_msgSeq (header s));
         if sq \<noteq> currentSeq then do {
           store_state env i SLOT_FREE;
           ret (Ret (Failure ProtocolViolation, gone))
         } else do {
           mt \<leftarrow> load env i (\<lambda>s. h_msgType (header s));
           if mt = SYSTEM_ERROR then do {
             store_state env i SLOT_FREE;
             ret (Ret (Failure InternalError, gone))
           } else ret (Ret (Success, z)) } }) }"

definition zc_Send ::
  "nat \<Rightarrow> env \<Rightarrow> host \<Rightarrow> slot_wrapper \<Rightarrow> i32 \<Rightarrow> MsgType \<Rightarrow> u32 \<Rightarrow> (alloc, (result_void \<times> slot_wrapper) outcome) state" where
  "zc_Send fuel env h z sz msgType timeoutMs =
     (if \<not> wrapper_IsValid h z then ret (Ret (Failure InvalidArgs, z))
      else do {
        cap \<leftarrow> own (nat (z_slotIdx z)) maxReqSize;
        if absSize sz > cap then ret (Ret (Failure BufferTooSmall, z))
        else zc_transact fuel env z sz msgType timeoutMs })"

definition zc_SendFlatBuffer ::
  "nat \<Rightarrow> env \<Rightarrow> host \<Rightarrow> slot_wrapper \<Rightarrow> i32 \<Rightarrow> u32 \<Rightarrow> (alloc, (result_void \<times> slot_wrapper) outcome) state" where
  "zc_SendFlatBuffer fuel env h z sz timeoutMs =
     (if \<not> wrapper_IsValid h z then ret (Ret (Failure InvalidArgs, z))
      else do {
        cap \<leftarrow> own (nat (z_slotIdx z)) maxReqSize;
        if sz > cap then ret (Ret (Failure BufferTooSmall, z))
        else zc_transact fuel env z (- sz) FLATBUFFER timeoutMs })"

text \<open>The response in place: its offset in the response buffer, and its size.\<close>

definition zc_GetRespBuffer :: "env \<Rightarrow> host \<Rightarrow> slot_wrapper \<Rightarrow> (alloc, nat option) state" where
  "zc_GetRespBuffer env h z =
     (if \<not> wrapper_IsValid h z then ret None
      else do {
        rSize \<leftarrow> load env (nat (z_slotIdx z)) (\<lambda>s. h_respSize (header s));
        cap \<leftarrow> own (nat (z_slotIdx z)) maxRespSize;
        if 0 \<le>s rSize then ret (Some 0)
        else ret (Some (unat (cap - clamp_resp rSize cap))) })"

definition zc_GetRespSize :: "env \<Rightarrow> host \<Rightarrow> slot_wrapper \<Rightarrow> (alloc, int) state" where
  "zc_GetRespSize env h z =
     (if \<not> wrapper_IsValid h z then ret 0
      else do {
        rSize \<leftarrow> load env (nat (z_slotIdx z)) (\<lambda>s. h_respSize (header s));
        cap \<leftarrow> own (nat (z_slotIdx z)) maxRespSize;
        ret (sint (clamp_resp rSize cap)) })"

definition held_Send ::
  "nat \<Rightarrow> env \<Rightarrow> host \<Rightarrow> slot_wrapper \<Rightarrow> i32 \<Rightarrow> MsgType \<Rightarrow> byte list \<Rightarrow> u32 \<Rightarrow>
   (alloc, ((int result \<times> byte list) \<times> slot_wrapper) outcome) state" where
  "held_Send fuel env h z sz msgType outResp timeoutMs =
     (if \<not> wrapper_IsValid h z then ret (Ret ((Inl InvalidArgs, outResp), z))
      else obind (SendHeld fuel env (z_slotIdx z) sz msgType outResp timeoutMs) (\<lambda>(res, out).
        ret (Ret ((res, out),
          if res = Inl Timeout \<or> res = Inl ProtocolViolation \<or> res = Inl InternalError
          then z\<lparr>z_slotIdx := - 1\<rparr> else z))))"

definition held_Release :: "env \<Rightarrow> host \<Rightarrow> slot_wrapper \<Rightarrow> (alloc, slot_wrapper) state" where
  "held_Release env h z = do {
     (if alive h z \<and> z_host z \<and> z_slotIdx z \<ge> 0 then ReleaseHeldSlot env (z_slotIdx z) else ret ());
     ret (z\<lparr>z_slotIdx := - 1\<rparr>) }"

definition held_assign :: "env \<Rightarrow> host \<Rightarrow> slot_wrapper \<Rightarrow> slot_wrapper \<Rightarrow> (alloc, slot_wrapper \<times> slot_wrapper) state" where
  "held_assign env h target source = do { _ \<leftarrow> held_Release env h target; ret (wrapper_move source) }"

end
