(* ===== verification/Shm_Slot_Liveness.thy ===== *)
theory Shm_Slot_Liveness
  imports Shm_Slot_Claim Shm_Host
begin

text \<open>
  The operations of \<open>src/include/shm/SlotAllocator.h\<close> and \<open>src/include/shm/DirectHost.h\<close> that wait
  with a timeout return. Their loops have no bound of their own: they end because time passes. A
  run that is given enough iterations never uses them up, whatever the environment does to the
  slots. The acquisition of any slot has no timeout: on a pool that stays full it never returns.
\<close>

section \<open>Time\<close>

definition clock_advances :: "env \<Rightarrow> bool" where
  "clock_advances env = (\<forall>T. \<exists>K. \<forall>k \<ge> K. T \<le> steadyNs env k)"

text \<open>
  An operation returns when from some number of iterations on it ends, and in the same way for
  every larger number.
\<close>

definition returns :: "(nat \<Rightarrow> (alloc, 'a outcome) state) \<Rightarrow> alloc \<Rightarrow> bool" where
  "returns m a = (\<exists>r b F. r \<noteq> NoFuel \<and> (\<forall>fuel \<ge> F. run_state (m fuel) a = (r, b)))"

text \<open>The timeout that applies is finite.\<close>

definition timed :: "u32 \<Rightarrow> alloc \<Rightarrow> bool" where
  "timed t a = (effective_timeout a t \<noteq> INFINITE)"

lemma tick_poll [simp]: "tick (poll env ms a) = Suc (tick a)"
  by (simp add: poll_def)

lemma tick_upd_slot [simp]: "tick (upd_slot i f a) = tick a"
  by (simp add: upd_slot_def)

lemma elapsed_reached:
  assumes "clock_advances env"
  shows "\<exists>K. \<forall>k \<ge> K. T \<le> elapsed_ms start (steadyNs env k)"
proof -
  obtain K where "\<forall>k \<ge> K. start + T * 1000000 \<le> steadyNs env k"
    using assms unfolding clock_advances_def by blast
  then have "\<forall>k \<ge> K. T * 1000000 \<le> steadyNs env k - start"
    by auto
  then show ?thesis
    unfolding elapsed_ms_def by (metis div_le_mono nonzero_mult_div_cancel_right zero_neq_numeral)
qed

section \<open>Waiting for a response\<close>

lemma resp_sleep_loop_returns:
  assumes "t \<noteq> INFINITE" and "\<And>k. K \<le> k \<Longrightarrow> unat t \<le> elapsed_ms start (steadyNs env k)"
    and "K - tick a < fuel"
  shows "fst (run_state (resp_sleep_loop fuel env i t start) a) \<noteq> NoFuel"
  using assms(3)
proof (induction fuel arbitrary: a)
  case 0
  then show ?case by simp
next
  case (Suc fuel)
  show ?case
  proof (cases "K \<le> Suc (tick a)")
    case True
    then show ?thesis
      using assms(1) assms(2) [OF True] by (simp add: checkReady_def load_def Let_def)
  next
    case False
    have IH: "fst (run_state (resp_sleep_loop fuel env i t start) b) \<noteq> NoFuel"
      if "tick b = Suc (Suc (tick a))" for b
      using Suc.IH [of b] that Suc.prems False by simp
    show ?thesis
      using assms(1) by (simp add: checkReady_def load_def wait_event_def Let_def IH split: prod.split)
  qed
qed

section \<open>Waiting for a specific slot\<close>

lemma tick_tryClaimSlot: "run_state (tryClaimSlot env i) a = (x, b) \<Longrightarrow> tick a < tick b"
  by (auto simp: tryClaimSlot_def load_def store_def cas_state_def cas_gen_def stamp_lease_def Let_def
      split: if_splits)

text \<open>
  Once the start of the wait is known, the number of iterations is bounded by the time left
  plus the retries up to the next look at the clock.
\<close>

lemma specific_loop_returns_started:
  assumes "t \<noteq> INFINITE" and "\<And>k. K \<le> k \<Longrightarrow> unat t \<le> elapsed_ms start (steadyNs env k)"
    and "retries \<le> 1000"
    and "(if K \<le> tick a then 1001 - retries else (K - tick a) + 1001) < fuel"
  shows "fst (run_state (specific_loop fuel env i t retries (Some start)) a) \<noteq> NoFuel"
  using assms(3,4)
proof (induction fuel arbitrary: a retries)
  case 0
  then show ?case by simp
next
  case (Suc fuel)
  obtain ok b where run: "run_state (tryClaimSlot env i) a = (ok, b)"
    by fastforce
  then have tick: "tick a < tick b"
    by (rule tick_tryClaimSlot)
  show ?case
  proof (cases "K \<le> tick b")
    case True
    then have "retries + 1 \<le> 1000 \<Longrightarrow>
        fst (run_state (specific_loop fuel env i t (Suc retries) (Some start)) b) \<noteq> NoFuel"
      using Suc.IH [of "Suc retries" b] Suc.prems tick by (auto split: if_splits)
    then show ?thesis
      using run assms(1) assms(2) [OF True] by (simp add: Let_def)
  next
    case False
    then have "r \<le> 1000 \<Longrightarrow> fst (run_state (specific_loop fuel env i t r (Some start)) b) \<noteq> NoFuel" for r
      using Suc.IH [of r b] Suc.prems tick by (auto split: if_splits)
    then show ?thesis
      using run assms(1) Suc.prems(1) by (simp add: Let_def)
  qed
qed

lemma specific_loop_returns:
  assumes "clock_advances env" and "t \<noteq> INFINITE" and "retries \<le> 1000"
  shows "\<exists>F. fst (run_state (specific_loop F env i t retries None) a) \<noteq> NoFuel"
  using assms(3)
proof (induction "1000 - retries" arbitrary: retries a)
  case (0 retries a)
  obtain ok b where run: "run_state (tryClaimSlot env i) a = (ok, b)"
    by fastforce
  obtain K where K: "\<And>k. K \<le> k \<Longrightarrow> unat t \<le> elapsed_ms (steadyNs env (tick b)) (steadyNs env k)"
    using elapsed_reached [OF assms(1)] by blast
  have "fst (run_state (specific_loop (K + 2000) env i t 0 (Some (steadyNs env (tick b)))) b) \<noteq> NoFuel"
    by (rule specific_loop_returns_started [OF assms(2), where K = K], erule K) auto
  then have "fst (run_state (specific_loop (Suc (K + 2000)) env i t retries None) a) \<noteq> NoFuel"
    using run 0 assms(2) unfolding specific_loop.simps(2) by (simp add: Let_def)
  then show ?case
    by blast
next
  case (Suc m retries a)
  obtain ok b where run: "run_state (tryClaimSlot env i) a = (ok, b)"
    by fastforce
  have m: "m = 1000 - Suc retries" "Suc retries \<le> 1000"
    using Suc.hyps(2) by auto
  obtain F where F: "fst (run_state (specific_loop F env i t (Suc retries) None) b) \<noteq> NoFuel"
    using Suc.hyps(1) [OF m, of b] by blast
  have "fst (run_state (specific_loop (Suc F) env i t retries None) a) \<noteq> NoFuel"
    using F run m(2) by simp
  then show ?case
    by blast
qed

section \<open>More iterations change nothing\<close>

definition extends :: "('s, 'a outcome) state \<Rightarrow> ('s, 'a outcome) state \<Rightarrow> bool" where
  "extends m n = (\<forall>a. fst (run_state m a) \<noteq> NoFuel \<longrightarrow> run_state n a = run_state m a)"

lemma extends_refl: "extends m m"
  by (simp add: extends_def)

lemma extends_none: "extends (ret NoFuel) n"
  by (simp add: extends_def)

lemma extends_bind: "(\<And>x. extends (f x) (g x)) \<Longrightarrow> extends (m \<bind> f) (m \<bind> g)"
  by (simp add: extends_def split: prod.splits)

lemma extends_if: "extends m m' \<Longrightarrow> extends n n' \<Longrightarrow> extends (if c then m else n) (if c then m' else n')"
  by simp

lemmas extends_rules = extends_bind extends_if extends_refl

lemma resp_sleep_loop_extends: "extends (resp_sleep_loop fuel env i t start) (resp_sleep_loop (Suc fuel) env i t start)"
proof (induction fuel)
  case 0
  show ?case by (simp only: resp_sleep_loop.simps(1) extends_none)
next
  case (Suc fuel)
  show ?case
    by (subst (1 2) resp_sleep_loop.simps(2), unfold Let_def) (intro extends_rules Suc.IH)
qed

lemma specific_loop_extends:
  "extends (specific_loop fuel env i t retries start) (specific_loop (Suc fuel) env i t retries start)"
proof (induction fuel arbitrary: retries start)
  case 0
  show ?case by (simp only: specific_loop.simps(1) extends_none)
next
  case (Suc fuel)
  show ?case
    by (subst (1 2) specific_loop.simps(2), unfold Let_def) (intro extends_rules Suc.IH)
qed

section \<open>Operations that end\<close>

text \<open>An operation ends when it returns from every state with \<open>I\<close>, in a state with \<open>I\<close>.\<close>

definition ends :: "(alloc \<Rightarrow> bool) \<Rightarrow> (nat \<Rightarrow> (alloc, 'a outcome) state) \<Rightarrow> bool" where
  "ends I m = (\<forall>a. I a \<longrightarrow> (\<exists>r b F. r \<noteq> NoFuel \<and> I b \<and> (\<forall>fuel \<ge> F. run_state (m fuel) a = (r, b))))"

definition kept :: "(alloc \<Rightarrow> bool) \<Rightarrow> (alloc, 'a) state \<Rightarrow> bool" where
  "kept I p = (\<forall>a. I a \<longrightarrow> I (snd (run_state p a)))"

named_theorems kept_rules \<open>accesses that keep an assertion\<close>

lemma ends_returns: "ends I m \<Longrightarrow> I a \<Longrightarrow> returns m a"
  unfolding ends_def returns_def by blast

lemma ends_ret: "x \<noteq> NoFuel \<Longrightarrow> ends I (\<lambda>fuel. ret x)"
  by (auto simp: ends_def)

lemma ends_bind:
  assumes "kept I p" and "\<And>x. ends I (m x)"
  shows "ends I (\<lambda>fuel. p \<bind> (\<lambda>x. m x fuel))"
  unfolding ends_def
proof (intro allI impI)
  fix a
  assume "I a"
  obtain x b where "run_state p a = (x, b)"
    by (cases "run_state p a")
  moreover from this have "I b"
    using assms(1) \<open>I a\<close> unfolding kept_def by fastforce
  ultimately show "\<exists>r b F. r \<noteq> NoFuel \<and> I b \<and> (\<forall>fuel \<ge> F. run_state (p \<bind> (\<lambda>x. m x fuel)) a = (r, b))"
    using assms(2) [of x] by (auto simp: ends_def)
qed

lemma ends_obind:
  assumes "ends I m" and "\<And>x. ends I (f x)"
  shows "ends I (\<lambda>fuel. obind (m fuel) (\<lambda>x. f x fuel))"
  unfolding ends_def
proof (intro allI impI)
  fix a
  assume "I a"
  then obtain r b F where r: "r \<noteq> NoFuel" "I b" "\<And>fuel. F \<le> fuel \<Longrightarrow> run_state (m fuel) a = (r, b)"
    using assms(1) unfolding ends_def by blast
  show "\<exists>r b F. r \<noteq> NoFuel \<and> I b \<and> (\<forall>fuel \<ge> F. run_state (obind (m fuel) (\<lambda>x. f x fuel)) a = (r, b))"
  proof (cases r)
    case (Ret x)
    obtain r' b' F' where "r' \<noteq> NoFuel" "I b'" "\<And>fuel. F' \<le> fuel \<Longrightarrow> run_state (f x fuel) b = (r', b')"
      using assms(2) [of x] r(2) unfolding ends_def by blast
    then show ?thesis
      using r(3) Ret by (intro exI [of _ r'] exI [of _ b'] exI [of _ "max F F'"]) (simp add: obind_def)
  next
    case Trap
    then show ?thesis
      using r by (intro exI [of _ Trap] exI [of _ b] exI [of _ F]) (simp add: obind_def)
  qed (use r(1) in simp)
qed

lemma ends_if:
  "(c \<Longrightarrow> ends I m) \<Longrightarrow> (\<not> c \<Longrightarrow> ends I n) \<Longrightarrow> ends I (\<lambda>fuel. if c then m fuel else n fuel)"
  by (cases c) simp_all

lemma ends_case_option:
  "ends I m \<Longrightarrow> (\<And>x. ends I (f x)) \<Longrightarrow> ends I (\<lambda>fuel. case v of None \<Rightarrow> m fuel | Some x \<Rightarrow> f x fuel)"
  by (cases v) simp_all

lemma ends_loop:
  assumes "\<And>a. \<exists>F. fst (run_state (m F) a) \<noteq> NoFuel" and "\<And>fuel. extends (m fuel) (m (Suc fuel))"
    and "\<And>fuel. kept I (m fuel)"
  shows "ends I m"
  unfolding ends_def
proof (intro allI impI)
  fix a
  assume "I a"
  obtain F r b where F: "run_state (m F) a = (r, b)" "r \<noteq> NoFuel"
    using assms(1) by (metis prod.collapse)
  have eq: "run_state (m fuel) a = (r, b)" if "F \<le> fuel" for fuel
    using that
  proof (induction fuel rule: dec_induct)
    case (step n)
    then show ?case
      using assms(2) [of n] F(2) by (simp add: extends_def)
  qed (rule F(1))
  have "I b"
    using assms(3) [of F] \<open>I a\<close> F(1) unfolding kept_def by fastforce
  then show "\<exists>r b F. r \<noteq> NoFuel \<and> I b \<and> (\<forall>fuel \<ge> F. run_state (m fuel) a = (r, b))"
    using F(2) eq by blast
qed

lemma kept_ret [kept_rules]: "kept I (ret x)"
  by (simp add: kept_def)

lemma kept_gets [kept_rules]: "kept I (gets f)"
  by (simp add: kept_def)

lemma kept_bind [kept_rules]: "kept I p \<Longrightarrow> (\<And>x. kept I (f x)) \<Longrightarrow> kept I (p \<bind> f)"
  by (simp add: kept_def case_prod_unfold)

lemma kept_if [kept_rules]: "kept I p \<Longrightarrow> kept I q \<Longrightarrow> kept I (if c then p else q)"
  by simp

lemma timed_updates [simp]:
  "timed t (upd_slot i f a) = timed t a" "timed t (a\<lparr>tick := k\<rparr>) = timed t a" "timed t (a\<lparr>events := ev\<rparr>) = timed t a"
  by (simp_all add: timed_def upd_slot_def effective_timeout_def)

lemma kept_timed_slot [kept_rules]: "kept (timed t) (modify (upd_slot i f))"
  by (simp add: kept_def)

text \<open>Time passes, and the others do not replace a finite timeout by an infinite one.\<close>

locale timed_env =
  fixes env :: env and t :: u32
  assumes clock: "clock_advances env" and keeps: "timed t a \<Longrightarrow> timed t (interference env k ms a)"
begin

lemma timed_poll: "timed t a \<Longrightarrow> timed t (poll env ms a)"
  using keeps by (simp add: poll_def)

lemma kept_load [kept_rules]: "kept (timed t) (load env i f)"
  by (simp add: kept_def load_def Let_def timed_poll)

lemma kept_store [kept_rules]: "kept (timed t) (store env i f)"
  by (simp add: kept_def store_def timed_poll)

lemma kept_cas_state [kept_rules]: "kept (timed t) (cas_state env i x y)"
  by (simp add: kept_def cas_state_def Let_def timed_poll)

lemma kept_cas_gen [kept_rules]: "kept (timed t) (cas_gen env i x y)"
  by (simp add: kept_def cas_gen_def Let_def timed_poll)

lemma kept_signal [kept_rules]: "kept (timed t) (signal env h)"
  by (simp add: kept_def signal_def timed_poll)

lemma kept_wait_event [kept_rules]: "kept (timed t) (wait_event env h ms)"
  by (simp add: kept_def wait_event_def timed_poll Let_def split: prod.splits)

lemma kept_checkReady [kept_rules]: "kept (timed t) (checkReady env i)"
  unfolding checkReady_def by (intro kept_rules)

lemma kept_spin [kept_rules]: "kept (timed t) (spin n (checkReady env i))"
  by (induction n) (auto intro!: kept_rules)

lemma kept_tryClaimSlot [kept_rules]: "kept (timed t) (tryClaimSlot env i)"
  unfolding tryClaimSlot_def stamp_lease_def by (intro kept_rules)

lemma kept_resp_sleep_loop: "kept (timed t) (resp_sleep_loop fuel env i t' start)"
proof (induction fuel)
  case (Suc fuel)
  show ?case
    unfolding resp_sleep_loop.simps Let_def by (intro kept_rules Suc.IH)
qed (simp add: kept_ret)

lemma kept_specific_loop: "kept (timed t) (specific_loop fuel env i t' retries start)"
proof (induction fuel arbitrary: retries start)
  case (Suc fuel)
  show ?case
    unfolding specific_loop.simps Let_def by (intro kept_rules Suc.IH)
qed (simp add: kept_ret)

lemma kept_publish [kept_rules]: "kept (timed t) (publish_request env i)"
  unfolding publish_request_def by (intro kept_rules)

lemma kept_write [kept_rules]: "kept (timed t) (write_request env i sz mt)"
  unfolding write_request_def by (intro kept_rules)

lemma kept_FinishWait [kept_rules]: "kept (timed t) (FinishWait env i ready)"
  unfolding FinishWait_def by (intro kept_rules)

lemma kept_stamp [kept_rules]: "kept (timed t) (stamp_lease env i)"
  unfolding stamp_lease_def by (intro kept_rules)

lemmas ends_rules = ends_bind ends_obind ends_if ends_case_option ends_ret

text \<open>The timeout is read from a timed state, so the wait that follows has a finite one.\<close>

lemma ends_timeout:
  "(\<And>t'. t' \<noteq> INFINITE \<Longrightarrow> ends (timed t) (m t')) \<Longrightarrow>
    ends (timed t) (\<lambda>fuel. gets (\<lambda>a. effective_timeout a t) \<bind> (\<lambda>x. m x fuel))"
  by (simp add: ends_def timed_def)

lemma ends_resp_sleep_loop:
  assumes "t' \<noteq> INFINITE"
  shows "ends (timed t) (\<lambda>fuel. resp_sleep_loop fuel env i t' start)"
proof (rule ends_loop)
  fix a
  obtain K where K: "\<And>k. K \<le> k \<Longrightarrow> unat t' \<le> elapsed_ms start (steadyNs env k)"
    using elapsed_reached [OF clock] by blast
  show "\<exists>F. fst (run_state (resp_sleep_loop F env i t' start) a) \<noteq> NoFuel"
    by (rule exI [of _ "Suc (K - tick a)"], rule resp_sleep_loop_returns [OF assms K]) auto
qed (rule resp_sleep_loop_extends kept_resp_sleep_loop)+

lemma ends_specific_loop:
  assumes "t' \<noteq> INFINITE"
  shows "ends (timed t) (\<lambda>fuel. specific_loop fuel env i t' 0 None)"
proof (rule ends_loop)
  show "\<exists>F. fst (run_state (specific_loop F env i t' 0 None) a) \<noteq> NoFuel" for a
    by (rule specific_loop_returns [OF clock assms]) simp
qed (rule specific_loop_extends kept_specific_loop)+

lemma ends_WaitForRespReady:
  assumes "t' \<noteq> INFINITE"
  shows "ends (timed t) (\<lambda>fuel. WaitForRespReady fuel env i t')"
  unfolding WaitForRespReady_def Wait_def resp_sleepAction_def
  by (intro ends_rules ends_resp_sleep_loop [OF assms] kept_rules) simp_all

lemma ends_WaitResponse:
  assumes "t' \<noteq> INFINITE"
  shows "ends (timed t) (\<lambda>fuel. WaitResponse fuel env i t')"
  unfolding WaitResponse_def by (intro ends_rules ends_WaitForRespReady [OF assms] kept_rules) simp

lemma ends_consume: "ends (timed t) (\<lambda>fuel. consume_response env i sq release out)"
  unfolding consume_response_def by (intro ends_rules kept_rules) simp_all

lemma ends_AcquireSpecificSlot: "ends (timed t) (\<lambda>fuel. AcquireSpecificSlot fuel env slotIdx t)"
  unfolding AcquireSpecificSlot_def
  by (intro ends_timeout ends_rules ends_specific_loop kept_rules) simp_all

lemma ends_SendAcquired: "ends (timed t) (\<lambda>fuel. SendAcquired fuel env slotIdx sz mt out t)"
  unfolding SendAcquired_def Let_def
  by (intro ends_timeout ends_rules ends_WaitResponse ends_consume kept_rules) simp_all

lemma ends_SendHeld: "ends (timed t) (\<lambda>fuel. SendHeld fuel env slotIdx sz mt out t)"
  unfolding SendHeld_def Let_def
  by (intro ends_timeout ends_rules ends_WaitForRespReady ends_consume kept_rules) simp_all

lemma ends_WaitForSlot: "ends (timed t) (\<lambda>fuel. WaitForSlot fuel env slotIdx out t)"
  unfolding WaitForSlot_def Let_def
  by (intro ends_timeout ends_rules ends_WaitForRespReady ends_consume kept_rules) simp_all

lemma ends_SendToSlot: "ends (timed t) (\<lambda>fuel. SendToSlot fuel env idx data sz mt out t)"
  unfolding SendToSlot_def fill_request_def GetMaxReqSize_def Let_def
  by (intro ends_rules ends_AcquireSpecificSlot ends_SendAcquired kept_rules) simp_all

lemma ends_zc_transact: "ends (timed t) (\<lambda>fuel. zc_transact fuel env z sz mt t)"
  unfolding zc_transact_def Let_def
  by (intro ends_timeout ends_rules ends_WaitResponse kept_rules) simp_all

lemma ends_zc_Send: "ends (timed t) (\<lambda>fuel. zc_Send fuel env h z sz mt t)"
  unfolding zc_Send_def by (intro ends_rules ends_zc_transact kept_rules) simp_all

lemma ends_zc_SendFlatBuffer: "ends (timed t) (\<lambda>fuel. zc_SendFlatBuffer fuel env h z sz t)"
  unfolding zc_SendFlatBuffer_def by (intro ends_rules ends_zc_transact kept_rules) simp_all

lemma ends_held_Send: "ends (timed t) (\<lambda>fuel. held_Send fuel env h z sz mt out t)"
  unfolding held_Send_def case_prod_unfold by (intro ends_rules ends_SendHeld kept_rules) simp_all

end

lemma finite_timeout_env:
  assumes "clock_advances env"
    and "t \<noteq> USE_DEFAULT_TIMEOUT \<or> (\<forall>k ms b. responseTimeoutMs (interference env k ms b) = responseTimeoutMs b)"
  shows "timed_env env t"
  using assms by unfold_locales (auto simp: timed_def effective_timeout_def)

interpretation hostile_time: timed_env hostile_env t for t
proof (rule finite_timeout_env)
  show "clock_advances hostile_env"
    unfolding clock_advances_def
  proof
    fix T
    show "\<exists>K. \<forall>k \<ge> K. T \<le> steadyNs hostile_env k"
      by (rule exI [of _ T]) (auto simp: hostile_env_def guest_env_def)
  qed
qed (simp add: hostile_env_def)

lemma ends_shutdown_loop:
  "timed_env env 1000 \<Longrightarrow> ends (timed 1000) (\<lambda>fuel. shutdown_loop k fuel env i)"
proof (induction k arbitrary: i)
  case (Suc k)
  show ?case
    unfolding shutdown_loop.simps
    by (intro ends_obind timed_env.ends_SendToSlot [OF Suc.prems] Suc.IH [OF Suc.prems])
qed (simp add: ends_ret)

lemma SendShutdown_returns:
  assumes "clock_advances env"
  shows "returns (\<lambda>fuel. SendShutdown fuel env) a"
proof -
  have env: "timed_env env 1000" and a: "timed 1000 a"
    using assms by (simp_all add: finite_timeout_env timed_def effective_timeout_def USE_DEFAULT_TIMEOUT_def INFINITE_def)
  have "ends (timed 1000) (\<lambda>fuel. SendShutdown fuel env)"
    unfolding SendShutdown_def by (intro ends_bind ends_if ends_ret ends_shutdown_loop [OF env] kept_gets) simp
  then show ?thesis
    using a by (rule ends_returns)
qed

text \<open>
  C21. The calls that wait with a timeout return. Whatever the other threads, the guest and the
  kernel do to the slots, lost wake-ups included, as long as the steady clock advances the
  following end after finitely many iterations, with a result that does not depend on how many
  more they are given: \<open>SendAcquired\<close>, \<open>SendHeld\<close>, \<open>WaitForSlot\<close>, \<open>AcquireSpecificSlot\<close> and
  \<open>SendToSlot\<close>, \<open>Send\<close> and \<open>SendFlatBuffer\<close> of a \<open>ZeroCopySlot\<close> and \<open>Send\<close> of a \<open>HeldSlot\<close>, for every
  explicit timeout, and for \<open>USE_DEFAULT_TIMEOUT\<close> when the response timeout of the host is not
  infinite and is left alone; and \<open>SendShutdown\<close>. \<open>AcquireSlot\<close>, and with it \<open>Send\<close> of the host, is
  not among them: it takes no timeout for the acquisition.
\<close>

theorem blocking_calls_return:
  assumes "clock_advances env"
    and "t \<noteq> USE_DEFAULT_TIMEOUT \<or> responseTimeoutMs a \<noteq> INFINITE \<and>
      (\<forall>k ms b. responseTimeoutMs (interference env k ms b) = responseTimeoutMs b)"
  shows "returns (\<lambda>fuel. SendAcquired fuel env slotIdx sz mt out t) a \<and>
    returns (\<lambda>fuel. SendHeld fuel env slotIdx sz mt out t) a \<and>
    returns (\<lambda>fuel. WaitForSlot fuel env slotIdx out t) a \<and>
    returns (\<lambda>fuel. AcquireSpecificSlot fuel env slotIdx t) a \<and>
    returns (\<lambda>fuel. SendToSlot fuel env idx data sz mt out t) a \<and>
    returns (\<lambda>fuel. zc_Send fuel env h z sz mt t) a \<and>
    returns (\<lambda>fuel. zc_SendFlatBuffer fuel env h z sz t) a \<and>
    returns (\<lambda>fuel. held_Send fuel env h z sz mt out t) a \<and>
    returns (\<lambda>fuel. SendShutdown fuel env) a"
proof -
  have env: "timed_env env t"
    using finite_timeout_env assms by blast
  have a: "timed t a"
    using assms(2) by (auto simp: timed_def effective_timeout_def USE_DEFAULT_TIMEOUT_def INFINITE_def)
  show ?thesis
    by (intro conjI ends_returns [where I = "timed t" and a = a, OF _ a] SendShutdown_returns [OF assms(1)]
        timed_env.ends_SendAcquired [OF env] timed_env.ends_SendHeld [OF env] timed_env.ends_WaitForSlot [OF env]
        timed_env.ends_AcquireSpecificSlot [OF env] timed_env.ends_SendToSlot [OF env] timed_env.ends_zc_Send [OF env]
        timed_env.ends_zc_SendFlatBuffer [OF env] timed_env.ends_held_Send [OF env])
qed

text \<open>The default timeout, against a peer that spoils the slots at every access.\<close>

theorem blocking_calls_return_witness:
  "responseTimeoutMs demo_alloc \<noteq> INFINITE \<and>
   returns (\<lambda>fuel. SendToSlot fuel hostile_env 0 (Some [1, 2, 3]) 3 NORMAL [] USE_DEFAULT_TIMEOUT) demo_alloc \<and>
   returns (\<lambda>fuel. zc_Send fuel hostile_env DirectHost (make_wrapper DirectHost 0) 3 NORMAL USE_DEFAULT_TIMEOUT) demo_alloc"
proof -
  have "responseTimeoutMs demo_alloc \<noteq> INFINITE"
    "\<forall>k ms b. responseTimeoutMs (interference hostile_env k ms b) = responseTimeoutMs b"
    by (simp_all add: demo_alloc_def INFINITE_def hostile_env_def)
  then show ?thesis
    using blocking_calls_return [OF hostile_time.clock, of USE_DEFAULT_TIMEOUT demo_alloc] by blast
qed

section \<open>A pool that stays full\<close>

text \<open>
  On an undisturbed pool in which no slot can be claimed, and without automatic reclamation,
  \<open>AcquireSlot\<close> does not return: no number of iterations is enough.
\<close>

lemma acquire_loop_full:
  assumes "solo env" and "autoReclaimTimeoutNs a = 0" and "unat (numSlots a) \<le> length (slots a)"
    and "\<And>i. i < unat (numSlots a) \<Longrightarrow> \<not> claimable (slots a ! i)" and "idx < numSlots a"
  shows "fst (run_state (acquire_loop fuel env idx) a) = NoFuel"
  using assms(2-)
proof (induction fuel arbitrary: idx a)
  case (Suc fuel)
  have i: "unat idx < unat (numSlots a)" "unat idx < length (slots a)"
    using Suc.prems(2,4) by (simp_all add: word_less_nat_alt)
  obtain k where run: "run_state (tryClaimSlot env (unat idx)) a = (False, a\<lparr>tick := k\<rparr>)"
    using run_tryClaimSlot [OF assms(1) i(2)] Suc.prems(3) [OF i(1)] by auto
  have "fst (run_state (acquire_loop fuel env j) (a\<lparr>tick := k\<rparr>)) = NoFuel" if "j < numSlots a" for j
    by (rule Suc.IH) (use Suc.prems that in simp_all)
  moreover have "0 < numSlots a"
    using Suc.prems(4) by (metis word_gt_0 word_not_simps(1))
  ultimately show ?case
    using run Suc.prems(1) by (simp add: not_le)
qed simp

lemma acquire_slot_blocks_on_full_pool:
  assumes "solo env" and "running a" and "autoReclaimTimeoutNs a = 0" and "unat (numSlots a) \<le> length (slots a)"
    and "0 < numSlots a" and "\<And>i. i < unat (numSlots a) \<Longrightarrow> \<not> claimable (slots a ! i)"
  shows "fst (run_state (AcquireSlot fuel env) a) = NoFuel"
proof -
  have loop: "fst (run_state (acquire_loop fuel env (n mod numSlots a)) (a\<lparr>tick := k, nextSlot := m\<rparr>)) = NoFuel" for n k m
    by (rule acquire_loop_full [OF assms(1)]) (use assms in \<open>simp_all add: word_mod_less_divisor\<close>)
  have slow: "fst (run_state (fetch_next env \<bind> (\<lambda>nxt. acquire_loop fuel env (nxt mod numSlots a))) (a\<lparr>tick := k\<rparr>)) = NoFuel" for k
    using loop by (simp add: fetch_next_def poll_solo [OF assms(1)] Let_def)
  have nz: "numSlots a \<noteq> 0"
    using assms(5) by auto
  show ?thesis
  proof (cases "cachedSlotIdx a < numSlots a")
    case True
    then have i: "unat (cachedSlotIdx a) < unat (numSlots a)" "unat (cachedSlotIdx a) < length (slots a)"
      using assms(4) by (simp_all add: word_less_nat_alt)
    obtain k where "run_state (tryClaimSlot env (unat (cachedSlotIdx a))) a = (False, a\<lparr>tick := k\<rparr>)"
      using run_tryClaimSlot [OF assms(1) i(2)] assms(6) [OF i(1)] by auto
    then show ?thesis
      using True assms(2) nz slow by (simp add: AcquireSlot_def)
  next
    case False
    then show ?thesis
      using assms(2) nz slow [of "tick a"] by (simp add: AcquireSlot_def)
  qed
qed

end
