(* ===== verification/Shm_Reassembler.thy ===== *)
theory Shm_Reassembler
  imports Shm_Layout "HOL-Library.AList"
begin

text \<open>
  \<open>src/include/shm/StreamReassembler.h\<close>: reassembly of chunked streams on the receiving
  side. Every byte of a message comes from the peer process. A message is handled inside
  one critical section of \<open>streamsMutex\<close>, so the operations are functions on the state of
  the reassembler; the calls of \<open>onStream\<close> are logged. An access outside the destination
  buffer makes an operation return \<open>None\<close>.
\<close>

section \<open>Configuration\<close>

definition kMaxStreamSize :: u64 where
  "kMaxStreamSize = push_bit 30 1"

record reassembler_config =
  maxStreamSize :: u64
  maxStreamChunks :: u64
  maxStreams :: u64
  maxParkedChunks :: u64
  streamTimeoutMs :: u32

definition default_config :: reassembler_config where
  "default_config = \<lparr>maxStreamSize = kMaxStreamSize, maxStreamChunks = push_bit 20 1,
     maxStreams = 1024, maxParkedChunks = 1024, streamTimeoutMs = 10000\<rparr>"

definition IsValid :: "reassembler_config \<Rightarrow> bool" where
  "IsValid cfg = (maxStreamSize cfg \<le> kMaxStreamSize)"

section \<open>The state of one stream\<close>

record Placed =
  p_dstOffset :: u64
  p_size :: u32

text \<open>The \<open>unordered_map\<close>s are association lists with distinct keys.\<close>

record StreamContext =
  c_totalSize :: u64
  c_totalChunks :: u32
  c_appMsgType :: u32
  c_next :: u32
  c_offset :: u64
  c_oooBytes :: u64
  c_buf :: "byte list"
  c_ooo :: "(u32 \<times> Placed) list"
  c_startTime :: nat

definition Fits :: "StreamContext \<Rightarrow> u32 \<Rightarrow> bool" where
  "Fits ctx n = (c_offset ctx + c_oooBytes ctx + ucast n \<le> c_totalSize ctx)"

definition InBounds :: "StreamContext \<Rightarrow> u64 \<Rightarrow> u32 \<Rightarrow> bool" where
  "InBounds ctx dstOffset n =
     (if dstOffset > c_totalSize ctx then False else ucast n \<le> c_totalSize ctx - dstOffset)"

definition WriteChunk :: "u64 \<Rightarrow> byte list \<Rightarrow> StreamContext \<Rightarrow> StreamContext option" where
  "WriteChunk dstOffset payload ctx =
     (if length payload > 0
      then map_option (\<lambda>b. ctx\<lparr>c_buf := b\<rparr>) (mem_write (unat dstOffset) payload (c_buf ctx))
      else Some ctx)"

definition AccountInOrder :: "u32 \<Rightarrow> StreamContext \<Rightarrow> StreamContext" where
  "AccountInOrder n ctx = ctx\<lparr>c_offset := c_offset ctx + ucast n, c_next := c_next ctx + 1\<rparr>"

text \<open>
  \<open>allocates n\<close> tells whether the allocator provides \<open>n\<close> bytes; where it does not, the
  container throws. Recording a chunk that cannot be stored is a failure like the others.
\<close>

definition NotePlaced ::
  "(nat \<Rightarrow> bool) \<Rightarrow> u32 \<Rightarrow> u64 \<Rightarrow> u32 \<Rightarrow> u64 \<Rightarrow> StreamContext \<Rightarrow> StreamContext option" where
  "NotePlaced allocates index dstOffset n maxParked ctx =
     (if length (c_ooo ctx) \<ge> unat maxParked then None
      else if \<not> allocates (sizeof 1 Placed_members) then None
      else Some (ctx\<lparr>
        c_ooo := (case map_of (c_ooo ctx) index of
            Some _ \<Rightarrow> c_ooo ctx
          | None \<Rightarrow> (index, \<lparr>p_dstOffset = dstOffset, p_size = n\<rparr>) # c_ooo ctx),
        c_oooBytes := c_oooBytes ctx + ucast n\<rparr>))"

lemma length_delete_less: "map_of ooo k = Some p \<Longrightarrow> length (AList.delete k ooo) < length ooo"
  by (induction ooo) (auto simp: AList.delete_eq less_Suc_eq_le)

text \<open>The \<open>while\<close> loop that drains the indices the cursor has caught up to.\<close>

function drain :: "StreamContext \<Rightarrow> StreamContext \<times> bool" where
  "drain ctx = (case map_of (c_ooo ctx) (c_next ctx) of
     None \<Rightarrow> (ctx, False)
   | Some p \<Rightarrow>
       (let ctx = ctx\<lparr>c_ooo := AList.delete (c_next ctx) (c_ooo ctx),
              c_oooBytes := c_oooBytes ctx - ucast (p_size p)\<rparr>
        in if p_dstOffset p \<noteq> c_offset ctx then (ctx, True)
           else drain (AccountInOrder (p_size p) ctx)))"
  by pat_completeness auto
termination
  by (relation "measure (length \<circ> c_ooo)") (auto simp: AccountInOrder_def length_delete_less)

declare drain.simps [simp del]

section \<open>The reassembler\<close>

record reassembler =
  r_streams :: "(u64 \<times> StreamContext) list"
  r_config :: reassembler_config
  r_delivered :: "(u64 \<times> u32 \<times> byte list) list"

definition StreamReassembler :: "reassembler_config \<Rightarrow> reassembler" where
  "StreamReassembler cfg = \<lparr>r_streams = [],
     r_config = (if \<not> IsValid cfg then cfg\<lparr>maxStreamSize := kMaxStreamSize\<rparr> else cfg),
     r_delivered = []\<rparr>"

text \<open>The constructor with the two-argument callback drops the tag of each delivery.\<close>

definition untyped_deliveries :: "reassembler \<Rightarrow> (u64 \<times> byte list) list" where
  "untyped_deliveries r = map (\<lambda>(streamId, _, data). (streamId, data)) (r_delivered r)"

definition Config :: "reassembler \<Rightarrow> reassembler_config" where
  "Config r = r_config r"

definition PruneInternal :: "nat \<Rightarrow> reassembler \<Rightarrow> reassembler" where
  "PruneInternal now r = r\<lparr>r_streams := filter (\<lambda>(_, ctx).
     \<not> elapsed_ms (c_startTime ctx) now > unat (streamTimeoutMs (r_config r))) (r_streams r)\<rparr>"

definition Prune :: "nat \<Rightarrow> reassembler \<Rightarrow> reassembler" where
  "Prune now r = PruneInternal now r"

record StreamSnapshot =
  s_totalSize :: u64
  s_totalChunks :: u32
  s_next :: u32
  s_offset :: u64
  s_oooBytes :: u64
  s_buf :: "byte list"
  s_placed :: "(u32 \<times> (u64 \<times> u32)) list"

definition PeekStream :: "u64 \<Rightarrow> reassembler \<Rightarrow> StreamSnapshot option" where
  "PeekStream streamId r = (case map_of (r_streams r) streamId of
     None \<Rightarrow> None
   | Some ctx \<Rightarrow> Some \<lparr>s_totalSize = c_totalSize ctx, s_totalChunks = c_totalChunks ctx,
       s_next = c_next ctx, s_offset = c_offset ctx, s_oooBytes = c_oooBytes ctx,
       s_buf = c_buf ctx,
       s_placed = map (\<lambda>(i, p). (i, (p_dstOffset p, p_size p))) (c_ooo ctx)\<rparr>)"

section \<open>Handling a message\<close>

text \<open>
  What a call reads from its surroundings: the steady clock, once for the prune and once
  for the new context, and the allocator.
\<close>

record call =
  nowPrune :: nat
  nowStart :: nat
  allocates :: "nat \<Rightarrow> bool"

text \<open>
  The outputs of \<open>Handle\<close>: the returned flag and the two reference parameters. Every
  reply sets \<open>respSize\<close> to zero.
\<close>

type_synonym reply = "bool \<times> nat \<times> MsgType"

abbreviation reply_ok :: reply where "reply_ok \<equiv> (True, 0, NORMAL)"
abbreviation reply_error :: reply where "reply_error \<equiv> (True, 0, SYSTEM_ERROR)"

definition deliver :: "u64 \<Rightarrow> u32 \<Rightarrow> byte list \<Rightarrow> reassembler \<Rightarrow> reassembler" where
  "deliver streamId appMsgType data r = r\<lparr>r_delivered := r_delivered r @ [(streamId, appMsgType, data)]\<rparr>"

definition new_context :: "StreamHeader \<Rightarrow> nat \<Rightarrow> StreamContext" where
  "new_context h now = \<lparr>c_totalSize = sh_totalSize h, c_totalChunks = sh_totalChunks h,
     c_appMsgType = sh_appMsgType h, c_next = 0, c_offset = 0, c_oooBytes = 0,
     c_buf = replicate (unat (sh_totalSize h)) 0, c_ooo = [], c_startTime = now\<rparr>"

definition handle_start :: "call \<Rightarrow> byte list \<Rightarrow> reassembler \<Rightarrow> reply \<times> reassembler" where
  "handle_start cl req r =
     (if length req < sizeof_StreamHeader then (reply_error, r)
      else let h = get_StreamHeader req in
        if sh_totalSize h > maxStreamSize (r_config r) \<or>
           ucast (sh_totalChunks h) > maxStreamChunks (r_config r) then (reply_error, r)
        else if sh_totalChunks h = 0 then
          (if sh_totalSize h \<noteq> 0 then (reply_error, r)
           else (reply_ok, deliver (sh_streamId h) (sh_appMsgType h) [] r))
        else let r = PruneInternal (nowPrune cl) r in
          if length (r_streams r) \<ge> unat (maxStreams (r_config r)) then (reply_error, r)
          else if \<not> allocates cl (unat (sh_totalSize h)) then (reply_error, r)
          else (reply_ok, r\<lparr>r_streams :=
            AList.update (sh_streamId h) (new_context h (nowStart cl)) (r_streams r)\<rparr>))"

text \<open>
  The \<open>try\<close> block of the chunk branch: the context after the chunk and the \<open>corrupt\<close> flag.
\<close>

definition place_chunk ::
  "call \<Rightarrow> u64 \<Rightarrow> ChunkHeader \<Rightarrow> byte list \<Rightarrow> StreamContext \<Rightarrow> (StreamContext \<times> bool) option" where
  "place_chunk cl maxParked h payload ctx =
     (if \<not> Fits ctx (ch_payloadSize h) \<or> \<not> InBounds ctx (ucast (ch_dstOffset h)) (ch_payloadSize h)
      then Some (ctx, True)
      else Option.bind (WriteChunk (ucast (ch_dstOffset h)) payload ctx) (\<lambda>ctx.
        if ch_chunkIndex h = c_next ctx then
          (if ucast (ch_dstOffset h) \<noteq> c_offset ctx then Some (ctx, True)
           else Some (drain (AccountInOrder (ch_payloadSize h) ctx)))
        else (case NotePlaced (allocates cl) (ch_chunkIndex h) (ucast (ch_dstOffset h))
                     (ch_payloadSize h) maxParked ctx of
            None \<Rightarrow> Some (ctx, True)
          | Some ctx \<Rightarrow> Some (ctx, False))))"

text \<open>Completion, drop or bookkeeping after a chunk.\<close>

definition finish_chunk :: "u64 \<Rightarrow> StreamContext \<times> bool \<Rightarrow> reassembler \<Rightarrow> reply \<times> reassembler" where
  "finish_chunk streamId result r = (case result of (ctx, corrupt) \<Rightarrow>
     let dropped = r\<lparr>r_streams := AList.delete streamId (r_streams r)\<rparr>
     in if \<not> corrupt \<and> c_next ctx = c_totalChunks ctx then
          (if c_offset ctx = c_totalSize ctx
           then (reply_ok, deliver streamId (c_appMsgType ctx) (c_buf ctx) dropped)
           else (reply_error, dropped))
        else if corrupt then (reply_error, dropped)
        else (reply_ok, r\<lparr>r_streams := AList.update streamId ctx (r_streams r)\<rparr>))"

definition handle_chunk :: "call \<Rightarrow> byte list \<Rightarrow> reassembler \<Rightarrow> (reply \<times> reassembler) option" where
  "handle_chunk cl req r =
     (if length req < sizeof_ChunkHeader then Some (reply_error, r)
      else let h = get_ChunkHeader req in
        if length req < sizeof_ChunkHeader + unat (ch_payloadSize h) then Some (reply_error, r)
        else (case map_of (r_streams r) (ch_streamId h) of
          None \<Rightarrow> Some (reply_error, r)
        | Some ctx \<Rightarrow>
            if ch_chunkIndex h \<ge> c_totalChunks ctx then Some (reply_error, r)
            else if ch_chunkIndex h < c_next ctx \<or> map_of (c_ooo ctx) (ch_chunkIndex h) \<noteq> None
            then Some (reply_ok, r)
            else Option.bind (mem_read sizeof_ChunkHeader (unat (ch_payloadSize h)) req) (\<lambda>payload.
              map_option (\<lambda>result. finish_chunk (ch_streamId h) result r)
                (place_chunk cl (maxParkedChunks (r_config r)) h payload ctx))))"

text \<open>
  \<open>Handle\<close> works on one value of the request. The source reads the fields of the header through a
  pointer into the buffer it is given, some of them again after they were checked: the model is
  that of a buffer nobody changes during the call.
\<close>

definition Handle ::
  "call \<Rightarrow> byte list \<Rightarrow> nat \<Rightarrow> MsgType \<Rightarrow> reassembler \<Rightarrow> (reply \<times> reassembler) option" where
  "Handle cl req respSize msgType r =
     (if msgType = STREAM_START then Some (handle_start cl req r)
      else if msgType = STREAM_CHUNK then handle_chunk cl req r
      else Some ((False, respSize, msgType), r))"

end
