(* ===== verification/Shm_Reassembler_Inv.thy ===== *)
theory Shm_Reassembler_Inv
  imports Shm_Reassembler
begin

text \<open>
  The state of a stream explained by the chunks accepted so far. The chunks are a ghost
  list of index, destination and payload in the order of their arrival.
\<close>

section \<open>Accepted chunks\<close>

type_synonym chunks = "(nat \<times> nat \<times> byte list) list"

definition len :: "chunks \<Rightarrow> nat \<Rightarrow> nat" where
  "len L i = (case map_of L i of None \<Rightarrow> 0 | Some (_, p) \<Rightarrow> length p)"

definition payload :: "chunks \<Rightarrow> nat \<Rightarrow> byte list" where
  "payload L i = (case map_of L i of None \<Rightarrow> [] | Some (_, p) \<Rightarrow> p)"

definition start_of :: "chunks \<Rightarrow> nat \<Rightarrow> nat" where
  "start_of L i = (\<Sum>j<i. len L j)"

definition put_chunk :: "byte list \<Rightarrow> nat \<times> nat \<times> byte list \<Rightarrow> byte list" where
  "put_chunk b c = (case c of (_, d, p) \<Rightarrow> overwrite d p b)"

definition written :: "chunks \<Rightarrow> nat \<Rightarrow> byte list" where
  "written L n = foldl put_chunk (replicate n 0) L"

definition total_len :: "chunks \<Rightarrow> nat" where
  "total_len L = sum_list (map (length \<circ> snd \<circ> snd) L)"

definition in_range :: "nat \<Rightarrow> nat \<Rightarrow> chunks \<Rightarrow> bool" where
  "in_range n size_limit L = (\<forall>(i, d, p) \<in> set L. i < n \<and> d + length p \<le> size_limit)"

lemma written_Nil [simp]: "written [] n = replicate n 0"
  by (simp add: written_def)

lemma written_snoc: "written (L @ [(i, d, p)]) n = overwrite d p (written L n)"
  by (simp add: written_def put_chunk_def)

lemma in_range_snoc [simp]:
  "in_range n m (L @ [(i, d, p)]) \<longleftrightarrow> in_range n m L \<and> i < n \<and> d + length p \<le> m"
  by (auto simp: in_range_def)

lemma length_written: "in_range m n L \<Longrightarrow> length (written L n) = n"
  by (induction L rule: rev_induct) (auto simp: written_snoc)

lemma len_snoc:
  assumes "i \<notin> fst ` set L"
  shows "len (L @ [(i, d, p)]) j = (if j = i then length p else len L j)"
  using assms by (auto simp: len_def map_of_eq_None_iff [symmetric] map_add_def split: option.splits)

lemma total_len_snoc [simp]: "total_len (L @ [(i, d, p)]) = total_len L + length p"
  by (simp add: total_len_def)

lemma total_len_sum:
  assumes "distinct (map fst L)"
  shows "total_len L = (\<Sum>i \<in> fst ` set L. len L i)"
  using assms
proof (induction L rule: rev_induct)
  case Nil
  then show ?case by (simp add: total_len_def)
next
  case (snoc c L)
  obtain i d p where c: "c = (i, d, p)" by (cases c)
  have i: "i \<notin> fst ` set L" "distinct (map fst L)"
    using snoc.prems c by auto
  have "(\<Sum>j \<in> fst ` set L. len (L @ [(i, d, p)]) j) = (\<Sum>j \<in> fst ` set L. len L j)"
    by (rule sum.cong) (use i(1) in \<open>auto simp: len_snoc\<close>)
  then show ?case
    using snoc.IH [OF i(2)] i(1) by (simp add: c len_snoc)
qed

lemma sum_le_total_len:
  assumes "distinct (map fst L)" and "S \<subseteq> fst ` set L"
  shows "(\<Sum>i \<in> S. len L i) \<le> total_len L"
  unfolding total_len_sum [OF assms(1)] by (rule sum_mono2) (use assms(2) in auto)

section \<open>The destination buffer\<close>

text \<open>A byte that one accepted chunk covers is that chunk's byte, whatever the order.\<close>

lemma nth_written:
  assumes "in_range m n L" and "distinct (map fst L)" and "(i, d, p) \<in> set L"
    and "d \<le> x" and "x < d + length p"
    and "\<And>j d' p'. (j, d', p') \<in> set L \<Longrightarrow> j \<noteq> i \<Longrightarrow> x < d' \<or> d' + length p' \<le> x"
  shows "written L n ! x = p ! (x - d)"
  using assms
proof (induction L rule: rev_induct)
  case (snoc c L)
  obtain j d' p' where c: "c = (j, d', p')" by (cases c)
  have r: "in_range m n L" "d' + length p' \<le> n"
    using snoc.prems(1) by (auto simp: c)
  show ?case
  proof (cases "j = i")
    case True
    then have "(i, d, p) = (j, d', p')"
      using snoc.prems(2,3) c by (force simp: c)
    then show ?thesis
      using snoc.prems(4,5) r length_written [OF r(1)] by (simp add: c written_snoc nth_overwrite)
  next
    case False
    then have "(i, d, p) \<in> set L" "x < d' \<or> d' + length p' \<le> x" "x < n"
      using snoc.prems(1,3,5,6) c by (auto simp: in_range_def)
    moreover from this have "written L n ! x = p ! (x - d)"
      using snoc.prems r(1) by (intro snoc.IH) (auto simp: c)
    ultimately show ?thesis
      using r length_written [OF r(1)] by (auto simp: c written_snoc nth_overwrite)
  qed
qed simp

lemma nth_concat_upt:
  fixes f :: "nat \<Rightarrow> 'a list"
  assumes "i < n" and "y < length (f i)"
  shows "concat (map f [0..<n]) ! ((\<Sum>j<i. length (f j)) + y) = f i ! y"
  using assms(1)
proof (induction n)
  case (Suc n)
  have l: "length (concat (map f [0..<k])) = (\<Sum>j<k. length (f j))" for k
    by (induction k) simp_all
  show ?case
  proof (cases "i = n")
    case True
    then show ?thesis using l assms(2) by (simp add: nth_append)
  next
    case False
    then have "i < n" using Suc.prems by simp
    then have "(\<Sum>j<i. length (f j)) + y < (\<Sum>j<n. length (f j))"
      using assms(2) sum_mono2 [of "{..<n}" "{..<Suc i}" "\<lambda>j. length (f j)"] by auto
    then show ?thesis
      using Suc.IH [OF \<open>i < n\<close>] l by (simp add: nth_append)
  qed
qed simp

lemma locate_chunk:
  fixes f :: "nat \<Rightarrow> nat"
  assumes "x < (\<Sum>j<n. f j)"
  shows "\<exists>i<n. (\<Sum>j<i. f j) \<le> x \<and> x < (\<Sum>j<i. f j) + f i"
  using assms
proof (induction n)
  case (Suc n)
  then show ?case
    by (cases "x < (\<Sum>j<n. f j)") (auto intro: less_SucI)
qed simp

text \<open>
  Chunks that together fill the buffer, each at the end of its predecessors, leave it with
  the concatenation of the payloads in the order of their indices.
\<close>

definition in_place :: "nat \<Rightarrow> chunks \<Rightarrow> bool" where
  "in_place n L = (\<forall>i<n. \<exists>p. map_of L i = Some (start_of L i, p))"

lemma len_payload: "length (payload L i) = len L i"
  by (auto simp: payload_def len_def split: option.splits)

lemma start_of_mono: "i < j \<Longrightarrow> start_of L i + len L i \<le> start_of L j"
  using sum_mono2 [of "{..<j}" "{..<Suc i}" "len L"] by (auto simp: start_of_def)

lemma written_concat:
  assumes "in_range n m L" and "distinct (map fst L)" and "in_place n L" and "start_of L n = m"
  shows "written L m = concat (map (payload L) [0..<n])"
proof (rule nth_equalityI)
  have "length (concat (map (payload L) [0..<k])) = start_of L k" for k
    by (induction k) (simp_all add: start_of_def len_payload)
  then show "length (written L m) = length (concat (map (payload L) [0..<n]))"
    using length_written [OF assms(1)] assms(4) by simp
next
  fix x assume "x < length (written L m)"
  then have "x < (\<Sum>j<n. len L j)"
    using length_written [OF assms(1)] assms(4) by (simp add: start_of_def)
  then obtain i where i: "i < n" "start_of L i \<le> x" "x < start_of L i + len L i"
    using locate_chunk unfolding start_of_def by blast
  obtain p where p: "map_of L i = Some (start_of L i, p)"
    using assms(3) i(1) by (auto simp: in_place_def)
  have lp: "len L i = length p" "payload L i = p"
    using p by (simp_all add: len_def payload_def)
  have "written L m ! x = p ! (x - start_of L i)"
  proof (rule nth_written [OF assms(1,2)])
    show "(i, start_of L i, p) \<in> set L" using p by (rule map_of_SomeD)
    fix j d' p' assume j: "(j, d', p') \<in> set L" "j \<noteq> i"
    then have "map_of L j = Some (d', p')" "j < n"
      using assms(1,2) by (auto simp: in_range_def intro: map_of_is_SomeI)
    then have d': "d' = start_of L j" "length p' = len L j"
      using assms(3) by (auto simp: in_place_def len_def)
    show "x < d' \<or> d' + length p' \<le> x"
      using start_of_mono [of i j L] start_of_mono [of j i L] i(2,3) j(2) d' by linarith
  qed (use i lp in auto)
  moreover have "concat (map (payload L) [0..<n]) ! x = p ! (x - start_of L i)"
    using nth_concat_upt [of i n "x - start_of L i" "payload L"] i lp
    by (simp add: start_of_def len_payload)
  ultimately show "written L m ! x = concat (map (payload L) [0..<n]) ! x"
    by simp
qed

section \<open>The invariant of a stream\<close>

definition records_chunks :: "chunks \<Rightarrow> StreamContext \<Rightarrow> bool" where
  "records_chunks L ctx =
     (distinct (map fst (c_ooo ctx)) \<and>
      fst ` set L = {..<unat (c_next ctx)} \<union> unat ` dom (map_of (c_ooo ctx)) \<and>
      (\<forall>k p. map_of (c_ooo ctx) k = Some p \<longrightarrow> c_next ctx \<le> k \<and>
         (\<exists>pl. map_of L (unat k) = Some (unat (p_dstOffset p), pl) \<and> length pl = unat (p_size p))))"

definition ctx_inv :: "chunks \<Rightarrow> StreamContext \<Rightarrow> bool" where
  "ctx_inv L ctx =
     (c_totalSize ctx \<le> kMaxStreamSize \<and>
      c_buf ctx = written L (unat (c_totalSize ctx)) \<and>
      distinct (map fst L) \<and> in_range (unat (c_totalChunks ctx)) (unat (c_totalSize ctx)) L \<and>
      records_chunks L ctx \<and> in_place (unat (c_next ctx)) L \<and>
      unat (c_offset ctx) = start_of L (unat (c_next ctx)) \<and>
      unat (c_offset ctx) + unat (c_oooBytes ctx) = total_len L \<and>
      total_len L \<le> unat (c_totalSize ctx))"

lemma kMaxStreamSize_value: "unat kMaxStreamSize = 2 ^ 30"
  unfolding kMaxStreamSize_def by (simp add: push_bit_eq_mult)

lemma le_kMax: "x \<le> kMaxStreamSize \<longleftrightarrow> unat x \<le> 2 ^ 30"
  unfolding word_le_nat_alt kMaxStreamSize_value ..

lemma ctx_invD:
  assumes "ctx_inv L ctx"
  shows "c_totalSize ctx \<le> kMaxStreamSize" "c_buf ctx = written L (unat (c_totalSize ctx))"
    "distinct (map fst L)" "in_range (unat (c_totalChunks ctx)) (unat (c_totalSize ctx)) L"
    "records_chunks L ctx" "in_place (unat (c_next ctx)) L"
    "unat (c_offset ctx) = start_of L (unat (c_next ctx))"
    "unat (c_offset ctx) + unat (c_oooBytes ctx) = total_len L"
    "total_len L \<le> unat (c_totalSize ctx)"
  using assms unfolding ctx_inv_def by blast+

lemma ctx_inv_buf: "ctx_inv L ctx \<Longrightarrow> length (c_buf ctx) = unat (c_totalSize ctx)"
  using ctx_invD(2,4) length_written by metis

lemma ctx_inv_complete:
  assumes "ctx_inv L ctx" and "c_next ctx = c_totalChunks ctx" and "c_offset ctx = c_totalSize ctx"
  shows "c_buf ctx = concat (map (payload L) [0..<unat (c_totalChunks ctx)])"
  unfolding ctx_invD(2) [OF assms(1)]
  by (rule written_concat)
    (use ctx_invD(3,4,6,7) [OF assms(1)] assms(2,3) in simp_all)

lemma ctx_inv_indices:
  assumes "ctx_inv L ctx"
  shows "{..<unat (c_next ctx)} \<subseteq> fst ` set L" "fst ` set L \<subseteq> {..<unat (c_totalChunks ctx)}"
  using ctx_invD(4,5) [OF assms] unfolding records_chunks_def in_range_def by (blast, force)

lemma ctx_inv_new: "sh_totalSize h \<le> kMaxStreamSize \<Longrightarrow> ctx_inv [] (new_context h now)"
  by (auto simp: ctx_inv_def new_context_def records_chunks_def in_range_def in_place_def start_of_def
      total_len_def)

section \<open>Advancing the cursor\<close>

lemma total_le_kMax: "ctx_inv L ctx \<Longrightarrow> unat (c_totalSize ctx) \<le> 2 ^ 30"
  using ctx_invD(1) le_kMax by blast

lemma next_chunk_room:
  assumes "distinct (map fst L)" and "{..n} \<subseteq> fst ` set L"
  shows "start_of L n + len L n \<le> total_len L"
proof -
  have "(\<Sum>j \<in> {..<Suc n}. len L j) \<le> total_len L"
    by (rule sum_le_total_len [OF assms(1)]) (use assms(2) in auto)
  then show ?thesis by (simp add: start_of_def)
qed

text \<open>The cursor advances over a chunk that the list already has, at the right place.\<close>

lemma in_place_Suc:
  "in_place n L \<Longrightarrow> map_of L n = Some (start_of L n, pl) \<Longrightarrow> in_place (Suc n) L"
  by (auto simp: in_place_def less_Suc_eq)

lemma start_of_Suc: "start_of L (Suc n) = start_of L n + len L n"
  by (simp add: start_of_def)

lemma records_chunks_drain:
  assumes "records_chunks L ctx" and "map_of (c_ooo ctx) (c_next ctx) = Some p"
    and "unat (c_next ctx + 1) = Suc (unat (c_next ctx))"
    and "c_ooo ctx' = AList.delete (c_next ctx) (c_ooo ctx)" and "c_next ctx' = c_next ctx + 1"
  shows "records_chunks L ctx'"
proof -
  let ?k = "c_next ctx" and ?o = "c_ooo ctx"
  note r = assms(1) [unfolded records_chunks_def]
  have d: "distinct (map fst (c_ooo ctx'))"
    using r unfolding assms(4) by (simp add: distinct_delete)
  have m: "map_of (c_ooo ctx') j = (if j = ?k then None else map_of ?o j)" for j
    unfolding assms(4) by (simp add: delete_conv)
  have dom: "dom (map_of ?o) = insert ?k (dom (map_of (c_ooo ctx')))"
    using assms(2) by (auto simp: dom_def m)
  have "fst ` set L = {..<unat ?k} \<union> unat ` dom (map_of ?o)"
    using r by blast
  also have "\<dots> = {..<unat (c_next ctx')} \<union> unat ` dom (map_of (c_ooo ctx'))"
    unfolding dom assms(3,5) by (auto simp: lessThan_Suc)
  finally have f: "fst ` set L = {..<unat (c_next ctx')} \<union> unat ` dom (map_of (c_ooo ctx'))" .
  have "c_next ctx' \<le> j" if "map_of (c_ooo ctx') j = Some q" for j q
  proof -
    have "?k \<le> j" "j \<noteq> ?k"
      using that r by (auto simp: m split: if_splits)
    then show ?thesis
      using assms(3) unfolding assms(5) word_le_nat_alt by (metis Suc_leI le_neq_implies_less word_unat_eq_iff)
  qed
  then show ?thesis
    using d f r by (auto simp: records_chunks_def m split: if_splits)
qed

lemma ctx_inv_drain_step:
  assumes "ctx_inv L ctx" and "map_of (c_ooo ctx) (c_next ctx) = Some p" and "p_dstOffset p = c_offset ctx"
  shows "ctx_inv L (AccountInOrder (p_size p) (ctx\<lparr>c_ooo := AList.delete (c_next ctx) (c_ooo ctx),
    c_oooBytes := c_oooBytes ctx - ucast (p_size p)\<rparr>))" (is "ctx_inv L ?ctx'")
proof -
  let ?n = "unat (c_next ctx)" and ?z = "ucast (p_size p) :: u64"
  note inv = ctx_invD [OF assms(1)]
  obtain pl where pl: "map_of L ?n = Some (start_of L ?n, pl)" "length pl = unat (p_size p)"
    using inv(5,7) assms(2,3) unfolding records_chunks_def by metis
  have len: "len L ?n = unat (p_size p)"
    using pl by (simp add: len_def)
  have sub: "{..?n} \<subseteq> fst ` set L"
  proof -
    have "?n \<in> fst ` set L"
      using map_of_SomeD [OF pl(1)] by (force simp: image_iff)
    then show ?thesis
      using inv(5) unfolding records_chunks_def by (auto simp: le_less)
  qed
  have room: "unat (c_offset ctx) + unat (p_size p) \<le> total_len L"
    using next_chunk_room [OF inv(3) sub] inv(7) len by simp
  have bound: "total_len L < 2 ^ 64"
    using inv(9) total_le_kMax [OF assms(1)] by simp
  have off: "unat (c_offset ctx + ?z) = unat (c_offset ctx) + unat (p_size p)"
    using room bound by (simp add: unat_plus_if')
  have ooo: "unat (c_oooBytes ctx - ?z) = unat (c_oooBytes ctx) - unat (p_size p)"
    by (subst unat_sub) (use room inv(8) in \<open>simp_all add: word_le_nat_alt\<close>)
  have "?n < unat (c_totalChunks ctx)"
    using map_of_SomeD [OF pl(1)] inv(4) by (auto simp: in_range_def)
  then have nx: "unat (c_next ctx + 1) = Suc ?n"
    by (rule unat_Suc_u32)
  have rec: "records_chunks L ?ctx'"
    by (rule records_chunks_drain [OF inv(5) assms(2) nx]) (simp_all add: AccountInOrder_def)
  show ?thesis
    unfolding ctx_inv_def
    using inv(1-4,9) rec in_place_Suc [OF inv(6) pl(1)] inv(7,8) room
    by (simp add: AccountInOrder_def nx off ooo start_of_Suc len)
qed

definition same_stream :: "StreamContext \<Rightarrow> StreamContext \<Rightarrow> bool" where
  "same_stream ctx ctx' = (c_totalSize ctx' = c_totalSize ctx \<and> c_totalChunks ctx' = c_totalChunks ctx \<and>
     c_appMsgType ctx' = c_appMsgType ctx \<and> c_startTime ctx' = c_startTime ctx)"

definition settled :: "StreamContext \<Rightarrow> bool" where
  "settled ctx = (map_of (c_ooo ctx) (c_next ctx) = None)"

lemma drain_inv:
  "ctx_inv L ctx \<Longrightarrow> drain ctx = (ctx', False) \<Longrightarrow>
   ctx_inv L ctx' \<and> settled ctx' \<and> same_stream ctx ctx' \<and> length (c_ooo ctx') \<le> length (c_ooo ctx)"
proof (induction ctx rule: drain.induct)
  case (1 ctx)
  show ?case
  proof (cases "map_of (c_ooo ctx) (c_next ctx)")
    case None
    then show ?thesis
      using "1.prems" by (simp add: drain.simps [of ctx] settled_def same_stream_def)
  next
    case (Some p)
    let ?c = "ctx\<lparr>c_ooo := AList.delete (c_next ctx) (c_ooo ctx),
      c_oooBytes := c_oooBytes ctx - ucast (p_size p)\<rparr>"
    have off: "p_dstOffset p = c_offset ctx"
      using "1.prems"(2) Some by (auto simp: drain.simps [of ctx] Let_def split: if_splits)
    have "drain (AccountInOrder (p_size p) ?c) = (ctx', False)"
      using "1.prems"(2) Some off by (simp add: drain.simps [of ctx] Let_def)
    then have "ctx_inv L ctx' \<and> settled ctx' \<and> same_stream (AccountInOrder (p_size p) ?c) ctx' \<and>
        length (c_ooo ctx') \<le> length (c_ooo (AccountInOrder (p_size p) ?c))"
      using "1.IH" [OF Some refl] off ctx_inv_drain_step [OF "1.prems"(1) Some off] by simp
    then show ?thesis
      using length_delete_less [OF Some] by (auto simp: same_stream_def AccountInOrder_def)
  qed
qed

text \<open>
  Chunks cut from one sequence of bytes: chunk \<open>j\<close> lies at \<open>offs j\<close> and ends where the next
  one begins. A drain over such chunks finds no corruption.
\<close>

definition conform :: "(nat \<Rightarrow> nat) \<Rightarrow> chunks \<Rightarrow> bool" where
  "conform offs L = (offs 0 = 0 \<and> (\<forall>(j, d, p) \<in> set L. d = offs j \<and> offs (Suc j) = offs j + length p))"

lemma conform_map: "conform offs L \<Longrightarrow> map_of L j = Some (d, p) \<Longrightarrow> d = offs j \<and> offs (Suc j) = offs j + length p"
  by (auto simp: conform_def dest: map_of_SomeD)

lemma conform_start:
  "conform offs L \<Longrightarrow> {..<n} \<subseteq> fst ` set L \<Longrightarrow> start_of L n = offs n"
proof (induction n)
  case 0
  then show ?case by (simp add: start_of_def conform_def)
next
  case (Suc n)
  then have "n \<in> fst ` set L" by auto
  then obtain d p where "map_of L n = Some (d, p)"
    by (metis map_of_eq_None_iff not_Some_eq prod.exhaust)
  with Suc conform_map [of offs L n d p] show ?case
    by (simp add: start_of_Suc len_def lessThan_Suc)
qed

lemma drain_clean:
  "ctx_inv L ctx \<Longrightarrow> conform offs L \<Longrightarrow> snd (drain ctx) = False"
proof (induction ctx rule: drain.induct)
  case (1 ctx)
  show ?case
  proof (cases "map_of (c_ooo ctx) (c_next ctx)")
    case None
    then show ?thesis by (simp add: drain.simps [of ctx])
  next
    case (Some p)
    let ?c = "ctx\<lparr>c_ooo := AList.delete (c_next ctx) (c_ooo ctx),
      c_oooBytes := c_oooBytes ctx - ucast (p_size p)\<rparr>"
    have "unat (p_dstOffset p) = offs (unat (c_next ctx))"
      using ctx_invD(5) [OF "1.prems"(1)] Some conform_map [OF "1.prems"(2)]
      unfolding records_chunks_def by metis
    then have off: "p_dstOffset p = c_offset ctx"
      using ctx_invD(7) [OF "1.prems"(1)] conform_start [OF "1.prems"(2) ctx_inv_indices(1) [OF "1.prems"(1)]]
      by (simp add: word_unat_eq_iff)
    then have "snd (drain (AccountInOrder (p_size p) ?c)) = False"
      using "1.IH" [OF Some refl] ctx_inv_drain_step [OF "1.prems"(1) Some off] "1.prems"(2) by simp
    then show ?thesis
      using Some off by (simp add: drain.simps [of ctx] Let_def)
  qed
qed

text \<open>The number of parked chunks, and the cursor as the first index that is missing.\<close>

lemma parked_count:
  assumes "ctx_inv L ctx"
  shows "length L = unat (c_next ctx) + length (c_ooo ctx)"
proof -
  have d: "distinct (map fst (c_ooo ctx))" and r: "fst ` set L = {..<unat (c_next ctx)} \<union> unat ` dom (map_of (c_ooo ctx))"
    and k: "\<And>k p. map_of (c_ooo ctx) k = Some p \<Longrightarrow> c_next ctx \<le> k"
    using ctx_invD(5) [OF assms] unfolding records_chunks_def by blast+
  have "{..<unat (c_next ctx)} \<inter> unat ` dom (map_of (c_ooo ctx)) = {}"
    using k by (auto simp: word_le_nat_alt not_less [symmetric])
  moreover have "card (unat ` dom (map_of (c_ooo ctx))) = length (c_ooo ctx)"
  proof -
    have "inj_on unat (dom (map_of (c_ooo ctx)))"
      by (rule inj_onI) (simp add: word_unat_eq_iff)
    moreover have "card (dom (map_of (c_ooo ctx))) = length (c_ooo ctx)"
      using distinct_card [OF d] by (simp add: dom_map_of_conv_image_fst)
    ultimately show ?thesis by (simp add: card_image)
  qed
  ultimately have "card (fst ` set L) = unat (c_next ctx) + length (c_ooo ctx)"
    unfolding r by (subst card_Un_disjoint) (auto simp: finite_dom_map_of)
  moreover have "card (fst ` set L) = length L"
    using distinct_card [OF ctx_invD(3) [OF assms]] by simp
  ultimately show ?thesis by simp
qed

section \<open>Accepting a chunk\<close>

lemma map_of_snoc:
  "i \<notin> fst ` set L \<Longrightarrow> map_of (L @ [(i, dp)]) j = (if j = i then Some dp else map_of L j)"
  by (auto simp: map_add_def map_of_eq_None_iff [symmetric] split: option.splits)

lemma start_of_snoc:
  "i \<notin> fst ` set L \<Longrightarrow> k \<le> i \<Longrightarrow> start_of (L @ [(i, d, p)]) k = start_of L k"
  unfolding start_of_def by (rule sum.cong) (auto simp: len_snoc)

lemma in_place_snoc:
  "i \<notin> fst ` set L \<Longrightarrow> n \<le> i \<Longrightarrow> in_place n L \<Longrightarrow> in_place n (L @ [(i, d, p)])"
  by (auto simp: in_place_def map_of_snoc start_of_snoc)

text \<open>What the two guards give, in natural numbers: neither can be fooled by wrap-around.\<close>

lemma Fits_iff:
  assumes "ctx_inv L ctx"
  shows "Fits ctx n \<longleftrightarrow> total_len L + unat n \<le> unat (c_totalSize ctx)"
proof -
  have "unat (c_offset ctx) + unat (c_oooBytes ctx) \<le> 2 ^ 30"
    using ctx_invD(8,9) [OF assms] total_le_kMax [OF assms] by simp
  then have "unat (c_offset ctx + c_oooBytes ctx + ucast n) = total_len L + unat n"
    using unat_u32_less [of n] ctx_invD(8) [OF assms] by (simp add: unat_plus_if')
  then show ?thesis
    by (simp add: Fits_def word_le_nat_alt)
qed

lemma InBounds_iff: "InBounds ctx d n \<longleftrightarrow> unat d + unat n \<le> unat (c_totalSize ctx)"
proof (cases "d \<le> c_totalSize ctx")
  case True
  then have "unat (c_totalSize ctx - d) = unat (c_totalSize ctx) - unat d" "\<not> c_totalSize ctx < d"
    "unat d \<le> unat (c_totalSize ctx)"
    by (simp_all add: unat_sub not_less word_le_nat_alt)
  then show ?thesis
    by (auto simp: InBounds_def word_le_nat_alt)
next
  case False
  then have "unat (c_totalSize ctx) < unat d"
    by (simp only: word_le_nat_alt not_le)
  moreover have "c_totalSize ctx < d"
    using False by (simp add: not_le)
  ultimately show ?thesis
    by (simp add: InBounds_def)
qed

lemma WriteChunk_in_bounds:
  assumes "unat d + length p \<le> length (c_buf ctx)"
  shows "WriteChunk d p ctx = Some (ctx\<lparr>c_buf := overwrite (unat d) p (c_buf ctx)\<rparr>)"
  using assms by (cases p) (simp_all add: WriteChunk_def mem_safe)

text \<open>The two ways to accept a chunk that is new, fits and lies in bounds.\<close>

locale fresh_chunk =
  fixes L :: chunks and ctx :: StreamContext and idx :: u32 and d :: u64 and p :: "byte list" and n :: u32
  assumes inv: "ctx_inv L ctx" and settled: "settled ctx"
    and index: "idx < c_totalChunks ctx" and new: "c_next ctx \<le> idx" "map_of (c_ooo ctx) idx = None"
    and size_p: "length p = unat n"
    and fits: "total_len L + length p \<le> unat (c_totalSize ctx)"
    and bounds: "unat d + length p \<le> unat (c_totalSize ctx)"
begin

abbreviation L' :: chunks where
  "L' \<equiv> L @ [(unat idx, unat d, p)]"

abbreviation put :: StreamContext where
  "put \<equiv> ctx\<lparr>c_buf := overwrite (unat d) p (c_buf ctx)\<rparr>"

lemma fresh: "unat idx \<notin> fst ` set L"
proof -
  have "unat idx \<notin> unat ` dom (map_of (c_ooo ctx))"
    using new(2) by (auto simp: domIff dest: word_unat_eq_iff [THEN iffD2])
  then show ?thesis
    using ctx_invD(5) [OF inv] new(1) by (auto simp: records_chunks_def word_le_nat_alt)
qed

lemma lookup: "map_of L' j = (if j = unat idx then Some (unat d, p) else map_of L j)"
  by (rule map_of_snoc [OF fresh])

lemma parked:
  "map_of (c_ooo ctx) k = Some q \<Longrightarrow> c_next ctx \<le> k \<and> unat k \<noteq> unat idx \<and> k \<noteq> c_next ctx \<and>
    (\<exists>pl. map_of L (unat k) = Some (unat (p_dstOffset q), pl) \<and> length pl = unat (p_size q))"
  using ctx_invD(5) [OF inv] settled new(2) unfolding records_chunks_def settled_def
  by (metis option.distinct(1) word_unat_eq_iff)

lemma common:
  "c_buf put = written L' (unat (c_totalSize ctx))" "distinct (map fst L')"
  "in_range (unat (c_totalChunks ctx)) (unat (c_totalSize ctx)) L'"
  "total_len L' \<le> unat (c_totalSize ctx)"
  using ctx_invD(2-4) [OF inv] fresh index bounds fits
  by (simp_all add: written_snoc word_less_nat_alt)

lemma no_wrap: "unat (x :: u64) + unat n \<le> unat (c_totalSize ctx) \<Longrightarrow> unat (x + ucast n) = unat x + unat n"
  using total_le_kMax [OF inv] by (simp add: unat_plus_if')

lemma accept_in_order:
  assumes "idx = c_next ctx" and "d = c_offset ctx"
  shows "ctx_inv L' (AccountInOrder n put)"
proof -
  let ?n = "unat (c_next ctx)"
  note I = ctx_invD [OF inv]
  have nx: "unat (c_next ctx + 1) = Suc ?n"
    using index assms(1) by (intro unat_Suc_u32) (simp add: word_less_nat_alt)
  have off: "unat (c_offset ctx + ucast n) = start_of L ?n + unat n"
    using no_wrap [of "c_offset ctx"] bounds assms(2) size_p I(7) by simp
  have rec: "records_chunks L' (AccountInOrder n put)"
    unfolding records_chunks_def
  proof (intro conjI allI impI)
    show "distinct (map fst (c_ooo (AccountInOrder n put)))"
      using I(5) by (simp add: records_chunks_def AccountInOrder_def)
    show "fst ` set L' = {..<unat (c_next (AccountInOrder n put))} \<union>
        unat ` dom (map_of (c_ooo (AccountInOrder n put)))"
      using I(5) by (auto simp: records_chunks_def AccountInOrder_def nx lessThan_Suc assms(1))
    fix k q assume "map_of (c_ooo (AccountInOrder n put)) k = Some q"
    then have k: "map_of (c_ooo ctx) k = Some q"
      by (simp add: AccountInOrder_def)
    then show "c_next (AccountInOrder n put) \<le> k"
      using nx parked [OF k] unfolding word_le_nat_alt
      by (simp add: AccountInOrder_def) (metis Suc_leI le_neq_implies_less word_unat_eq_iff)
    show "\<exists>pl. map_of L' (unat k) = Some (unat (p_dstOffset q), pl) \<and> length pl = unat (p_size q)"
      using parked [OF k] by (simp add: lookup del: map_of_append)
  qed
  have pl: "in_place (Suc ?n) L'"
    by (rule in_place_Suc [OF in_place_snoc, where pl = p])
      (use fresh I(6,7) assms lookup in \<open>simp_all add: start_of_snoc del: map_of_append\<close>)
  show ?thesis
    unfolding ctx_inv_def
    using common I(1,8) rec pl fresh assms size_p
    by (simp add: AccountInOrder_def nx off start_of_Suc start_of_snoc len_snoc I(7))
qed

lemma accept_ahead:
  assumes "idx \<noteq> c_next ctx" and "NotePlaced al idx d n maxParked put = Some ctx'"
  shows "ctx_inv L' ctx' \<and> settled ctx' \<and> same_stream ctx ctx' \<and> length (c_ooo ctx') \<le> unat maxParked"
proof -
  note I = ctx_invD [OF inv]
  have ctx': "ctx' = put\<lparr>c_ooo := (idx, \<lparr>p_dstOffset = d, p_size = n\<rparr>) # c_ooo ctx,
      c_oooBytes := c_oooBytes ctx + ucast n\<rparr>" and room: "length (c_ooo ctx) < unat maxParked"
    using assms(2) new(2) by (auto simp: NotePlaced_def split: if_splits)
  have ahead: "unat (c_next ctx) \<le> unat idx"
    using new(1) by (simp add: word_le_nat_alt)
  have ooo: "unat (c_oooBytes ctx + ucast n) = unat (c_oooBytes ctx) + unat n"
    using no_wrap [of "c_oooBytes ctx"] I(8) fits size_p by simp
  have rec: "records_chunks L' ctx'"
    unfolding records_chunks_def
  proof (intro conjI allI impI)
    show "distinct (map fst (c_ooo ctx'))"
      using I(5) new(2) by (auto simp: records_chunks_def ctx' map_of_eq_None_iff)
    show "fst ` set L' = {..<unat (c_next ctx')} \<union> unat ` dom (map_of (c_ooo ctx'))"
      using I(5) by (auto simp: records_chunks_def ctx')
    fix k q assume "map_of (c_ooo ctx') k = Some q"
    then have "k = idx \<and> q = \<lparr>p_dstOffset = d, p_size = n\<rparr> \<or> map_of (c_ooo ctx) k = Some q"
      by (auto simp: ctx' split: if_splits)
    then show "c_next ctx' \<le> k"
      and "\<exists>pl. map_of L' (unat k) = Some (unat (p_dstOffset q), pl) \<and> length pl = unat (p_size q)"
      using parked [of k q] new(1) size_p by (auto simp: ctx' lookup simp del: map_of_append)
  qed
  have "ctx_inv L' ctx'"
    unfolding ctx_inv_def
    using common I(1,7,8) rec in_place_snoc [OF fresh ahead I(6)] start_of_snoc [OF fresh ahead] size_p
    by (simp add: ctx' ooo)
  then show ?thesis
    using settled assms(1) room by (simp add: settled_def same_stream_def ctx')
qed

end

text \<open>The locale on the code's own data: the only chunk of a stream, in a new context.\<close>

definition single_chunk :: "byte list \<Rightarrow> byte list" where
  "single_chunk data = take (2 ^ 30) data"

definition single_header :: "u64 \<Rightarrow> u32 \<Rightarrow> byte list \<Rightarrow> StreamHeader" where
  "single_header streamId tag data = \<lparr>sh_streamId = streamId,
     sh_totalSize = word_of_nat (length (single_chunk data)), sh_totalChunks = 1, sh_appMsgType = tag\<rparr>"

lemma unat_u32_of_nat: "n < 2 ^ 32 \<Longrightarrow> unat (word_of_nat n :: u32) = n"
  by (simp add: unsigned_of_nat take_bit_nat_eq_self)

lemma unat_u64_of_nat: "n < 2 ^ 64 \<Longrightarrow> unat (word_of_nat n :: u64) = n"
  by (simp add: unsigned_of_nat take_bit_nat_eq_self)

interpretation single: fresh_chunk "[]" "new_context (single_header streamId tag data) now" 0 0
  "single_chunk data" "word_of_nat (length (single_chunk data))"
proof -
  have n: "unat (word_of_nat (length (single_chunk data)) :: u64) = length (single_chunk data)"
      "unat (word_of_nat (length (single_chunk data)) :: u32) = length (single_chunk data)"
      "length (single_chunk data) \<le> 2 ^ 30"
    by (simp_all add: unat_u32_of_nat unat_u64_of_nat single_chunk_def min_def)
  have "ctx_inv [] (new_context (single_header streamId tag data) now)"
    using n by (intro ctx_inv_new) (simp add: single_header_def le_kMax)
  then show "fresh_chunk [] (new_context (single_header streamId tag data) now) 0 0 (single_chunk data)
      (word_of_nat (length (single_chunk data)))"
    by unfold_locales
      (use n in \<open>simp_all add: single_header_def new_context_def settled_def total_len_def\<close>)
qed

end
