(* ===== verification/Shm_Reassembler_Trace.thy ===== *)
theory Shm_Reassembler_Trace
  imports Shm_Reassembler_Inv
begin

text \<open>
  The reassembler against arbitrary traffic: what it stores, what it delivers and what it
  never does, for every sequence of messages a peer can send.
\<close>

section \<open>One chunk\<close>

definition chunk_entry :: "ChunkHeader \<Rightarrow> byte list \<Rightarrow> nat \<times> nat \<times> byte list" where
  "chunk_entry h p = (unat (ch_chunkIndex h), unat (ch_dstOffset h), p)"

lemma place_chunk_inv:
  assumes "ctx_inv L ctx" and "settled ctx" and "ch_chunkIndex h < c_totalChunks ctx"
    and "c_next ctx \<le> ch_chunkIndex h" and "map_of (c_ooo ctx) (ch_chunkIndex h) = None"
    and "length p = unat (ch_payloadSize h)" and "length (c_ooo ctx) \<le> unat mp"
  obtains ctx' corrupt where "place_chunk cl mp h p ctx = Some (ctx', corrupt)"
    and "\<not> corrupt \<Longrightarrow> ctx_inv (L @ [chunk_entry h p]) ctx' \<and> settled ctx' \<and> same_stream ctx ctx' \<and>
      length (c_ooo ctx') \<le> unat mp"
proof (cases "Fits ctx (ch_payloadSize h) \<and> InBounds ctx (ucast (ch_dstOffset h)) (ch_payloadSize h)")
  case False
  then show ?thesis
    using that by (auto simp: place_chunk_def)
next
  case True
  let ?d = "ucast (ch_dstOffset h) :: u64" and ?put = "ctx\<lparr>c_buf := overwrite (unat (ch_dstOffset h)) p (c_buf ctx)\<rparr>"
  have fc: "fresh_chunk L ctx (ch_chunkIndex h) ?d p (ch_payloadSize h)"
    using assms True by unfold_locales (simp_all add: Fits_iff [OF assms(1)] InBounds_iff)
  have w: "WriteChunk ?d p ctx = Some ?put"
    using fresh_chunk.bounds [OF fc] ctx_inv_buf [OF assms(1)] by (simp add: WriteChunk_in_bounds)
  consider (misplaced) "ch_chunkIndex h = c_next ctx" "?d \<noteq> c_offset ctx"
    | (in_order) "ch_chunkIndex h = c_next ctx" "?d = c_offset ctx"
    | (ahead) "ch_chunkIndex h \<noteq> c_next ctx" by blast
  then show ?thesis
  proof cases
    case misplaced
    then show ?thesis
      using that True w by (simp add: place_chunk_def)
  next
    case in_order
    obtain ctx' c where dr: "drain (AccountInOrder (ch_payloadSize h) ?put) = (ctx', c)"
      by fastforce
    have inv: "ctx_inv (L @ [chunk_entry h p]) (AccountInOrder (ch_payloadSize h) ?put)"
      using fresh_chunk.accept_in_order [OF fc in_order] by (simp add: chunk_entry_def)
    show ?thesis
    proof (rule that)
      show "place_chunk cl mp h p ctx = Some (ctx', c)"
        using True w in_order dr by (simp add: place_chunk_def)
      show "ctx_inv (L @ [chunk_entry h p]) ctx' \<and> settled ctx' \<and> same_stream ctx ctx' \<and>
          length (c_ooo ctx') \<le> unat mp" if "\<not> c"
        using drain_inv [OF inv, of ctx'] dr that assms(7) by (auto simp: same_stream_def AccountInOrder_def)
    qed
  next
    case ahead
    show ?thesis
    proof (cases "NotePlaced (allocates cl) (ch_chunkIndex h) ?d (ch_payloadSize h) mp ?put")
      case None
      then show ?thesis
        using that True w ahead by (simp add: place_chunk_def)
    next
      case (Some ctx')
      have "place_chunk cl mp h p ctx = Some (ctx', False)"
        using True w ahead Some by (simp add: place_chunk_def)
      moreover have "ctx_inv (L @ [chunk_entry h p]) ctx' \<and> settled ctx' \<and> same_stream ctx ctx' \<and>
          length (c_ooo ctx') \<le> unat mp"
        using fresh_chunk.accept_ahead [OF fc ahead, of "allocates cl" mp ctx'] Some
        by (simp add: chunk_entry_def)
      ultimately show ?thesis
        using that by blast
    qed
  qed
qed

section \<open>Messages\<close>

text \<open>A message as the host hands it to \<open>Handle\<close>, and the runs of the reassembler: messages
  and calls of \<open>Prune\<close>, in any order.\<close>

record message =
  m_call :: call
  m_req :: "byte list"
  m_type :: MsgType

datatype event = Arrives message | Pruned nat

fun run_events :: "event list \<Rightarrow> reassembler \<Rightarrow> (reply list \<times> reassembler) option" where
  "run_events [] r = Some ([], r)"
| "run_events (Arrives m # es) r =
     Option.bind (Handle (m_call m) (m_req m) 0 (m_type m) r) (\<lambda>(reply, r).
       map_option (\<lambda>(replies, r). (reply # replies, r)) (run_events es r))"
| "run_events (Pruned now # es) r = run_events es (Prune now r)"

fun messages :: "event list \<Rightarrow> message list" where
  "messages [] = []"
| "messages (Arrives m # es) = m # messages es"
| "messages (Pruned _ # es) = messages es"

text \<open>The chunk a message carries, when it is a chunk message that holds its payload.\<close>

definition chunk_of :: "message \<Rightarrow> (ChunkHeader \<times> byte list) option" where
  "chunk_of m = (let h = get_ChunkHeader (m_req m); n = unat (ch_payloadSize h) in
     if m_type m = STREAM_CHUNK \<and> sizeof_ChunkHeader \<le> length (m_req m) \<and>
        sizeof_ChunkHeader + n \<le> length (m_req m)
     then Some (h, take n (drop sizeof_ChunkHeader (m_req m))) else None)"

text \<open>
  The chunks of stream \<open>streamId\<close>, of \<open>n\<close> chunks, in a sequence of messages: for each index
  the first message that carries it, in the order of arrival.
\<close>

definition accept1 :: "u64 \<Rightarrow> nat \<Rightarrow> chunks \<Rightarrow> message \<Rightarrow> chunks" where
  "accept1 streamId n L m = (case chunk_of m of
     Some (h, p) \<Rightarrow>
       if ch_streamId h = streamId \<and> unat (ch_chunkIndex h) < n \<and> unat (ch_chunkIndex h) \<notin> fst ` set L
       then L @ [chunk_entry h p] else L
   | None \<Rightarrow> L)"

definition first_arrivals :: "u64 \<Rightarrow> nat \<Rightarrow> message list \<Rightarrow> chunks" where
  "first_arrivals streamId n ms = foldl (accept1 streamId n) [] ms"

text \<open>The stream header of a message that opens a stream.\<close>

definition start_of_stream :: "message \<Rightarrow> StreamHeader option" where
  "start_of_stream m = (if m_type m = STREAM_START \<and> sizeof_StreamHeader \<le> length (m_req m)
     then Some (get_StreamHeader (m_req m)) else None)"

section \<open>The invariant of the reassembler\<close>

text \<open>
  A context was created by an opening message, and holds exactly the first arrivals of its
  chunks since then.
\<close>

definition explained :: "message list \<Rightarrow> u64 \<Rightarrow> StreamContext \<Rightarrow> bool" where
  "explained tr streamId ctx = (\<exists>pre m post h. tr = pre @ m # post \<and> start_of_stream m = Some h \<and>
     sh_streamId h = streamId \<and> c_totalSize ctx = sh_totalSize h \<and>
     c_totalChunks ctx = sh_totalChunks h \<and> c_appMsgType ctx = sh_appMsgType h \<and>
     c_startTime ctx = nowStart (m_call m) \<and>
     ctx_inv (first_arrivals streamId (unat (sh_totalChunks h)) post) ctx)"

text \<open>
  A delivery is complete: it hands out the payloads of all chunks of one opened stream,
  each taken from its first arrival, in the order of their indices, with the tag of the
  opening message, and as many bytes as that message announced.
\<close>

definition justified :: "message list \<Rightarrow> u64 \<times> u32 \<times> byte list \<Rightarrow> bool" where
  "justified tr dl = (case dl of (streamId, tag, data) \<Rightarrow>
     \<exists>pre m post rest h. tr = pre @ m # post @ rest \<and> start_of_stream m = Some h \<and>
       sh_streamId h = streamId \<and> sh_appMsgType h = tag \<and> length data = unat (sh_totalSize h) \<and>
       (let n = unat (sh_totalChunks h); L = first_arrivals streamId n post in
        fst ` set L = {..<n} \<and> data = concat (map (payload L) [0..<n])))"

definition within_limits :: "reassembler_config \<Rightarrow> StreamContext \<Rightarrow> bool" where
  "within_limits cfg ctx = (settled ctx \<and> c_next ctx < c_totalChunks ctx \<and>
     c_totalSize ctx \<le> maxStreamSize cfg \<and> length (c_buf ctx) = unat (c_totalSize ctx) \<and>
     unat (c_totalChunks ctx) \<le> unat (maxStreamChunks cfg) \<and>
     length (c_ooo ctx) \<le> unat (maxParkedChunks cfg))"

definition reassembler_inv :: "reassembler_config \<Rightarrow> message list \<Rightarrow> reassembler \<Rightarrow> bool" where
  "reassembler_inv cfg tr r =
     (r_config r = cfg \<and> IsValid cfg \<and> distinct (map fst (r_streams r)) \<and>
      length (r_streams r) \<le> unat (maxStreams cfg) \<and>
      (\<forall>(streamId, ctx) \<in> set (r_streams r). explained tr streamId ctx \<and> within_limits cfg ctx) \<and>
      (\<forall>dl \<in> set (r_delivered r). justified tr dl))"

lemma first_arrivals_snoc: "first_arrivals i n (ms @ [m]) = accept1 i n (first_arrivals i n ms) m"
  by (simp add: first_arrivals_def)

lemma justified_mono: "justified tr dl \<Longrightarrow> justified (tr @ [m]) dl"
  unfolding justified_def by (cases dl) (simp, metis append.assoc append_Cons)

text \<open>The indices a context has accepted are those the two duplicate tests recognise.\<close>

lemma seen_iff:
  assumes "ctx_inv L ctx"
  shows "unat idx \<in> fst ` set L \<longleftrightarrow> idx < c_next ctx \<or> map_of (c_ooo ctx) idx \<noteq> None"
  using ctx_invD(5) [OF assms]
  by (auto simp: records_chunks_def word_less_nat_alt domIff dest: word_unat_eq_iff [THEN iffD2])

lemma explained_skip:
  assumes "explained tr i ctx"
    and "\<And>h p. chunk_of m = Some (h, p) \<Longrightarrow> ch_streamId h = i \<Longrightarrow> ch_chunkIndex h < c_totalChunks ctx \<Longrightarrow>
      ch_chunkIndex h < c_next ctx \<or> map_of (c_ooo ctx) (ch_chunkIndex h) \<noteq> None"
  shows "explained (tr @ [m]) i ctx"
proof -
  obtain pre m0 post h0 where e: "tr = pre @ m0 # post" "start_of_stream m0 = Some h0"
      "sh_streamId h0 = i" "c_totalSize ctx = sh_totalSize h0" "c_totalChunks ctx = sh_totalChunks h0"
      "c_appMsgType ctx = sh_appMsgType h0" "c_startTime ctx = nowStart (m_call m0)"
    and inv: "ctx_inv (first_arrivals i (unat (sh_totalChunks h0)) post) ctx"
    using assms(1) unfolding explained_def by blast
  have "first_arrivals i (unat (sh_totalChunks h0)) (post @ [m]) =
      first_arrivals i (unat (sh_totalChunks h0)) post"
    using assms(2) seen_iff [OF inv] e(5)
    by (auto simp: first_arrivals_snoc accept1_def word_less_nat_alt split: option.splits)
  then show ?thesis
    unfolding explained_def using e inv by (metis append.assoc append_Cons)
qed

lemma explained_accept:
  assumes "explained tr i ctx" and "chunk_of m = Some (h, p)" and "ch_streamId h = i"
    and "ch_chunkIndex h < c_totalChunks ctx"
    and "\<not> (ch_chunkIndex h < c_next ctx \<or> map_of (c_ooo ctx) (ch_chunkIndex h) \<noteq> None)"
  obtains L where "ctx_inv L ctx"
    and "\<And>ctx'. same_stream ctx ctx' \<Longrightarrow> ctx_inv (L @ [chunk_entry h p]) ctx' \<Longrightarrow> explained (tr @ [m]) i ctx'"
    and "\<And>ctx'. same_stream ctx ctx' \<Longrightarrow> ctx_inv (L @ [chunk_entry h p]) ctx' \<Longrightarrow>
      c_next ctx' = c_totalChunks ctx' \<Longrightarrow> c_offset ctx' = c_totalSize ctx' \<Longrightarrow>
      justified (tr @ [m]) (i, c_appMsgType ctx', c_buf ctx')"
proof -
  obtain pre m0 post h0 where e: "tr = pre @ m0 # post" "start_of_stream m0 = Some h0"
      "sh_streamId h0 = i" "c_totalSize ctx = sh_totalSize h0" "c_totalChunks ctx = sh_totalChunks h0"
      "c_appMsgType ctx = sh_appMsgType h0" "c_startTime ctx = nowStart (m_call m0)"
    and inv: "ctx_inv (first_arrivals i (unat (sh_totalChunks h0)) post) ctx"
    using assms(1) unfolding explained_def by blast
  let ?n = "unat (sh_totalChunks h0)" and ?L = "first_arrivals i (unat (sh_totalChunks h0)) post"
  have ext: "first_arrivals i ?n (post @ [m]) = ?L @ [chunk_entry h p]"
    using assms(2-5) seen_iff [OF inv] e(5)
    by (simp add: first_arrivals_snoc accept1_def word_less_nat_alt)
  have tr: "tr @ [m] = pre @ m0 # (post @ [m])"
    using e(1) by simp
  show ?thesis
  proof (rule that [OF inv])
    fix ctx' assume s: "same_stream ctx ctx'" and inv': "ctx_inv (?L @ [chunk_entry h p]) ctx'"
    show "explained (tr @ [m]) i ctx'"
      unfolding explained_def
      by (rule exI [of _ pre], rule exI [of _ m0], rule exI [of _ "post @ [m]"], rule exI [of _ h0])
        (use s inv' e tr in \<open>simp add: ext same_stream_def\<close>)
    assume fin: "c_next ctx' = c_totalChunks ctx'" "c_offset ctx' = c_totalSize ctx'"
    have "fst ` set (?L @ [chunk_entry h p]) = {..<?n}"
      using ctx_inv_indices [OF inv', unfolded fin(1)] s [unfolded same_stream_def e(5)]
      by (simp only: subset_antisym)
    moreover have "c_buf ctx' = concat (map (payload (?L @ [chunk_entry h p])) [0..<?n])"
      using ctx_inv_complete [OF inv' fin] s e(5) by (simp add: same_stream_def)
    moreover have "length (c_buf ctx') = unat (sh_totalSize h0)"
      using ctx_inv_buf [OF inv'] s e(4) by (simp add: same_stream_def)
    ultimately show "justified (tr @ [m]) (i, c_appMsgType ctx', c_buf ctx')"
      unfolding justified_def prod.case Let_def
      by - (rule exI [of _ pre], rule exI [of _ m0], rule exI [of _ "post @ [m]"], rule exI [of _ "[]"],
          rule exI [of _ h0], use s e tr in \<open>simp add: ext same_stream_def\<close>)
  qed
qed

section \<open>Every message keeps the invariant\<close>

lemma invD:
  assumes "reassembler_inv cfg tr r"
  shows "r_config r = cfg" "IsValid cfg" "distinct (map fst (r_streams r))"
    "length (r_streams r) \<le> unat (maxStreams cfg)"
    "\<And>i ctx. (i, ctx) \<in> set (r_streams r) \<Longrightarrow> explained tr i ctx \<and> within_limits cfg ctx"
    "\<And>dl. dl \<in> set (r_delivered r) \<Longrightarrow> justified tr dl"
  using assms unfolding reassembler_inv_def by auto

lemma invI:
  assumes "r_config r = cfg" and "IsValid cfg" and "distinct (map fst (r_streams r))"
    and "length (r_streams r) \<le> unat (maxStreams cfg)"
    and "\<And>i ctx. (i, ctx) \<in> set (r_streams r) \<Longrightarrow> explained tr i ctx \<and> within_limits cfg ctx"
    and "\<And>dl. dl \<in> set (r_delivered r) \<Longrightarrow> justified tr dl"
  shows "reassembler_inv cfg tr r"
  using assms unfolding reassembler_inv_def by auto

text \<open>A message that the streams in the map need not know about.\<close>

lemma inv_skip:
  assumes "reassembler_inv cfg tr r"
    and "\<And>h p ctx. chunk_of m = Some (h, p) \<Longrightarrow> map_of (r_streams r) (ch_streamId h) = Some ctx \<Longrightarrow>
      ch_chunkIndex h < c_totalChunks ctx \<Longrightarrow>
      ch_chunkIndex h < c_next ctx \<or> map_of (c_ooo ctx) (ch_chunkIndex h) \<noteq> None"
  shows "reassembler_inv cfg (tr @ [m]) r"
proof (rule invI)
  fix i ctx assume c: "(i, ctx) \<in> set (r_streams r)"
  then have "map_of (r_streams r) i = Some ctx"
    using invD(3) [OF assms(1)] by simp
  then show "explained (tr @ [m]) i ctx \<and> within_limits cfg ctx"
    using invD(5) [OF assms(1) c] explained_skip assms(2) by blast
qed (use invD [OF assms(1)] justified_mono in auto)

lemma inv_drop:
  "reassembler_inv cfg tr r \<Longrightarrow> reassembler_inv cfg tr (r\<lparr>r_streams := AList.delete i (r_streams r)\<rparr>)"
  unfolding reassembler_inv_def
  by (auto simp: AList.delete_eq distinct_map_filter intro: le_trans [OF length_filter_le])

lemma inv_prune: "reassembler_inv cfg tr r \<Longrightarrow> reassembler_inv cfg tr (PruneInternal now r)"
  unfolding reassembler_inv_def PruneInternal_def
  by (auto simp: distinct_map_filter intro: le_trans [OF length_filter_le])

lemma inv_deliver:
  "reassembler_inv cfg tr r \<Longrightarrow> justified tr (i, tag, data) \<Longrightarrow> reassembler_inv cfg tr (deliver i tag data r)"
  by (auto simp: reassembler_inv_def deliver_def)

lemma length_update_le: "length (AList.update k v al) \<le> Suc (length al)"
  by (induction al) auto

lemma length_update_present: "map_of al k \<noteq> None \<Longrightarrow> length (AList.update k v al) = length al"
  by (induction al) (auto split: if_splits)

lemma inv_store:
  assumes "reassembler_inv cfg tr0 r" and "explained tr i ctx" and "within_limits cfg ctx"
    and "map_of (r_streams r) i \<noteq> None \<or> length (r_streams r) < unat (maxStreams cfg)"
    and "\<And>j c. (j, c) \<in> set (r_streams r) \<Longrightarrow> j \<noteq> i \<Longrightarrow> explained tr j c"
    and "\<And>dl. dl \<in> set (r_delivered r) \<Longrightarrow> justified tr dl"
  shows "reassembler_inv cfg tr (r\<lparr>r_streams := AList.update i ctx (r_streams r)\<rparr>)"
proof (rule invI)
  let ?u = "AList.update i ctx (r_streams r)"
  show d: "distinct (map fst (r_streams (r\<lparr>r_streams := ?u\<rparr>)))"
    using invD(3) [OF assms(1)] by (simp add: distinct_update)
  show "length (r_streams (r\<lparr>r_streams := ?u\<rparr>)) \<le> unat (maxStreams cfg)"
    using assms(4) length_update_present [of "r_streams r" i ctx] length_update_le [of i ctx "r_streams r"]
      invD(4) [OF assms(1)] by auto
  fix j c assume "(j, c) \<in> set (r_streams (r\<lparr>r_streams := ?u\<rparr>))"
  then have "map_of ?u j = Some c"
    using d by simp
  then have "j = i \<and> c = ctx \<or> j \<noteq> i \<and> (j, c) \<in> set (r_streams r)"
    by (auto simp: update_conv' split: if_splits dest: map_of_SomeD)
  then show "explained tr j c \<and> within_limits cfg c"
    using assms(2,3,5) invD(5) [OF assms(1)] by blast
qed (use invD [OF assms(1)] assms(6) in auto)

lemma chunk_of_start: "m_type m = STREAM_START \<Longrightarrow> chunk_of m = None"
  by (simp add: chunk_of_def Let_def shm_consts)

lemma Handle_start_inv:
  assumes "reassembler_inv cfg tr r" and "m_type m = STREAM_START"
    and "handle_start (m_call m) (m_req m) r = (reply, r')"
  shows "reassembler_inv cfg (tr @ [m]) r'"
proof -
  let ?h = "get_StreamHeader (m_req m)"
  have skip: "reassembler_inv cfg (tr @ [m]) r"
    by (rule inv_skip [OF assms(1)]) (simp add: chunk_of_start [OF assms(2)])
  define p where "p = PruneInternal (nowPrune (m_call m)) r"
  have pruned: "reassembler_inv cfg (tr @ [m]) p"
    unfolding p_def by (rule inv_prune [OF skip])
  note cfg = invD(1,2) [OF skip] and pcfg = invD(1) [OF pruned]
  show ?thesis
  proof (cases "length (m_req m) < sizeof_StreamHeader")
    case True
    then show ?thesis using assms(3) skip by (simp add: handle_start_def)
  next
    case long: False
    then have st: "start_of_stream m = Some ?h"
      using assms(2) by (simp add: start_of_stream_def)
    show ?thesis
    proof (cases "sh_totalSize ?h > maxStreamSize cfg \<or> ucast (sh_totalChunks ?h) > maxStreamChunks cfg")
      case True
      then show ?thesis using assms(3) skip long cfg by (simp add: handle_start_def Let_def)
    next
      case bounded: False
      show ?thesis
      proof (cases "sh_totalChunks ?h = 0")
        case True
        have "justified (tr @ [m]) (sh_streamId ?h, sh_appMsgType ?h, [])" if "sh_totalSize ?h = 0"
          unfolding justified_def prod.case Let_def
          by (rule exI [of _ tr], rule exI [of _ m], rule exI [of _ "[]"], rule exI [of _ "[]"],
              rule exI [of _ ?h]) (use that True st in \<open>simp add: first_arrivals_def\<close>)
        then show ?thesis
          using assms(3) skip long bounded True cfg inv_deliver [OF skip]
          by (auto simp: handle_start_def Let_def split: if_splits)
      next
        case nonempty: False
        have ctx: "explained (tr @ [m]) (sh_streamId ?h) (new_context ?h (nowStart (m_call m)))"
          unfolding explained_def
          by (rule exI [of _ tr], rule exI [of _ m], rule exI [of _ "[]"], rule exI [of _ ?h])
            (use st bounded cfg(2) ctx_inv_new [of ?h] in
              \<open>auto simp: first_arrivals_def IsValid_def new_context_def not_less\<close>)
        have lim: "within_limits cfg (new_context ?h (nowStart (m_call m)))"
          using bounded nonempty by (simp add: within_limits_def new_context_def settled_def not_less
              word_le_nat_alt word_neq_0_conv)
        show ?thesis
          using assms(3) long bounded nonempty cfg pruned pcfg
            inv_store [OF pruned ctx lim] invD(5,6) [OF pruned]
          by (auto simp: handle_start_def Let_def p_def [symmetric] not_le split: if_splits)
      qed
    qed
  qed
qed

lemma finish_chunk_inv:
  assumes "reassembler_inv cfg tr r" and "chunk_of m = Some (h, p)"
    and "map_of (r_streams r) (ch_streamId h) = Some ctx" and "within_limits cfg ctx"
    and "\<not> corrupt \<Longrightarrow> ctx_inv L' ctx' \<and> settled ctx' \<and> same_stream ctx ctx' \<and>
      length (c_ooo ctx') \<le> unat (maxParkedChunks cfg)"
    and "\<And>ctx'. same_stream ctx ctx' \<Longrightarrow> ctx_inv L' ctx' \<Longrightarrow> explained (tr @ [m]) (ch_streamId h) ctx'"
    and "\<And>ctx'. same_stream ctx ctx' \<Longrightarrow> ctx_inv L' ctx' \<Longrightarrow>
      c_next ctx' = c_totalChunks ctx' \<Longrightarrow> c_offset ctx' = c_totalSize ctx' \<Longrightarrow>
      justified (tr @ [m]) (ch_streamId h, c_appMsgType ctx', c_buf ctx')"
  shows "reassembler_inv cfg (tr @ [m]) (snd (finish_chunk (ch_streamId h) (ctx', corrupt) r))"
proof -
  define dropped where "dropped = r\<lparr>r_streams := AList.delete (ch_streamId h) (r_streams r)\<rparr>"
  have dr: "reassembler_inv cfg (tr @ [m]) dropped"
  proof (rule inv_skip)
    show "reassembler_inv cfg tr dropped"
      unfolding dropped_def by (rule inv_drop [OF assms(1)])
  qed (use assms(2) in \<open>auto simp: dropped_def delete_conv\<close>)
  show ?thesis
  proof (cases "corrupt \<or> c_next ctx' = c_totalChunks ctx'")
    case True
    then show ?thesis
      using dr assms(5) inv_deliver [OF dr] assms(7) [of ctx']
      by (auto simp: finish_chunk_def Let_def dropped_def [symmetric])
  next
    case False
    then have ok: "ctx_inv L' ctx'" "settled ctx'" "same_stream ctx ctx'"
        "length (c_ooo ctx') \<le> unat (maxParkedChunks cfg)"
      using assms(5) by auto
    have "unat (c_next ctx') \<le> unat (c_totalChunks ctx')"
      using ctx_inv_indices [OF ok(1)] by (metis lessThan_subset_iff order_trans)
    then have "c_next ctx' < c_totalChunks ctx'"
      using False by (simp add: word_less_nat_alt le_neq_implies_less word_unat_eq_iff)
    then have lim: "within_limits cfg ctx'"
      using assms(4) ok ctx_inv_buf [OF ok(1)] by (simp add: within_limits_def same_stream_def)
    have "reassembler_inv cfg (tr @ [m]) (r\<lparr>r_streams := AList.update (ch_streamId h) ctx' (r_streams r)\<rparr>)"
    proof (rule inv_store [OF assms(1) assms(6) lim])
      fix j c assume "(j, c) \<in> set (r_streams r)" "j \<noteq> ch_streamId h"
      then show "explained (tr @ [m]) j c"
        using explained_skip [of tr j c m] invD(5) [OF assms(1)] assms(2) by auto
    qed (use ok assms(3) invD(6) [OF assms(1)] justified_mono in auto)
    then show ?thesis
      using False by (simp add: finish_chunk_def Let_def)
  qed
qed

text \<open>A chunk message that holds its payload, in one equation.\<close>

lemma handle_chunk_eq:
  assumes "chunk_of m = Some (h, p)"
  shows "handle_chunk (m_call m) (m_req m) r = (case map_of (r_streams r) (ch_streamId h) of
      None \<Rightarrow> Some (reply_error, r)
    | Some ctx \<Rightarrow>
        if ch_chunkIndex h \<ge> c_totalChunks ctx then Some (reply_error, r)
        else if ch_chunkIndex h < c_next ctx \<or> map_of (c_ooo ctx) (ch_chunkIndex h) \<noteq> None
        then Some (reply_ok, r)
        else map_option (\<lambda>result. finish_chunk (ch_streamId h) result r)
          (place_chunk (m_call m) (maxParkedChunks (r_config r)) h p ctx)) \<and>
    length p = unat (ch_payloadSize h)"
proof -
  have h: "h = get_ChunkHeader (m_req m)" "p = take (unat (ch_payloadSize h)) (drop sizeof_ChunkHeader (m_req m))"
    and len: "(length (m_req m) < sizeof_ChunkHeader) = False"
      "(length (m_req m) < sizeof_ChunkHeader + unat (ch_payloadSize h)) = False"
    using assms by (auto simp: chunk_of_def Let_def split: if_splits)
  have read: "mem_read sizeof_ChunkHeader (unat (ch_payloadSize h)) (m_req m) = Some p"
    using len by (simp add: h(2) mem_safe)
  have eq: "handle_chunk (m_call m) (m_req m) r = (case map_of (r_streams r) (ch_streamId h) of
      None \<Rightarrow> Some (reply_error, r)
    | Some ctx \<Rightarrow>
        if ch_chunkIndex h \<ge> c_totalChunks ctx then Some (reply_error, r)
        else if ch_chunkIndex h < c_next ctx \<or> map_of (c_ooo ctx) (ch_chunkIndex h) \<noteq> None
        then Some (reply_ok, r)
        else map_option (\<lambda>result. finish_chunk (ch_streamId h) result r)
          (place_chunk (m_call m) (maxParkedChunks (r_config r)) h p ctx))"
    unfolding handle_chunk_def Let_def h(1) [symmetric] len if_False read Option.bind.bind_lunit ..
  show ?thesis
    using eq mem_read_length [OF read] by blast
qed

lemma Handle_chunk_inv:
  assumes "reassembler_inv cfg tr r" and "m_type m = STREAM_CHUNK"
  obtains reply r' where "handle_chunk (m_call m) (m_req m) r = Some (reply, r')"
    and "reassembler_inv cfg (tr @ [m]) r'"
proof (cases "chunk_of m")
  case None
  then have "handle_chunk (m_call m) (m_req m) r = Some (reply_error, r)"
    using assms(2) by (auto simp: handle_chunk_def chunk_of_def Let_def not_le split: if_splits)
  moreover have "reassembler_inv cfg (tr @ [m]) r"
    by (rule inv_skip [OF assms(1)]) (simp add: None)
  ultimately show ?thesis by (rule that)
next
  case (Some hp)
  obtain h p where hp: "hp = (h, p)" by (cases hp)
  note chunk = Some [unfolded hp]
  note eq = handle_chunk_eq [OF chunk, of r, THEN conjunct1] and lp = handle_chunk_eq [OF chunk, THEN conjunct2]
  show ?thesis
  proof (cases "map_of (r_streams r) (ch_streamId h)")
    case None
    moreover have "reassembler_inv cfg (tr @ [m]) r"
      by (rule inv_skip [OF assms(1)]) (use chunk None in auto)
    ultimately show ?thesis using that eq by simp
  next
    case ctx: (Some ctx)
    then have mem: "(ch_streamId h, ctx) \<in> set (r_streams r)"
      by (rule map_of_SomeD)
    note E = invD(5) [OF assms(1) mem]
    show ?thesis
    proof (cases "ch_chunkIndex h < c_totalChunks ctx \<and>
        \<not> (ch_chunkIndex h < c_next ctx \<or> map_of (c_ooo ctx) (ch_chunkIndex h) \<noteq> None)")
      case False
      then have "handle_chunk (m_call m) (m_req m) r =
          Some (if ch_chunkIndex h \<ge> c_totalChunks ctx then reply_error else reply_ok, r)"
        unfolding eq ctx option.case by (auto simp: not_le)
      moreover have "reassembler_inv cfg (tr @ [m]) r"
        by (rule inv_skip [OF assms(1)]) (use chunk ctx False in auto)
      ultimately show ?thesis using that by blast
    next
      case True
      obtain L where L: "ctx_inv L ctx"
        and exp: "\<And>ctx'. same_stream ctx ctx' \<Longrightarrow> ctx_inv (L @ [chunk_entry h p]) ctx' \<Longrightarrow>
          explained (tr @ [m]) (ch_streamId h) ctx'"
        and jus: "\<And>ctx'. same_stream ctx ctx' \<Longrightarrow> ctx_inv (L @ [chunk_entry h p]) ctx' \<Longrightarrow>
          c_next ctx' = c_totalChunks ctx' \<Longrightarrow> c_offset ctx' = c_totalSize ctx' \<Longrightarrow>
          justified (tr @ [m]) (ch_streamId h, c_appMsgType ctx', c_buf ctx')"
        using explained_accept [OF E [THEN conjunct1] chunk refl] True by metis
      obtain ctx' corrupt where pl: "place_chunk (m_call m) (maxParkedChunks cfg) h p ctx = Some (ctx', corrupt)"
        and ok: "\<not> corrupt \<Longrightarrow> ctx_inv (L @ [chunk_entry h p]) ctx' \<and> settled ctx' \<and> same_stream ctx ctx' \<and>
          length (c_ooo ctx') \<le> unat (maxParkedChunks cfg)"
        by (rule place_chunk_inv [OF L, of h p "maxParkedChunks cfg" "m_call m"])
          (use E True lp in \<open>auto simp: within_limits_def not_less\<close>)
      have "handle_chunk (m_call m) (m_req m) r = Some (finish_chunk (ch_streamId h) (ctx', corrupt) r)"
        unfolding eq ctx option.case using True pl invD(1) [OF assms(1)] by (simp add: not_le [symmetric])
      moreover have "reassembler_inv cfg (tr @ [m]) (snd (finish_chunk (ch_streamId h) (ctx', corrupt) r))"
        by (rule finish_chunk_inv [OF assms(1) chunk ctx E [THEN conjunct2] ok exp jus])
      ultimately show ?thesis
        using that by (metis prod.collapse)
    qed
  qed
qed

lemma Handle_inv:
  assumes "reassembler_inv cfg tr r"
  obtains reply r' where "Handle (m_call m) (m_req m) 0 (m_type m) r = Some (reply, r')"
    and "reassembler_inv cfg (tr @ [m]) r'"
proof -
  consider (start) "m_type m = STREAM_START" | (chunk) "m_type m = STREAM_CHUNK"
    | (other) "m_type m \<noteq> STREAM_START" "m_type m \<noteq> STREAM_CHUNK" by blast
  then show ?thesis
  proof cases
    case start
    then show ?thesis
      using that Handle_start_inv [OF assms start]
      by (cases "handle_start (m_call m) (m_req m) r") (simp add: Handle_def)
  next
    case chunk
    then have "m_type m \<noteq> STREAM_START" by (simp add: shm_consts)
    then show ?thesis
      using that chunk by (auto simp: Handle_def intro: Handle_chunk_inv [OF assms chunk])
  next
    case other
    then have "reassembler_inv cfg (tr @ [m]) r"
      by (intro inv_skip [OF assms]) (simp add: chunk_of_def Let_def)
    then show ?thesis
      using that other by (simp add: Handle_def)
  qed
qed

lemma run_events_inv:
  assumes "reassembler_inv cfg tr r"
  shows "\<exists>replies r'. run_events es r = Some (replies, r') \<and> reassembler_inv cfg (tr @ messages es) r'"
  using assms
proof (induction es r arbitrary: tr rule: run_events.induct)
  case (2 m es r)
  obtain reply r1 where 1: "Handle (m_call m) (m_req m) 0 (m_type m) r = Some (reply, r1)"
    and inv1: "reassembler_inv cfg (tr @ [m]) r1"
    using Handle_inv [OF "2.prems"] by blast
  show ?case
    using "2.IH" [OF 1 refl inv1] 1 by auto
next
  case (3 now es r)
  then show ?case
    using inv_prune by (simp add: Prune_def)
qed simp

lemma initial_inv: "reassembler_inv (r_config (StreamReassembler cfg)) [] (StreamReassembler cfg)"
  by (auto simp: reassembler_inv_def StreamReassembler_def IsValid_def)

lemma reachable_inv:
  obtains replies r where "run_events es (StreamReassembler cfg) = Some (replies, r)"
    and "reassembler_inv (r_config (StreamReassembler cfg)) (messages es) r"
  using run_events_inv [OF initial_inv, of es cfg] by auto

section \<open>What holds for every peer\<close>

text \<open>The bytes the reassembler holds in destination buffers.\<close>

definition resident :: "reassembler \<Rightarrow> nat" where
  "resident r = sum_list (map (length \<circ> c_buf \<circ> snd) (r_streams r))"

lemma sum_list_bound: "(\<And>x. x \<in> set xs \<Longrightarrow> f x \<le> b) \<Longrightarrow> sum_list (map f xs) \<le> length xs * (b :: nat)"
  by (induction xs) (auto simp: add_mono)

text \<open>
  C8. Whatever messages a peer sends, in whatever order and with whatever content, and
  whenever \<open>Prune\<close> runs, no access leaves the destination buffer of a stream: every call of
  \<open>Handle\<close> returns. Afterwards there are at most \<open>maxStreams\<close> streams, with distinct ids;
  each of them is incomplete, has a buffer of its advertised size, which is at most
  \<open>maxStreamSize\<close>, and at most \<open>maxParkedChunks\<close> parked records. So the buffers hold at most
  \<open>maxStreams * 2\<^sup>3\<^sup>0\<close> bytes, even where the configuration asked for more per stream.
\<close>

theorem reassembler_bounded:
  "case run_events es (StreamReassembler cfg) of
     None \<Rightarrow> False
   | Some (replies, r) \<Rightarrow>
       length (r_streams r) \<le> unat (maxStreams cfg) \<and> distinct (map fst (r_streams r)) \<and>
       list_all (\<lambda>(_, ctx). within_limits cfg ctx) (r_streams r) \<and>
       resident r \<le> unat (maxStreams cfg) * min (unat (maxStreamSize cfg)) (2 ^ 30)"
proof -
  obtain replies r where run: "run_events es (StreamReassembler cfg) = Some (replies, r)"
    and inv: "reassembler_inv (r_config (StreamReassembler cfg)) (messages es) r"
    by (rule reachable_inv)
  let ?c = "r_config (StreamReassembler cfg)"
  have eq: "maxStreams ?c = maxStreams cfg" "maxStreamChunks ?c = maxStreamChunks cfg"
      "maxParkedChunks ?c = maxParkedChunks cfg" "maxStreamSize ?c \<le> maxStreamSize cfg"
      "unat (maxStreamSize ?c) \<le> 2 ^ 30"
    using le_kMax [of "maxStreamSize ?c"]
    by (auto simp: StreamReassembler_def IsValid_def not_le le_kMax [symmetric])
  have lim: "within_limits cfg ctx \<and> length (c_buf ctx) \<le> min (unat (maxStreamSize cfg)) (2 ^ 30)"
    if "(i, ctx) \<in> set (r_streams r)" for i ctx
    using invD(5) [OF inv that] eq by (auto simp: within_limits_def word_le_nat_alt)
  have "resident r \<le> length (r_streams r) * min (unat (maxStreamSize cfg)) (2 ^ 30)"
    unfolding resident_def by (rule sum_list_bound) (use lim in auto)
  also have "\<dots> \<le> unat (maxStreams cfg) * min (unat (maxStreamSize cfg)) (2 ^ 30)"
    using invD(4) [OF inv] eq(1) by (intro mult_le_mono1) simp
  finally show ?thesis
    using run lim invD(3,4) [OF inv] eq(1) by (auto simp: list_all_iff)
qed

text \<open>
  C6. Integrity of delivery: whatever messages a peer sends, everything handed to the
  completion callback is the concatenation, in index order, of the first arrivals of all
  the chunks of one opened stream, exactly as long as that stream announced, and carries
  the routing tag of its own opening message. No byte is left unwritten, taken from
  another stream or counted twice.
\<close>

theorem deliveries_are_whole_streams:
  "case run_events es (StreamReassembler cfg) of
     None \<Rightarrow> False
   | Some (replies, r) \<Rightarrow> list_all (justified (messages es)) (r_delivered r)"
proof -
  obtain replies r where "run_events es (StreamReassembler cfg) = Some (replies, r)"
    and inv: "reassembler_inv (r_config (StreamReassembler cfg)) (messages es) r"
    by (rule reachable_inv)
  then show ?thesis
    using invD(6) [OF inv] by (simp add: list_all_iff)
qed

text \<open>What a snapshot says about the chunks that have arrived.\<close>

definition shows_arrivals :: "chunks \<Rightarrow> StreamSnapshot \<Rightarrow> bool" where
  "shows_arrivals L s =
     (s_buf s = written L (unat (s_totalSize s)) \<and>
      fst ` set L = {..<unat (s_next s)} \<union> unat ` fst ` set (s_placed s) \<and>
      unat (s_next s) \<notin> fst ` set L \<and>
      unat (s_offset s) = start_of L (unat (s_next s)) \<and>
      unat (s_offset s) + unat (s_oooBytes s) = total_len L \<and>
      list_all (\<lambda>(k, d, n). \<exists>p. map_of L (unat k) = Some (unat d, p) \<and> length p = unat n) (s_placed s))"

lemma snapshot_shows:
  assumes inv: "ctx_inv L ctx" and st: "settled ctx" and pk: "map_of (r_streams r) i = Some ctx"
    and s: "PeekStream i r = Some s"
  shows "shows_arrivals L s"
proof -
  have s': "s = \<lparr>s_totalSize = c_totalSize ctx, s_totalChunks = c_totalChunks ctx, s_next = c_next ctx,
      s_offset = c_offset ctx, s_oooBytes = c_oooBytes ctx, s_buf = c_buf ctx,
      s_placed = map (\<lambda>(i, p). (i, (p_dstOffset p, p_size p))) (c_ooo ctx)\<rparr>"
    using s pk by (simp add: PeekStream_def)
  have keys: "fst ` set (s_placed s) = dom (map_of (c_ooo ctx))"
    unfolding s' by (auto simp: dom_map_of_conv_image_fst image_image case_prod_unfold)
  have rec: "fst ` set L = {..<unat (c_next ctx)} \<union> unat ` dom (map_of (c_ooo ctx))"
      "distinct (map fst (c_ooo ctx))"
    and at: "\<And>k p. map_of (c_ooo ctx) k = Some p \<Longrightarrow>
      \<exists>pl. map_of L (unat k) = Some (unat (p_dstOffset p), pl) \<and> length pl = unat (p_size p)"
    using ctx_invD(5) [OF inv] unfolding records_chunks_def by blast+
  have "list_all (\<lambda>(k, d, n). \<exists>p. map_of L (unat k) = Some (unat d, p) \<and> length p = unat n) (s_placed s)"
    unfolding s' using at rec(2) by (fastforce simp: list_all_iff)
  moreover have "unat (c_next ctx) \<notin> fst ` set L"
    using seen_iff [OF inv, of "c_next ctx"] st by (simp add: settled_def)
  ultimately show ?thesis
    unfolding shows_arrivals_def keys using rec(1) ctx_invD(2,7,8) [OF inv] by (simp add: s')
qed

text \<open>
  C29. Placement: at every moment of every run, the snapshot \<open>PeekStream\<close> takes of a stream
  in flight is determined by the first arrivals of its chunks since it was opened. Every
  one of them, ahead of the cursor or not, is already written at its \<open>dstOffset\<close>; the
  cursor stands at the first missing index and at the sum of the lengths before it; the
  parked records are those of the chunks beyond it, and their bytes are counted once.
\<close>

theorem peek_shows_first_arrivals:
  "case run_events es (StreamReassembler cfg) of
     None \<Rightarrow> False
   | Some (replies, r) \<Rightarrow> (case PeekStream i r of
       None \<Rightarrow> map_of (r_streams r) i = None
     | Some s \<Rightarrow> \<exists>pre m post h. messages es = pre @ m # post \<and> start_of_stream m = Some h \<and>
         sh_streamId h = i \<and> s_totalSize s = sh_totalSize h \<and> s_totalChunks s = sh_totalChunks h \<and>
         shows_arrivals (first_arrivals i (unat (sh_totalChunks h)) post) s)"
proof -
  obtain replies r where run: "run_events es (StreamReassembler cfg) = Some (replies, r)"
    and inv: "reassembler_inv (r_config (StreamReassembler cfg)) (messages es) r"
    by (rule reachable_inv)
  show ?thesis
  proof (cases "map_of (r_streams r) i")
    case None
    then show ?thesis by (simp add: run PeekStream_def)
  next
    case (Some ctx)
    obtain s where s: "PeekStream i r = Some s" "s_totalSize s = c_totalSize ctx" "s_totalChunks s = c_totalChunks ctx"
      using Some by (simp add: PeekStream_def)
    have e: "explained (messages es) i ctx" "settled ctx"
      using invD(5) [OF inv map_of_SomeD [OF Some]] by (simp_all add: within_limits_def)
    from e(1) have "\<exists>pre m post h. messages es = pre @ m # post \<and> start_of_stream m = Some h \<and>
        sh_streamId h = i \<and> s_totalSize s = sh_totalSize h \<and> s_totalChunks s = sh_totalChunks h \<and>
        shows_arrivals (first_arrivals i (unat (sh_totalChunks h)) post) s"
      unfolding explained_def s(2,3) using snapshot_shows [OF _ e(2) Some s(1)] by blast
    then show ?thesis
      by (simp add: run s(1))
  qed
qed

end
