(* ===== verification/Shm_Reassembler_Complete.thy ===== *)
theory Shm_Reassembler_Complete
  imports Shm_Reassembler_Trace
begin

text \<open>
  Delivery. A stream cut into chunks by a conforming sender is delivered exactly as it was
  sent, whatever the order of its chunks and whatever other traffic is interleaved, as long
  as the chunks that run ahead of the cursor fit the parking limit.
\<close>

section \<open>A conforming stream\<close>

definition offs :: "byte list list \<Rightarrow> nat \<Rightarrow> nat" where
  "offs ps k = sum_list (map length (take k ps))"

definition chunk_header :: "u64 \<Rightarrow> byte list list \<Rightarrow> nat \<Rightarrow> ChunkHeader" where
  "chunk_header streamId ps k = \<lparr>ch_streamId = streamId, ch_chunkIndex = word_of_nat k,
     ch_payloadSize = word_of_nat (length (ps ! k)), ch_dstOffset = word_of_nat (offs ps k), ch_padding = 0\<rparr>"

definition chunk_bytes :: "u64 \<Rightarrow> byte list list \<Rightarrow> nat \<Rightarrow> byte list" where
  "chunk_bytes streamId ps k = ChunkHeader_bytes (chunk_header streamId ps k) @ ps ! k"

definition start_header :: "u64 \<Rightarrow> u32 \<Rightarrow> byte list list \<Rightarrow> StreamHeader" where
  "start_header streamId tag ps = \<lparr>sh_streamId = streamId, sh_totalSize = word_of_nat (length (concat ps)),
     sh_totalChunks = word_of_nat (length ps), sh_appMsgType = tag\<rparr>"

text \<open>
  A stream that conforms and that both limits admit. It has at least one byte: the empty stream
  has no chunks (SPECIFICATION.md, 3.3.4) and is delivered by its opening message.
\<close>

definition admissible :: "reassembler_config \<Rightarrow> byte list list \<Rightarrow> bool" where
  "admissible cfg ps = (concat ps \<noteq> [] \<and> length ps < 2 ^ 32 \<and> length ps \<le> unat (maxStreamChunks cfg) \<and>
     length (concat ps) \<le> unat (maxStreamSize cfg) \<and> IsValid cfg)"

lemma offs_0 [simp]: "offs ps 0 = 0"
  by (simp add: offs_def)

lemma offs_Suc: "k < length ps \<Longrightarrow> offs ps (Suc k) = offs ps k + length (ps ! k)"
  by (simp add: offs_def take_Suc_conv_app_nth)

lemma offs_all: "offs ps (length ps) = length (concat ps)"
  by (simp add: offs_def length_concat)

lemma offs_sum: "n \<le> length ps \<Longrightarrow> offs ps n = (\<Sum>j<n. length (ps ! j))"
  by (induction n) (simp_all add: offs_Suc)

lemma offs_mono: "i \<le> j \<Longrightarrow> j \<le> length ps \<Longrightarrow> offs ps i \<le> offs ps j"
  by (simp add: offs_sum sum_mono2)

lemma admissible_nonempty: "admissible cfg ps \<Longrightarrow> ps \<noteq> []"
  by (auto simp: admissible_def)

lemma admissible_bound: "admissible cfg ps \<Longrightarrow> length (concat ps) \<le> 2 ^ 30"
  unfolding admissible_def IsValid_def le_kMax by linarith

text \<open>The header fields do not wrap.\<close>

lemma chunk_header_fields:
  assumes "admissible cfg ps" and "k < length ps"
  shows "unat (ch_chunkIndex (chunk_header i ps k)) = k"
    "unat (ch_payloadSize (chunk_header i ps k)) = length (ps ! k)"
    "unat (ch_dstOffset (chunk_header i ps k)) = offs ps k"
    "ch_streamId (chunk_header i ps k) = i"
proof -
  have "offs ps k + length (ps ! k) \<le> length (concat ps)"
    using offs_mono [of "Suc k" "length ps" ps] assms(2) by (simp add: offs_Suc offs_all)
  then have "offs ps k < 2 ^ 32" "length (ps ! k) < 2 ^ 32"
    using admissible_bound [OF assms(1)] by simp_all
  moreover have "k < 2 ^ 32"
    using assms by (simp add: admissible_def)
  ultimately show "unat (ch_chunkIndex (chunk_header i ps k)) = k"
    "unat (ch_payloadSize (chunk_header i ps k)) = length (ps ! k)"
    "unat (ch_dstOffset (chunk_header i ps k)) = offs ps k"
    "ch_streamId (chunk_header i ps k) = i"
    by (simp_all add: chunk_header_def unat_u32_of_nat)
qed

lemma chunk_entry_conforming:
  "admissible cfg ps \<Longrightarrow> k < length ps \<Longrightarrow> chunk_entry (chunk_header i ps k) (ps ! k) = (k, offs ps k, ps ! k)"
  by (simp add: chunk_entry_def chunk_header_fields)

text \<open>Some of the chunks of the stream, in any order.\<close>

definition part_of :: "byte list list \<Rightarrow> chunks \<Rightarrow> bool" where
  "part_of ps L = (distinct (map fst L) \<and> (\<forall>(j, d, p) \<in> set L. j < length ps \<and> d = offs ps j \<and> p = ps ! j))"

lemma part_of_conform: "part_of ps L \<Longrightarrow> conform (offs ps) L"
  by (auto simp: part_of_def conform_def offs_Suc)

lemma part_of_snoc:
  "part_of ps L \<Longrightarrow> k < length ps \<Longrightarrow> k \<notin> fst ` set L \<Longrightarrow> part_of ps (L @ [(k, offs ps k, ps ! k)])"
  by (auto simp: part_of_def)

lemma part_of_len:
  assumes "part_of ps L"
  shows "j \<in> fst ` set L \<Longrightarrow> payload L j = ps ! j" and "total_len L \<le> length (concat ps)"
proof -
  have pl: "payload L j = ps ! j \<and> j < length ps" if "j \<in> fst ` set L" for j
  proof -
    obtain d p where "map_of L j = Some (d, p)"
      using \<open>j \<in> fst ` set L\<close> by (metis map_of_eq_None_iff not_Some_eq prod.exhaust)
    then show ?thesis
      using assms by (force simp: part_of_def payload_def dest: map_of_SomeD)
  qed
  then show "j \<in> fst ` set L \<Longrightarrow> payload L j = ps ! j" by blast
  have "total_len L = (\<Sum>j \<in> fst ` set L. length (ps ! j))"
    using total_len_sum [of L] assms pl by (auto simp: part_of_def len_payload [symmetric] intro!: sum.cong)
  also have "\<dots> \<le> (\<Sum>j < length ps. length (ps ! j))"
    by (rule sum_mono2) (use pl in auto)
  finally show "total_len L \<le> length (concat ps)"
    by (simp add: offs_sum [symmetric] offs_all)
qed

section \<open>One conforming chunk\<close>

lemma place_conforming:
  assumes adm: "admissible cfg ps" and inv: "ctx_inv L ctx" and st: "settled ctx" and part: "part_of ps L"
    and ctx: "unat (c_totalSize ctx) = length (concat ps)" "unat (c_totalChunks ctx) = length ps"
    and k: "k < length ps" "k \<notin> fst ` set L"
    and room: "length L < unat (c_next ctx) + unat mp \<or> k = unat (c_next ctx)"
    and al: "allocates cl (sizeof 1 Placed_members)"
  shows "\<exists>ctx'. place_chunk cl mp (chunk_header i ps k) (ps ! k) ctx = Some (ctx', False)"
proof -
  let ?h = "chunk_header i ps k"
  note f = chunk_header_fields [OF adm k(1), of i]
  note part' = part_of_snoc [OF part k]
  have fits: "Fits ctx (ch_payloadSize ?h)"
    using part_of_len(2) [OF part'] by (simp add: Fits_iff [OF inv] f ctx)
  have "offs ps k + length (ps ! k) \<le> length (concat ps)"
    using offs_mono [of "Suc k" "length ps" ps] k(1) by (simp add: offs_Suc offs_all)
  then have inb: "InBounds ctx (ucast (ch_dstOffset ?h)) (ch_payloadSize ?h)"
    by (simp add: InBounds_iff f ctx)
  have seen: "c_next ctx \<le> ch_chunkIndex ?h" "map_of (c_ooo ctx) (ch_chunkIndex ?h) = None"
    using seen_iff [OF inv, of "ch_chunkIndex ?h"] k(2) f(1) by (auto simp: not_less)
  have fc: "fresh_chunk L ctx (ch_chunkIndex ?h) (ucast (ch_dstOffset ?h)) (ps ! k) (ch_payloadSize ?h)"
    using inv st seen fits inb f k(1) ctx
    by unfold_locales (simp_all add: Fits_iff [OF inv] InBounds_iff word_less_nat_alt)
  let ?put = "ctx\<lparr>c_buf := overwrite (offs ps k) (ps ! k) (c_buf ctx)\<rparr>"
  have w: "WriteChunk (ucast (ch_dstOffset ?h)) (ps ! k) ctx = Some ?put"
    using fresh_chunk.bounds [OF fc] ctx_inv_buf [OF inv] by (simp add: WriteChunk_in_bounds f)
  show ?thesis
  proof (cases "ch_chunkIndex ?h = c_next ctx")
    case True
    have "offs ps k = unat (c_offset ctx)"
      using ctx_invD(7) [OF inv] conform_start [OF part_of_conform [OF part] ctx_inv_indices(1) [OF inv]] True f(1)
      by simp
    then have off: "ucast (ch_dstOffset ?h) = c_offset ctx"
      by (simp add: word_unat_eq_iff f)
    have "ctx_inv (L @ [(k, offs ps k, ps ! k)]) (AccountInOrder (ch_payloadSize ?h) ?put)"
      using fresh_chunk.accept_in_order [OF fc True off] by (simp add: f)
    then have "snd (drain (AccountInOrder (ch_payloadSize ?h) ?put)) = False"
      using drain_clean part_of_conform [OF part'] by blast
    then show ?thesis
      using fits inb w True off
      by (cases "drain (AccountInOrder (ch_payloadSize ?h) ?put)") (simp add: place_chunk_def)
  next
    case False
    then have "k \<noteq> unat (c_next ctx)"
      using f(1) by (metis word_unat_eq_iff)
    then have "length (c_ooo ctx) < unat mp"
      using room parked_count [OF inv] by simp
    then show ?thesis
      using fits inb w False al by (simp add: place_chunk_def NotePlaced_def)
  qed
qed

section \<open>Traffic around the stream\<close>

text \<open>Messages the reassembler attributes to a stream.\<close>

definition concerns :: "u64 \<Rightarrow> message \<Rightarrow> bool" where
  "concerns streamId m =
     (m_type m = STREAM_START \<and> sizeof_StreamHeader \<le> length (m_req m) \<and>
        sh_streamId (get_StreamHeader (m_req m)) = streamId \<or>
      m_type m = STREAM_CHUNK \<and> sizeof_ChunkHeader \<le> length (m_req m) \<and>
        ch_streamId (get_ChunkHeader (m_req m)) = streamId)"

text \<open>An event at which a stream opened at \<open>t0\<close> is not yet old enough to be pruned.\<close>

fun timely :: "reassembler_config \<Rightarrow> nat \<Rightarrow> event \<Rightarrow> bool" where
  "timely cfg t0 (Pruned now) = (elapsed_ms t0 now \<le> unat (streamTimeoutMs cfg))"
| "timely cfg t0 (Arrives m) =
     (m_type m = STREAM_START \<longrightarrow> elapsed_ms t0 (nowPrune (m_call m)) \<le> unat (streamTimeoutMs cfg))"

definition deliveries_of :: "u64 \<Rightarrow> reassembler \<Rightarrow> (u64 \<times> u32 \<times> byte list) list" where
  "deliveries_of streamId r = filter (\<lambda>d. fst d = streamId) (r_delivered r)"

lemma map_of_filter_keep:
  "distinct (map fst al) \<Longrightarrow> map_of al k = Some v \<Longrightarrow> P (k, v) \<Longrightarrow> map_of (filter P al) k = Some v"
  by (induction al) (auto split: if_splits)

lemma map_of_filter_None: "map_of al k = None \<Longrightarrow> map_of (filter P al) k = None"
  by (induction al) (auto split: if_splits)

lemma prune_keeps:
  assumes "distinct (map fst (r_streams r))" and "map_of (r_streams r) i = Some ctx"
    and "elapsed_ms (c_startTime ctx) now \<le> unat (streamTimeoutMs (r_config r))"
  shows "map_of (r_streams (PruneInternal now r)) i = Some ctx"
  using assms by (simp add: PruneInternal_def map_of_filter_keep)

lemma prune_None: "map_of (r_streams r) i = None \<Longrightarrow> map_of (r_streams (PruneInternal now r)) i = None"
  by (simp add: PruneInternal_def map_of_filter_None)

lemma prune_frame [simp]:
  "r_config (PruneInternal now r) = r_config r" "r_delivered (PruneInternal now r) = r_delivered r"
  by (simp_all add: PruneInternal_def)

text \<open>A message of another stream leaves a stream alone, pruning apart.\<close>

lemma other_start:
  assumes "m_type m = STREAM_START" and "\<not> concerns i m" and "handle_start (m_call m) (m_req m) r = (reply, r')"
  shows "deliveries_of i r' = deliveries_of i r \<and>
    (map_of (r_streams r') i = map_of (r_streams r) i \<or>
     map_of (r_streams r') i = map_of (r_streams (PruneInternal (nowPrune (m_call m)) r)) i)"
  using assms
  by (auto simp: handle_start_def concerns_def Let_def deliver_def deliveries_of_def update_conv' split: if_splits)

lemma other_chunk:
  assumes "m_type m = STREAM_CHUNK" and "\<not> concerns i m" and "handle_chunk (m_call m) (m_req m) r = Some (reply, r')"
  shows "deliveries_of i r' = deliveries_of i r \<and> map_of (r_streams r') i = map_of (r_streams r) i"
proof -
  let ?h = "get_ChunkHeader (m_req m)"
  consider "r' = r" | (fin) "sizeof_ChunkHeader \<le> length (m_req m)" "\<exists>res. finish_chunk (ch_streamId ?h) res r = (reply, r')"
    using assms(3) by (auto simp: handle_chunk_def Let_def bind_eq_Some_conv not_le split: if_splits option.splits)
  then show ?thesis
  proof cases
    case fin
    moreover have "ch_streamId ?h \<noteq> i"
      using assms(1,2) fin(1) by (auto simp: concerns_def)
    ultimately show ?thesis
      by (auto simp: finish_chunk_def Let_def deliver_def deliveries_of_def update_conv' delete_conv split: prod.splits if_splits)
  qed simp
qed

lemma Handle_other:
  assumes "\<not> concerns i m" and "Handle (m_call m) (m_req m) 0 (m_type m) r = Some (reply, r')"
    and "distinct (map fst (r_streams r))"
  shows "deliveries_of i r' = deliveries_of i r \<and>
    (map_of (r_streams r) i = None \<longrightarrow> map_of (r_streams r') i = None) \<and>
    (\<forall>ctx. map_of (r_streams r) i = Some ctx \<longrightarrow> timely (r_config r) (c_startTime ctx) (Arrives m) \<longrightarrow>
      map_of (r_streams r') i = Some ctx)"
proof -
  consider (s) "m_type m = STREAM_START" "handle_start (m_call m) (m_req m) r = (reply, r')"
    | (c) "m_type m = STREAM_CHUNK" "handle_chunk (m_call m) (m_req m) r = Some (reply, r')"
    | "r' = r"
    using assms(2) by (auto simp: Handle_def split: if_splits)
  then show ?thesis
  proof cases
    case s
    show ?thesis
      using other_start [OF s(1) assms(1) s(2)] prune_None prune_keeps [OF assms(3)] s(1) by fastforce
  next
    case c
    show ?thesis using other_chunk [OF c(1) assms(1) c(2)] by simp
  qed simp
qed

lemma run_others:
  assumes "reassembler_inv cfg tr r" and "\<forall>m \<in> set (messages es). \<not> concerns i m"
    and "map_of (r_streams r) i = None"
  shows "\<exists>replies r'. run_events es r = Some (replies, r') \<and> length replies = length (messages es) \<and>
    deliveries_of i r' = deliveries_of i r \<and> map_of (r_streams r') i = None"
  using assms
proof (induction es r arbitrary: tr rule: run_events.induct)
  case (2 m es r)
  obtain reply r1 where 1: "Handle (m_call m) (m_req m) 0 (m_type m) r = Some (reply, r1)"
    and inv1: "reassembler_inv cfg (tr @ [m]) r1"
    using Handle_inv [OF "2.prems"(1)] by blast
  have "deliveries_of i r1 = deliveries_of i r \<and> map_of (r_streams r1) i = None"
    using Handle_other [OF _ 1 invD(3) [OF "2.prems"(1)], of i] "2.prems"(2,3) by simp
  then show ?case
    using "2.IH" [OF 1 refl inv1] "2.prems"(2) 1 by auto
next
  case (3 now es r)
  have "reassembler_inv cfg tr (Prune now r)"
    using "3.prems"(1) by (simp add: Prune_def inv_prune)
  from "3.IH" [OF this] show ?case
    using "3.prems"(2,3) by (simp add: Prune_def prune_None deliveries_of_def)
qed simp

section \<open>Following one stream\<close>

text \<open>
  The first index that has not arrived, and the number of chunks that are parked ahead of
  it, computed from the order of arrival alone.
\<close>

definition first_missing :: "nat list \<Rightarrow> nat" where
  "first_missing ks = length (takeWhile (\<lambda>i. i \<in> set ks) [0..<length ks])"

definition parked :: "nat list \<Rightarrow> nat" where
  "parked ks = length (remdups ks) - first_missing ks"

text \<open>An order of arrival, repetitions allowed, that never parks more than \<open>limit\<close> chunks.\<close>

definition within_window :: "nat \<Rightarrow> nat list \<Rightarrow> bool" where
  "within_window limit ks = list_all (\<lambda>j. parked (take j ks) \<le> limit) [0..<Suc (length ks)]"

lemma first_missing_eq:
  assumes "{..<m} \<subseteq> set ks" and "m \<notin> set ks"
  shows "first_missing ks = m"
proof -
  have "m \<le> card (set ks)"
    using card_mono [OF _ assms(1)] by simp
  then have m: "m \<le> length ks"
    using card_length [of ks] by simp
  then have "[0..<length ks] = [0..<m] @ [m..<length ks]"
    using upt_add_eq_append [of 0 m "length ks - m"] by simp
  moreover have "takeWhile (\<lambda>i. i \<in> set ks) [m..<length ks] = []"
    using assms(2) by (cases "m < length ks") (simp_all add: upt_conv_Cons)
  ultimately show ?thesis
    using assms(1) by (auto simp: first_missing_def takeWhile_append)
qed

definition tracks :: "reassembler_config \<Rightarrow> u64 \<Rightarrow> u32 \<Rightarrow> byte list list \<Rightarrow> nat \<Rightarrow> nat list \<Rightarrow> reassembler \<Rightarrow> bool" where
  "tracks cfg i tag ps t0 seen r = (\<exists>ctx L. map_of (r_streams r) i = Some ctx \<and>
     c_appMsgType ctx = tag \<and> c_startTime ctx = t0 \<and> unat (c_totalSize ctx) = length (concat ps) \<and>
     unat (c_totalChunks ctx) = length ps \<and> ctx_inv L ctx \<and> settled ctx \<and> part_of ps L \<and>
     fst ` set L = set seen \<and> length (c_ooo ctx) \<le> unat (maxParkedChunks cfg))"

lemma parked_room:
  assumes inv: "ctx_inv L ctx" and st: "settled ctx" and seen: "fst ` set L = set seen"
    and k: "k \<notin> set seen" and w: "parked (seen @ [k]) \<le> limit"
  shows "length L < unat (c_next ctx) + limit \<or> k = unat (c_next ctx)"
proof (cases "k = unat (c_next ctx)")
  case False
  have nx: "unat (c_next ctx) \<notin> set seen"
    using seen_iff [OF inv, of "c_next ctx"] st seen by (simp add: settled_def)
  have "first_missing (seen @ [k]) = unat (c_next ctx)"
    using ctx_inv_indices(1) [OF inv] nx False seen by (intro first_missing_eq) auto
  moreover have "length (remdups (seen @ [k])) = Suc (length L)"
    using distinct_card [OF ctx_invD(3) [OF inv]] seen k by (simp add: length_remdups_card_conv)
  ultimately show ?thesis
    using w unfolding parked_def by linarith
qed simp

lemma chunk_of_conforming:
  assumes "admissible cfg ps" and "k < length ps" and "m_type m = STREAM_CHUNK" and "m_req m = chunk_bytes i ps k"
  shows "chunk_of m = Some (chunk_header i ps k, ps ! k)"
  using assms chunk_header_fields [OF assms(1,2), of i]
  by (simp add: chunk_of_def Let_def chunk_bytes_def)

text \<open>When every chunk is there, the context is complete and its buffer is the stream.\<close>

lemma own_chunk_last:
  assumes adm: "admissible cfg ps" and inv: "ctx_inv L ctx" and st: "settled ctx" and part: "part_of ps L"
    and seen: "fst ` set L = set ks" and all: "set ks = {..<length ps}"
    and tot: "unat (c_totalSize ctx) = length (concat ps)" "unat (c_totalChunks ctx) = length ps"
  shows "c_next ctx = c_totalChunks ctx \<and> c_offset ctx = c_totalSize ctx \<and> c_buf ctx = concat ps"
proof -
  have "unat (c_next ctx) \<notin> fst ` set L"
    using seen_iff [OF inv, of "c_next ctx"] st by (simp add: settled_def)
  then have "unat (c_next ctx) = length ps"
    using ctx_inv_indices(1) [OF inv] seen all by auto
  then have nx: "c_next ctx = c_totalChunks ctx"
    using tot(2) by (simp add: word_unat_eq_iff)
  have "unat (c_offset ctx) = offs ps (length ps)"
    using ctx_invD(7) [OF inv] conform_start [OF part_of_conform [OF part] ctx_inv_indices(1) [OF inv]]
      \<open>unat (c_next ctx) = length ps\<close> by simp
  then have off: "c_offset ctx = c_totalSize ctx"
    using tot(1) by (simp add: word_unat_eq_iff offs_all)
  have "map (payload L) [0..<length ps] = ps"
    using part_of_len(1) [OF part] seen all by (intro nth_equalityI) auto
  then show ?thesis
    using nx off ctx_inv_complete [OF inv nx off] tot(2) by simp
qed

text \<open>One chunk of the stream: a repetition, a chunk among others, or the last one.\<close>

text \<open>A chunk that has not arrived before is placed, and the context then explains it too.\<close>

lemma new_chunk_placed:
  fixes ctx :: StreamContext
  assumes adm: "admissible cfg ps" and inv: "ctx_inv L ctx" and st: "settled ctx" and part: "part_of ps L"
    and seen: "fst ` set L = set seen" and room: "length (c_ooo ctx) \<le> unat (maxParkedChunks cfg)"
    and tot: "unat (c_totalSize ctx) = length (concat ps)" "unat (c_totalChunks ctx) = length ps"
    and k: "k < length ps" and new: "k \<notin> set seen" and al: "allocates cl (sizeof 1 Placed_members)"
    and w: "parked (seen @ [k]) \<le> unat (maxParkedChunks cfg)"
  shows "\<exists>ctx'. place_chunk cl (maxParkedChunks cfg) (chunk_header i ps k) (ps ! k) ctx = Some (ctx', False) \<and>
    ctx_inv (L @ [(k, offs ps k, ps ! k)]) ctx' \<and> settled ctx' \<and> same_stream ctx ctx' \<and>
    length (c_ooo ctx') \<le> unat (maxParkedChunks cfg) \<and> part_of ps (L @ [(k, offs ps k, ps ! k)])"
proof -
  let ?h = "chunk_header i ps k"
  note f = chunk_header_fields [OF adm k, of i]
  have idx: "(c_totalChunks ctx \<le> ch_chunkIndex ?h) = False"
    using k f(1) tot(2) by (simp add: word_le_nat_alt)
  note seen' = seen_iff [OF inv, of "ch_chunkIndex ?h", unfolded f(1) seen]
  obtain ctx' where pl: "place_chunk cl (maxParkedChunks cfg) ?h (ps ! k) ctx = Some (ctx', False)"
    using place_conforming [OF adm inv st part tot k] parked_room [OF inv st seen new w] new seen al by blast
  obtain c2 b where pl2: "place_chunk cl (maxParkedChunks cfg) ?h (ps ! k) ctx = Some (c2, b)"
    and ok2: "\<not> b \<Longrightarrow> ctx_inv (L @ [chunk_entry ?h (ps ! k)]) c2 \<and> settled c2 \<and> same_stream ctx c2 \<and>
      length (c_ooo c2) \<le> unat (maxParkedChunks cfg)"
    by (rule place_chunk_inv [OF inv st, of ?h "ps ! k" "maxParkedChunks cfg" cl])
      (use idx new seen' f(2) room in \<open>auto simp: not_le not_less\<close>)
  have "part_of ps (L @ [(k, offs ps k, ps ! k)])"
    using part_of_snoc [OF part k] new seen by simp
  then show ?thesis
    using pl pl2 ok2 chunk_entry_conforming [OF adm k, of i] by auto
qed

lemma own_chunk:
  fixes m :: message
  assumes adm: "admissible cfg ps" and tr: "tracks cfg i tag ps t0 seen r" and cfg: "r_config r = cfg"
    and k: "k < length ps" and m: "m_type m = STREAM_CHUNK" "m_req m = chunk_bytes i ps k"
    and al: "allocates (m_call m) (sizeof 1 Placed_members)"
    and w: "parked (seen @ [k]) \<le> unat (maxParkedChunks cfg)"
  shows "\<exists>r'. Handle (m_call m) (m_req m) 0 (m_type m) r = Some (reply_ok, r') \<and>
    (if k \<in> set seen \<or> set (seen @ [k]) \<noteq> {..<length ps}
     then deliveries_of i r' = deliveries_of i r \<and> tracks cfg i tag ps t0 (seen @ [k]) r'
     else deliveries_of i r' = deliveries_of i r @ [(i, tag, concat ps)] \<and> map_of (r_streams r') i = None)"
proof -
  let ?h = "chunk_header i ps k"
  note chunk = chunk_of_conforming [OF adm k m] and f = chunk_header_fields [OF adm k, of i]
  obtain ctx L where ctx: "map_of (r_streams r) i = Some ctx" "c_appMsgType ctx = tag" "c_startTime ctx = t0"
      "unat (c_totalSize ctx) = length (concat ps)" "unat (c_totalChunks ctx) = length ps"
    and inv: "ctx_inv L ctx" and st: "settled ctx" and part: "part_of ps L" and seen: "fst ` set L = set seen"
    and room: "length (c_ooo ctx) \<le> unat (maxParkedChunks cfg)"
    using tr unfolding tracks_def by blast
  have idx: "(c_totalChunks ctx \<le> ch_chunkIndex ?h) = False"
    using k f(1) ctx(5) by (simp add: word_le_nat_alt)
  have H: "Handle (m_call m) (m_req m) 0 (m_type m) r = handle_chunk (m_call m) (m_req m) r"
    using m(1) by (simp add: Handle_def shm_consts)
  note eq = handle_chunk_eq [OF chunk, of r, THEN conjunct1, unfolded f(4) ctx(1) option.case idx if_False]
  note seen' = seen_iff [OF inv, of "ch_chunkIndex ?h", unfolded f(1) seen]
  show ?thesis
  proof (cases "k \<in> set seen")
    case True
    then have "Handle (m_call m) (m_req m) 0 (m_type m) r = Some (reply_ok, r)"
      unfolding H eq using seen' by auto
    moreover have "tracks cfg i tag ps t0 (seen @ [k]) r"
      using tr True by (auto simp: tracks_def insert_absorb)
    ultimately show ?thesis using True by simp
  next
    case False
    let ?L' = "L @ [(k, offs ps k, ps ! k)]"
    obtain ctx' where pl: "place_chunk (m_call m) (maxParkedChunks cfg) ?h (ps ! k) ctx = Some (ctx', False)"
      and ok: "ctx_inv ?L' ctx'" "settled ctx'" "same_stream ctx ctx'" "length (c_ooo ctx') \<le> unat (maxParkedChunks cfg)"
        "part_of ps ?L'"
      using new_chunk_placed [OF adm inv st part seen room ctx(4,5) k False al w] by blast
    have seenL': "fst ` set ?L' = set (seen @ [k])"
      using seen by auto
    have tot: "unat (c_totalSize ctx') = length (concat ps)" "unat (c_totalChunks ctx') = length ps"
        "c_appMsgType ctx' = tag" "c_startTime ctx' = t0"
      using ok(3) ctx by (simp_all add: same_stream_def)
    have run: "Handle (m_call m) (m_req m) 0 (m_type m) r = Some (finish_chunk i (ctx', False) r)"
      unfolding H eq using False seen' pl cfg by auto
    show ?thesis
    proof (cases "set (seen @ [k]) = {..<length ps}")
      case all: True
      show ?thesis
        using own_chunk_last [OF adm ok(1,2,5) seenL' all tot(1,2)] tot run False all
        by (simp add: finish_chunk_def Let_def deliver_def deliveries_of_def delete_conv)
    next
      case more: False
      have "c_next ctx' \<noteq> c_totalChunks ctx'"
        using ctx_inv_indices [OF ok(1)] tot(2) unfolding seenL' using more by (metis subset_antisym)
      then have "finish_chunk i (ctx', False) r = (reply_ok, r\<lparr>r_streams := AList.update i ctx' (r_streams r)\<rparr>)"
        by (simp add: finish_chunk_def Let_def)
      moreover have "tracks cfg i tag ps t0 (seen @ [k]) (r\<lparr>r_streams := AList.update i ctx' (r_streams r)\<rparr>)"
        unfolding tracks_def
        by (rule exI [of _ ctx'], rule exI [of _ ?L'])
          (use ok tot seenL' in \<open>simp add: update_conv'\<close>)
      ultimately show ?thesis
        using run more by (simp add: deliveries_of_def)
    qed
  qed
qed

section \<open>Delivery\<close>

text \<open>The messages of a stream in a run, and the replies to them.\<close>

definition own_messages :: "u64 \<Rightarrow> event list \<Rightarrow> (MsgType \<times> byte list) list" where
  "own_messages i es = map (\<lambda>m. (m_type m, m_req m)) (filter (concerns i) (messages es))"

definition own_replies :: "u64 \<Rightarrow> event list \<Rightarrow> reply list \<Rightarrow> reply list" where
  "own_replies i es replies = map snd (filter (\<lambda>(m, _). concerns i m) (zip (messages es) replies))"

definition memory_available :: "event list \<Rightarrow> bool" where
  "memory_available es = list_all (\<lambda>m. allocates (m_call m) (sizeof 1 Placed_members)) (messages es)"

lemma own_replies_none: "\<forall>m \<in> set (messages es). \<not> concerns i m \<Longrightarrow> own_replies i es replies = []"
  unfolding own_replies_def by (auto simp: filter_empty_conv dest!: set_zip_leftD)

lemma within_windowD: "within_window n ks \<Longrightarrow> ks = xs @ ys \<Longrightarrow> parked xs \<le> n"
  unfolding within_window_def list_all_iff by (auto dest!: bspec [of _ _ "length xs"])

lemma run_tracked:
  assumes "admissible cfg ps" and "reassembler_inv cfg tr r" and "tracks cfg i tag ps t0 seen r"
    and "own_messages i es = map (\<lambda>k. (STREAM_CHUNK, chunk_bytes i ps k)) (ks @ [k])"
    and "set (seen @ ks @ [k]) = {..<length ps}" and "k \<notin> set (seen @ ks)"
    and "within_window (unat (maxParkedChunks cfg)) (seen @ ks @ [k])"
    and "list_all (timely cfg t0) es" and "memory_available es"
  shows "\<exists>replies r'. run_events es r = Some (replies, r') \<and>
    own_replies i es replies = replicate (Suc (length ks)) reply_ok \<and>
    deliveries_of i r' = deliveries_of i r @ [(i, tag, concat ps)] \<and> map_of (r_streams r') i = None"
  using assms(2-)
proof (induction es r arbitrary: tr seen ks rule: run_events.induct)
  case (1 r)
  then show ?case by (simp add: own_messages_def)
next
  case (3 now es r)
  have inv: "reassembler_inv cfg tr (Prune now r)"
    using "3.prems"(1) by (simp add: Prune_def inv_prune)
  have "tracks cfg i tag ps t0 seen (Prune now r)"
    using "3.prems"(2,7) prune_keeps [OF invD(3) [OF "3.prems"(1)]] invD(1) [OF "3.prems"(1)]
    unfolding tracks_def Prune_def by fastforce
  from "3.IH" [OF inv this] "3.prems" show ?case
    by (simp add: own_messages_def own_replies_def memory_available_def Prune_def deliveries_of_def)
next
  case (2 m es r)
  note cfg = invD(1) [OF "2.prems"(1)]
  obtain reply r1 where h: "Handle (m_call m) (m_req m) 0 (m_type m) r = Some (reply, r1)"
    and inv1: "reassembler_inv cfg (tr @ [m]) r1"
    using Handle_inv [OF "2.prems"(1)] by blast
  note IH = "2.IH" [OF h refl inv1]
  have rest: "list_all (timely cfg t0) es" "memory_available es" "timely cfg t0 (Arrives m)"
      "allocates (m_call m) (sizeof 1 Placed_members)"
    using "2.prems"(7,8) by (simp_all add: memory_available_def)
  show ?case
  proof (cases "concerns i m")
    case False
    have "tracks cfg i tag ps t0 seen r1" "deliveries_of i r1 = deliveries_of i r"
      using Handle_other [OF False h invD(3) [OF "2.prems"(1)]] "2.prems"(2) rest(3) cfg
      unfolding tracks_def by fastforce+
    then show ?thesis
      using IH [of seen ks] "2.prems"(3-6) rest False h by (auto simp: own_messages_def own_replies_def)
  next
    case True
    obtain k1 ks1 where kk: "ks @ [k] = k1 # ks1"
      by (cases ks) auto
    have m: "m_type m = STREAM_CHUNK" "m_req m = chunk_bytes i ps k1"
        "own_messages i es = map (\<lambda>k. (STREAM_CHUNK, chunk_bytes i ps k)) ks1"
      using "2.prems"(3) True unfolding kk by (simp_all add: own_messages_def)
    have k1: "k1 < length ps"
      using "2.prems"(4) unfolding kk by auto
    have "parked (seen @ [k1]) \<le> unat (maxParkedChunks cfg)"
      by (rule within_windowD [OF "2.prems"(6), of _ ks1]) (simp add: kk)
    note step = own_chunk [OF assms(1) "2.prems"(2) cfg k1 m(1,2) rest(4) this, unfolded h]
    show ?thesis
    proof (cases ks)
      case Nil
      then have last: "k1 = k" "ks1 = []" "set (seen @ [k1]) = {..<length ps}" "k1 \<notin> set seen"
        using kk "2.prems"(4,5) by auto
      then have d: "reply = reply_ok" "deliveries_of i r1 = deliveries_of i r @ [(i, tag, concat ps)]"
          "map_of (r_streams r1) i = None"
        using step by auto
      have none: "\<forall>m \<in> set (messages es). \<not> concerns i m"
        using m(3) last(2) by (simp add: own_messages_def filter_empty_conv)
      show ?thesis
        using run_others [OF inv1 none d(3)] own_replies_none [OF none] h d True Nil
        by (auto simp: own_replies_def)
    next
      case (Cons k2 ks2)
      then have c: "k2 = k1" "ks1 = ks2 @ [k]"
        using kk by auto
      have "k \<in> {..<length ps}" "k \<notin> set (seen @ [k1])"
        using "2.prems"(4,5) Cons c by auto
      then have d: "reply = reply_ok" "deliveries_of i r1 = deliveries_of i r"
          "tracks cfg i tag ps t0 (seen @ [k1]) r1"
        using step by (auto split: if_splits)
      show ?thesis
        using IH [OF d(3), of ks2] "2.prems"(4-6) m(3) rest h d True Cons c
        by (auto simp: own_replies_def)
    qed
  qed
qed

lemma start_tracks:
  fixes m :: message
  assumes adm: "admissible cfg ps" and cfg: "r_config r = cfg"
    and m: "m_type m = STREAM_START" "m_req m = StreamHeader_bytes (start_header i tag ps)"
    and room: "length (r_streams (Prune (nowPrune (m_call m)) r)) < unat (maxStreams cfg)"
    and al: "allocates (m_call m) (length (concat ps))"
  shows "\<exists>r'. Handle (m_call m) (m_req m) 0 (m_type m) r = Some (reply_ok, r') \<and>
    deliveries_of i r' = deliveries_of i r \<and> tracks cfg i tag ps (nowStart (m_call m)) [] r'"
proof -
  let ?h = "start_header i tag ps"
  have n: "length (concat ps) \<le> 2 ^ 30" "length ps < 2 ^ 32" "length ps \<noteq> 0"
    using adm admissible_bound [OF adm] by (auto simp: admissible_def)
  then have h: "unat (sh_totalSize ?h) = length (concat ps)" "unat (sh_totalChunks ?h) = length ps"
      "sh_streamId ?h = i" "sh_appMsgType ?h = tag"
    by (simp_all add: start_header_def unat_u32_of_nat unat_u64_of_nat)
  have g: "get_StreamHeader (StreamHeader_bytes ?h) = ?h"
    using get_StreamHeader_bytes [of ?h "[]"] by simp
  have lim: "(maxStreamSize cfg < sh_totalSize ?h) = False" "(maxStreamChunks cfg < ucast (sh_totalChunks ?h)) = False"
      "(sh_totalChunks ?h = 0) = False"
    using adm h(1,2) n(3) by (auto simp: admissible_def word_less_nat_alt)
  let ?r' = "PruneInternal (nowPrune (m_call m)) r"
  let ?ctx = "new_context ?h (nowStart (m_call m))"
  have "Handle (m_call m) (m_req m) 0 (m_type m) r =
      Some (reply_ok, ?r'\<lparr>r_streams := AList.update i ?ctx (r_streams ?r')\<rparr>)"
    using m lim room al cfg h by (simp add: Handle_def handle_start_def g Let_def Prune_def)
  moreover have "ctx_inv [] ?ctx"
    using n(1) h(1) by (intro ctx_inv_new) (simp add: le_kMax)
  then have "tracks cfg i tag ps (nowStart (m_call m)) [] (?r'\<lparr>r_streams := AList.update i ?ctx (r_streams ?r')\<rparr>)"
    unfolding tracks_def
    by - (rule exI [of _ ?ctx], rule exI [of _ "[]"],
        use h in \<open>simp add: update_conv' settled_def new_context_def part_of_def\<close>)
  ultimately show ?thesis
    by (simp add: deliveries_of_def)
qed

lemma run_append:
  "run_events es r = Some (a, r1) \<Longrightarrow> run_events fs r1 = Some (b, r2) \<Longrightarrow> run_events (es @ fs) r = Some (a @ b, r2)"
  by (induction es r arbitrary: a rule: run_events.induct) (auto simp: bind_eq_Some_conv)

lemma stream_delivery:
  fixes m :: message
  assumes "run_events pre (StreamReassembler cfg) = Some (replies0, r)"
    and "admissible (r_config r) ps"
    and "m_type m = STREAM_START" and "m_req m = StreamHeader_bytes (start_header i tag ps)"
    and "length (r_streams (Prune (nowPrune (m_call m)) r)) < unat (maxStreams cfg)"
    and "allocates (m_call m) (length (concat ps))"
    and "own_messages i es = map (\<lambda>k. (STREAM_CHUNK, chunk_bytes i ps k)) (ks @ [k])"
    and "set (ks @ [k]) = {..<length ps}" and "k \<notin> set ks"
    and "within_window (unat (maxParkedChunks cfg)) (ks @ [k])"
    and "list_all (timely cfg (nowStart (m_call m))) es" and "memory_available es"
  shows "\<exists>replies r'. run_events (pre @ Arrives m # es) (StreamReassembler cfg) =
      Some (replies0 @ reply_ok # replies, r') \<and>
    own_replies i es replies = replicate (Suc (length ks)) reply_ok \<and>
    deliveries_of i r' = deliveries_of i r @ [(i, tag, concat ps)] \<and> map_of (r_streams r') i = None"
proof -
  let ?c = "r_config (StreamReassembler cfg)"
  have inv: "reassembler_inv ?c (messages pre) r"
    using reachable_inv [of pre cfg] assms(1) by fastforce
  have eq: "maxStreams ?c = maxStreams cfg" "maxParkedChunks ?c = maxParkedChunks cfg"
      "streamTimeoutMs ?c = streamTimeoutMs cfg"
    by (simp_all add: StreamReassembler_def)
  have c: "r_config r = ?c"
    by (rule invD(1) [OF inv])
  have t: "timely ?c t0 e = timely cfg t0 e" for t0 e
    by (cases e) (simp_all add: eq)
  obtain r1 where 1: "Handle (m_call m) (m_req m) 0 (m_type m) r = Some (reply_ok, r1)"
      "deliveries_of i r1 = deliveries_of i r" "tracks ?c i tag ps (nowStart (m_call m)) [] r1"
    using start_tracks [OF assms(2) refl assms(3,4)] assms(5,6) c eq(1) by auto
  have inv1: "reassembler_inv ?c (messages pre @ [m]) r1"
    using Handle_inv [OF inv, of m] 1(1) by fastforce
  obtain replies r' where 2: "run_events es r1 = Some (replies, r')"
      "own_replies i es replies = replicate (Suc (length ks)) reply_ok"
      "deliveries_of i r' = deliveries_of i r1 @ [(i, tag, concat ps)]" "map_of (r_streams r') i = None"
    using run_tracked [OF assms(2) [unfolded c] inv1 1(3) assms(7), simplified append_Nil] assms(8-12) eq t
    by (auto simp: list_all_iff)
  have "run_events (Arrives m # es) r = Some (reply_ok # replies, r')"
    using 1(1) 2(1) by simp
  from run_append [OF assms(1) this] show ?thesis
    using 1(2) 2 by simp
qed

text \<open>
  C7. Completeness of delivery. A reassembler in any state its peers brought it to receives
  the opening message of a non-empty stream that its limits admit, and has room for it. Then come
  the chunks of the stream, in any order and with repetitions, the last of the missing
  ones last, interleaved with any messages of other streams, malformed ones included, and
  with prunes before the stream has timed out. If at no moment more than \<open>maxParkedChunks\<close>
  chunks are ahead of the first missing one, and memory for their records is available,
  then every message of the stream is acknowledged, and the callback receives the stream
  exactly once, with its bytes and its tag. The context of the stream is gone.
\<close>

theorem conforming_stream_delivered:
  fixes m :: message
  assumes "run_events pre (StreamReassembler cfg) = Some (replies0, r)"
    and "admissible (r_config r) ps"
    and "m_type m = STREAM_START" and "m_req m = StreamHeader_bytes (start_header i tag ps)"
    and "length (r_streams (Prune (nowPrune (m_call m)) r)) < unat (maxStreams cfg)"
    and "allocates (m_call m) (length (concat ps))"
    and "own_messages i es = map (\<lambda>k. (STREAM_CHUNK, chunk_bytes i ps k)) (ks @ [k])"
    and "set (ks @ [k]) = {..<length ps}" and "k \<notin> set ks"
    and "within_window (unat (maxParkedChunks cfg)) (ks @ [k])"
    and "list_all (timely cfg (nowStart (m_call m))) es" and "memory_available es"
  shows "\<exists>replies r'. run_events (pre @ Arrives m # es) (StreamReassembler cfg) =
      Some (replies0 @ reply_ok # replies, r') \<and>
    own_replies i es replies = replicate (Suc (length ks)) reply_ok \<and>
    deliveries_of i r' = deliveries_of i r @ [(i, tag, concat ps)] \<and> map_of (r_streams r') i = None"
  by (rule stream_delivery [OF assms])

text \<open>
  A stream of two chunks, the second one first, with a truncated message, a chunk of an
  unknown stream and a prune in between.
\<close>

definition demo_call :: call where
  "demo_call = \<lparr>nowPrune = 5, nowStart = 7, allocates = (\<lambda>n. n \<le> 4096)\<rparr>"

definition demo_parts :: "byte list list" where
  "demo_parts = [[1, 2], [3]]"

definition demo_start :: message where
  "demo_start = \<lparr>m_call = demo_call, m_req = StreamHeader_bytes (start_header 9 77 demo_parts), m_type = STREAM_START\<rparr>"

definition demo_chunk :: "u64 \<Rightarrow> nat \<Rightarrow> event" where
  "demo_chunk i k = Arrives \<lparr>m_call = demo_call, m_req = chunk_bytes i demo_parts k, m_type = STREAM_CHUNK\<rparr>"

definition demo_events :: "event list" where
  "demo_events = [demo_chunk 9 1, Arrives \<lparr>m_call = demo_call, m_req = [1, 2, 3], m_type = STREAM_START\<rparr>,
     demo_chunk 4 0, Pruned 11, demo_chunk 9 0]"

lemma demo_own:
  "own_messages 9 demo_events = map (\<lambda>k. (STREAM_CHUNK, chunk_bytes 9 demo_parts k)) ([1] @ [0])"
  by (simp add: own_messages_def demo_events_def demo_chunk_def concerns_def chunk_bytes_def
      chunk_header_def shm_consts)

theorem conforming_stream_delivered_witness:
  "\<exists>replies r'. run_events ([] @ Arrives demo_start # demo_events) (StreamReassembler default_config) =
      Some ([] @ reply_ok # replies, r') \<and>
    own_replies 9 demo_events replies = replicate (Suc (length [1 :: nat])) reply_ok \<and>
    deliveries_of 9 r' = deliveries_of 9 (StreamReassembler default_config) @ [(9, 77, concat demo_parts)] \<and>
    map_of (r_streams r') 9 = None"
proof (rule conforming_stream_delivered [where m = demo_start and ks = "[1]" and k = 0])
  show "own_messages 9 demo_events = map (\<lambda>k. (STREAM_CHUNK, chunk_bytes 9 demo_parts k)) ([1] @ [0])"
    by (rule demo_own)
  show "within_window (unat (maxParkedChunks default_config)) ([1] @ [0])"
    by (simp add: within_window_def parked_def first_missing_def default_config_def upt_rec)
  show "memory_available demo_events"
    by (simp add: memory_available_def demo_events_def demo_chunk_def demo_call_def layout_defs)
  show "list_all (timely default_config (nowStart (m_call demo_start))) demo_events"
    by (simp add: demo_events_def demo_chunk_def demo_start_def demo_call_def elapsed_ms_def shm_consts)
  show "admissible (r_config (StreamReassembler default_config)) demo_parts"
    by (simp add: admissible_def StreamReassembler_def IsValid_def default_config_def demo_parts_def kMaxStreamSize_def)
qed (simp_all add: demo_start_def demo_parts_def demo_call_def StreamReassembler_def Prune_def PruneInternal_def
    default_config_def lessThan_nat_numeral lessThan_Suc insert_commute)

end
