(* ===== verification/Shm_Steps.thy ===== *)
theory Shm_Steps
  imports Main
begin

text \<open>
  Interleavings as step relations: the states a system reaches, proofs of invariants, and
  refinement of an abstract system by a detailed one.
\<close>

inductive reachable :: "('s \<Rightarrow> bool) \<Rightarrow> ('s \<Rightarrow> 's \<Rightarrow> bool) \<Rightarrow> 's \<Rightarrow> bool" for init step where
  start: "init s \<Longrightarrow> reachable init step s"
| move: "reachable init step s \<Longrightarrow> step s s' \<Longrightarrow> reachable init step s'"

text \<open>An invariant holds at the start and every step keeps it.\<close>

locale invariant =
  fixes init :: "'s \<Rightarrow> bool" and step :: "'s \<Rightarrow> 's \<Rightarrow> bool" and inv :: "'s \<Rightarrow> bool"
  assumes holds_init: "init s \<Longrightarrow> inv s"
    and keeps: "inv s \<Longrightarrow> step s s' \<Longrightarrow> inv s'"
begin

lemma always: "reachable init step s \<Longrightarrow> inv s"
  by (induction rule: reachable.induct) (auto intro: holds_init keeps)

end

text \<open>
  What an observer sees of a run. In the detailed system the events of a step are read off its
  two states; the abstract system has them as the labels of its steps.
\<close>

inductive observed :: "('s \<Rightarrow> bool) \<Rightarrow> ('s \<Rightarrow> 's \<Rightarrow> bool) \<Rightarrow> ('s \<Rightarrow> 's \<Rightarrow> 'e list) \<Rightarrow> 'e list \<Rightarrow> 's \<Rightarrow> bool"
  for init step seen where
  observed_start: "init s \<Longrightarrow> observed init step seen [] s"
| observed_move: "observed init step seen tr s \<Longrightarrow> step s s' \<Longrightarrow> observed init step seen (tr @ seen s s') s'"

inductive behaves :: "('a \<Rightarrow> bool) \<Rightarrow> ('a \<Rightarrow> 'e list \<Rightarrow> 'a \<Rightarrow> bool) \<Rightarrow> 'e list \<Rightarrow> 'a \<Rightarrow> bool" for init step where
  behaves_start: "init a \<Longrightarrow> behaves init step [] a"
| behaves_move: "behaves init step tr a \<Longrightarrow> step a es a' \<Longrightarrow> behaves init step (tr @ es) a'"

lemma observed_reachable: "observed init step seen tr s \<Longrightarrow> reachable init step s"
  by (induction rule: observed.induct) (auto intro: reachable.intros)

text \<open>
  Forward simulation through an abstraction function: every step of the detailed system is
  a step of the abstract one with the same events, or has no events and changes nothing there.
\<close>

locale refinement = invariant init step inv
  for init :: "'s \<Rightarrow> bool" and step :: "'s \<Rightarrow> 's \<Rightarrow> bool" and inv :: "'s \<Rightarrow> bool" +
  fixes seen :: "'s \<Rightarrow> 's \<Rightarrow> 'e list" and ainit :: "'a \<Rightarrow> bool" and astep :: "'a \<Rightarrow> 'e list \<Rightarrow> 'a \<Rightarrow> bool"
    and abst :: "'s \<Rightarrow> 'a"
  assumes abst_init: "init s \<Longrightarrow> ainit (abst s)"
    and simulates: "inv s \<Longrightarrow> step s s' \<Longrightarrow> astep (abst s) (seen s s') (abst s') \<or> seen s s' = [] \<and> abst s' = abst s"
begin

lemma refines: "observed init step seen tr s \<Longrightarrow> behaves ainit astep tr (abst s)"
proof (induction rule: observed.induct)
  case (observed_start s)
  then show ?case
    by (simp add: abst_init behaves_start)
next
  case (observed_move tr s s')
  from simulates [OF always [OF observed_reachable [OF observed_move.hyps(1)]] observed_move.hyps(2)] show ?case
    using behaves_move [OF observed_move.IH] observed_move.IH by auto
qed

end

end
