(* ===== verification/Shm_Ring.thy ===== *)
theory Shm_Ring
  imports Shm_Slot_Rely Shm_Steps
begin

text \<open>
  The byte ring over the request buffer of a slot. The producer is \<open>RingBufferSender\<close> of
  \<open>src/include/shm/RingBuffer.h\<close>, the consumer \<open>RingBufferReceiver\<close> of
  \<open>src/go/ringbuffer.go\<close>. The memory they share is the request buffer: the two offsets of
  \<open>RingBufferHeader\<close>, then the data.
\<close>

section \<open>The shared memory\<close>

definition writeOffset :: "byte list \<Rightarrow> u64" where
  "writeOffset m = get_u64 m"

definition readOffset :: "byte list \<Rightarrow> u64" where
  "readOffset m = get_u64 (drop 128 m)"

definition set_writeOffset :: "u64 \<Rightarrow> byte list \<Rightarrow> byte list" where
  "set_writeOffset v m = overwrite 0 (put_u64 v) m"

definition set_readOffset :: "u64 \<Rightarrow> byte list \<Rightarrow> byte list" where
  "set_readOffset v m = overwrite 128 (put_u64 v) m"

section \<open>The producer\<close>

record ring_sender =
  rs_slotIdx :: int
  rs_capacity :: u32
  rs_initialized :: bool

definition RingBufferSender :: "int \<Rightarrow> ring_sender" where
  "RingBufferSender sIdx = \<lparr>rs_slotIdx = sIdx, rs_capacity = 0, rs_initialized = False\<rparr>"

definition ring_Init :: "bool \<Rightarrow> env \<Rightarrow> ring_sender \<Rightarrow> (alloc, result_void \<times> ring_sender) state" where
  "ring_Init host env s =
     (if \<not> host then ret (Failure InvalidArgs, s)
      else do {
        reqBuf \<leftarrow> GetReqBuffer (rs_slotIdx s);
        maxReq \<leftarrow> GetMaxReqSize (rs_slotIdx s);
        if (word_of_int maxReq :: u64) < word_of_nat sizeof_RingBufferHeader + 1024
        then ret (Failure BufferTooSmall, s)
        else do {
          let i = nat (rs_slotIdx s);
          store env i (reqBuffer_update (set_writeOffset 0));
          store env i (reqBuffer_update (set_readOffset 0));
          ret (Success, s\<lparr>rs_capacity := ucast (word_of_int maxReq - word_of_nat sizeof_RingBufferHeader :: u64),
            rs_initialized := True\<rparr>) } })"

text \<open>How much one iteration writes, or nothing when the ring is full.\<close>

definition write_len :: "u32 \<Rightarrow> u64 \<Rightarrow> u64 \<Rightarrow> u32 \<Rightarrow> u32 option" where
  "write_len capacity w r remaining =
     (let usage = w - r in
      if usage \<ge> ucast capacity then None
      else let available = capacity - ucast usage in
        Some (if remaining < available then remaining else available))"

text \<open>The circular write: one \<open>memcpy\<close>, or two when it wraps.\<close>

definition ring_put :: "u32 \<Rightarrow> u64 \<Rightarrow> byte list \<Rightarrow> byte list \<Rightarrow> byte list option" where
  "ring_put capacity w src m =
     (let toWrite = word_of_nat (length src);
          writeIdx = ucast (w mod ucast capacity) :: u32;
          contiguous = capacity - writeIdx;
          chunk = (if toWrite < contiguous then toWrite else contiguous)
      in Option.bind (mem_write (sizeof_RingBufferHeader + unat writeIdx) (take (unat chunk) src) m) (\<lambda>m.
           if chunk < toWrite then mem_write sizeof_RingBufferHeader (drop (unat chunk) src) m else Some m))"

text \<open>
  The loop of \<open>Write\<close>; \<open>src\<close> is what remains, \<open>fuel\<close> bounds the iterations. A \<open>memcpy\<close> that
  leaves the request buffer traps.
\<close>

definition ring_memcpy :: "env \<Rightarrow> nat \<Rightarrow> (byte list \<Rightarrow> byte list option) \<Rightarrow> (alloc, unit outcome) state" where
  "ring_memcpy env i f = State (\<lambda>a. let b = poll env 0 a in
     (case f (reqBuffer (slots b ! i)) of
        None \<Rightarrow> (Trap, b)
      | Some m \<Rightarrow> (Ret (), upd_slot i (reqBuffer_update (\<lambda>_. m)) b)))"

fun write_loop :: "nat \<Rightarrow> env \<Rightarrow> ring_sender \<Rightarrow> byte list \<Rightarrow> (alloc, result_void outcome) state" where
  "write_loop 0 env s src = ret (if src = [] then Ret Success else NoFuel)"
| "write_loop (Suc fuel) env s src =
     (if src = [] then ret (Ret Success)
      else do {
        let i = nat (rs_slotIdx s);
        w \<leftarrow> load env i (writeOffset \<circ> reqBuffer);
        r \<leftarrow> load env i (readOffset \<circ> reqBuffer);
        case write_len (rs_capacity s) w r (word_of_nat (length src)) of
          None \<Rightarrow> write_loop fuel env s src
        | Some toWrite \<Rightarrow>
            obind (ring_memcpy env i (ring_put (rs_capacity s) w (take (unat toWrite) src))) (\<lambda>_. do {
              store env i (reqBuffer_update (set_writeOffset (w + ucast toWrite)));
              SignalSlot env (rs_slotIdx s);
              write_loop fuel env s (drop (unat toWrite) src) }) })"

definition ring_Write :: "nat \<Rightarrow> env \<Rightarrow> ring_sender \<Rightarrow> byte list \<Rightarrow> (alloc, result_void outcome) state" where
  "ring_Write fuel env s data =
     (if \<not> rs_initialized s then ret (Ret (Failure InvalidArgs)) else write_loop fuel env s data)"

section \<open>The consumer\<close>

definition read_len :: "u32 \<Rightarrow> u64 \<Rightarrow> u64 \<Rightarrow> u64 \<Rightarrow> u64 option" where
  "read_len capacity w r outLen =
     (let available = w - r in
      if available = 0 then None
      else if available > ucast capacity then None
      else Some (if available < outLen then available else outLen))"

definition ring_get :: "u32 \<Rightarrow> u64 \<Rightarrow> u64 \<Rightarrow> byte list \<Rightarrow> byte list option" where
  "ring_get capacity r toRead m =
     (let readIdx = ucast (r mod ucast capacity) :: u32;
          contiguous = capacity - readIdx;
          chunk = (if ucast toRead > contiguous then contiguous else ucast toRead)
      in Option.bind (mem_read (sizeof_RingBufferHeader + unat readIdx) (unat chunk) m) (\<lambda>out.
           if chunk < ucast toRead
           then map_option (\<lambda>out2. out @ out2) (mem_read sizeof_RingBufferHeader (unat (ucast toRead - chunk :: u32)) m)
           else Some out))"

section \<open>The copies\<close>

text \<open>The byte of the ring at the absolute position \<open>p\<close>.\<close>

definition ring_byte :: "u32 \<Rightarrow> byte list \<Rightarrow> nat \<Rightarrow> byte" where
  "ring_byte capacity m p = m ! (256 + p mod unat capacity)"

lemma get_u64_frame:
  "off + length src \<le> length m \<Longrightarrow> p + 8 \<le> length m \<Longrightarrow> p + 8 \<le> off \<or> off + length src \<le> p \<Longrightarrow>
    get_u64 (drop p (overwrite off src m)) = get_u64 (drop p m)"
  using overwrite_frame [of off src m p 8] by (metis get_u64_take)

lemma header_fields [simp]:
  assumes "256 \<le> length m"
  shows "writeOffset (set_writeOffset v m) = v" "readOffset (set_writeOffset v m) = readOffset m"
    "writeOffset (set_readOffset v m) = writeOffset m" "readOffset (set_readOffset v m) = v"
    "length (set_writeOffset v m) = length m" "length (set_readOffset v m) = length m"
proof -
  show "writeOffset (set_writeOffset v m) = v" "readOffset (set_readOffset v m) = v"
    using assms by (simp_all add: writeOffset_def readOffset_def set_writeOffset_def set_readOffset_def overwrite_def)
  show "readOffset (set_writeOffset v m) = readOffset m" "writeOffset (set_readOffset v m) = writeOffset m"
    using assms get_u64_frame [of 0 "put_u64 v" m 128] get_u64_frame [of 128 "put_u64 v" m 0]
    by (simp_all add: writeOffset_def readOffset_def set_writeOffset_def set_readOffset_def)
  show "length (set_writeOffset v m) = length m" "length (set_readOffset v m) = length m"
    using assms by (simp_all add: set_writeOffset_def set_readOffset_def)
qed

lemma header_data [simp]:
  assumes "length m = 256 + unat c" and "0 < c"
  shows "ring_byte c (set_writeOffset v m) p = ring_byte c m p" "ring_byte c (set_readOffset v m) p = ring_byte c m p"
  using assms
  by (simp_all add: ring_byte_def set_writeOffset_def set_readOffset_def nth_overwrite word_gt_0 unat_gt_0)

text \<open>An offset of the ring, reduced to an index of the data.\<close>

lemma ring_index:
  assumes "0 < c"
  shows "unat (ucast ((w :: u64) mod ucast c) :: u32) = unat w mod unat (c :: u32)"
proof -
  have "unat w mod unat c < unat c"
    using assms by (simp add: word_gt_0 unat_gt_0)
  then have "unat w mod unat c < 2 ^ 32"
    using unat_u32_less [of c] by simp
  then show ?thesis
    by (simp add: unsigned_ucast_eq unat_mod_distrib take_bit_nat_eq_self)
qed

lemma ring_put_nth:
  fixes i c q k :: nat
  assumes "q < c" and "i < c" and "length m = 256 + c" and "length src \<le> c" and "k = min (length src) (c - i)"
  shows "overwrite 256 (drop k src) (overwrite (256 + i) (take k src) m) ! (256 + q) =
    (let d = (if i \<le> q then q - i else q + c - i) in if d < length src then src ! d else m ! (256 + q))"
proof -
  let ?m1 = "overwrite (256 + i) (take k src) m"
  have l1: "256 + i + length (take k src) \<le> length m"
    using assms by simp
  have m1: "?m1 ! (256 + q) = (if i \<le> q \<and> q < i + k then src ! (q - i) else m ! (256 + q))"
  proof -
    have "take k src ! (q - i) = src ! (q - i)" if "i \<le> q" "q < i + k"
      using that by (simp add: less_diff_conv2)
    then show ?thesis
      using assms by (subst nth_overwrite [OF l1]) auto
  qed
  have len: "length ?m1 = length m"
    by (rule length_overwrite [OF l1])
  have l2: "256 + length (drop k src) \<le> length ?m1"
    unfolding len using assms by simp
  have m2: "overwrite 256 (drop k src) ?m1 ! (256 + q) =
      (if q < length src - k then src ! (k + q) else ?m1 ! (256 + q))"
    using assms(1,3) len by (subst nth_overwrite [OF l2]) auto
  show ?thesis
  proof (cases "i \<le> q")
    case True
    then show ?thesis
      unfolding m2 m1 using assms by (auto simp: Let_def min_def)
  next
    case False
    then have "k + q = q + c - i" if "k < length src"
      using that assms by (simp add: min_def split: if_splits)
    then show ?thesis
      unfolding m2 m1 using False assms by (auto simp: Let_def min_def split: if_splits)
  qed
qed

lemma ring_put_in_bounds:
  assumes "length m = 256 + unat c" and "0 < c" and "length src \<le> unat c"
  obtains m' where "ring_put c w src m = Some m'" and "length m' = length m" and "take 256 m' = take 256 m"
    and "\<And>q. q < unat c \<Longrightarrow> m' ! (256 + q) =
      (let d = (if unat w mod unat c \<le> q then q - unat w mod unat c else q + unat c - unat w mod unat c) in
       if d < length src then src ! d else m ! (256 + q))"
proof -
  let ?c = "unat c" and ?i = "unat w mod unat c"
  have i: "?i < ?c"
    using assms(2) by (simp add: word_gt_0 unat_gt_0)
  have n: "unat (word_of_nat (length src) :: u32) = length src"
    using assms(3) unat_u32_less [of c] by (simp add: unsigned_of_nat take_bit_nat_eq_self)
  have con: "unat (c - ucast (w mod ucast c)) = ?c - ?i"
    using i by (subst unat_sub) (simp_all add: ring_index [OF assms(2)] word_le_nat_alt)
  let ?k = "min (length src) (?c - ?i)"
  define chunk where "chunk = (if (word_of_nat (length src) :: u32) < c - ucast (w mod ucast c)
      then word_of_nat (length src) else c - ucast (w mod ucast c))"
  have k: "unat chunk = ?k"
    unfolding chunk_def using n con by (auto simp: word_less_nat_alt)
  let ?m1 = "overwrite (256 + ?i) (take ?k src) m"
  let ?m2 = "overwrite 256 (drop ?k src) ?m1"
  have l1: "256 + ?i + length (take ?k src) \<le> length m" "256 + length (drop ?k src) \<le> length ?m1"
    using assms(1,3) i by auto
  have "ring_put c w src m = Some ?m2"
    using l1 unfolding ring_put_def Let_def chunk_def [symmetric]
    by (auto simp: ring_index [OF assms(2)] k word_less_nat_alt n mem_safe)
  moreover have "length ?m2 = length m"
    using l1 by simp
  moreover have "take 256 ?m2 = take 256 m"
    using l1 by (simp add: overwrite_def)
  moreover have "?m2 ! (256 + q) = (let d = (if ?i \<le> q then q - ?i else q + ?c - ?i) in
      if d < length src then src ! d else m ! (256 + q))" if "q < ?c" for q
    by (rule ring_put_nth) (use that i assms(1,3) in simp_all)
  ultimately show ?thesis by (rule that)
qed

lemma mod_add_small:
  fixes R c j :: nat
  assumes "0 < c" and "j < c"
  shows "(R + j) mod c = (if R mod c + j < c then R mod c + j else R mod c + j - c)"
proof -
  have "(R mod c + j) mod c = (if R mod c + j < c then R mod c + j else R mod c + j - c)"
  proof (cases "R mod c + j < c")
    case False
    have "R mod c < c" using assms(1) by simp
    then have "R mod c + j - c < c" using assms(2) by linarith
    then show ?thesis
      using False le_mod_geq [of c "R mod c + j"] by simp
  qed simp
  then show ?thesis by (simp add: mod_add_left_eq)
qed

text \<open>The same at absolute positions: the new bytes are in place, the unread ones untouched.\<close>

lemma mod_dist:
  fixes W c p :: nat
  assumes "0 < c"
  shows "W \<le> p \<Longrightarrow> p < W + c \<Longrightarrow>
      (if W mod c \<le> p mod c then p mod c - W mod c else p mod c + c - W mod c) = p - W"
    and "p < W \<Longrightarrow> W \<le> p + c \<Longrightarrow>
      (if W mod c \<le> p mod c then p mod c - W mod c else p mod c + c - W mod c) = p + c - W"
proof -
  have *: "(if W mod c \<le> p mod c then p mod c - W mod c else p mod c + c - W mod c) = p - W"
    if "W \<le> p" "p < W + c" for p
  proof -
    obtain d where d: "p = W + d" "d < c"
      using \<open>W \<le> p\<close> \<open>p < W + c\<close> by (metis add_less_cancel_left le_Suc_ex)
    have "W mod c < c"
      using assms by simp
    then have "p mod c = (if W mod c + d < c then W mod c + d else W mod c + d - c)"
      unfolding d(1) by (intro mod_add_small assms d(2))
    then show ?thesis
      using d assms \<open>W mod c < c\<close> by auto
  qed
  show "W \<le> p \<Longrightarrow> p < W + c \<Longrightarrow>
      (if W mod c \<le> p mod c then p mod c - W mod c else p mod c + c - W mod c) = p - W"
    by (rule *)
  show "p < W \<Longrightarrow> W \<le> p + c \<Longrightarrow>
      (if W mod c \<le> p mod c then p mod c - W mod c else p mod c + c - W mod c) = p + c - W"
    using * [of "p + c", unfolded mod_add_self2] by simp
qed

lemma ring_put_bytes:
  assumes "length m = 256 + unat c" and "0 < c" and "length src \<le> unat c"
  obtains m' where "ring_put c w src m = Some m'" and "length m' = length m"
    and "writeOffset m' = writeOffset m" and "readOffset m' = readOffset m"
    and "\<And>j. j < length src \<Longrightarrow> ring_byte c m' (unat w + j) = src ! j"
    and "\<And>p. p < unat w \<Longrightarrow> unat w + length src \<le> p + unat c \<Longrightarrow> ring_byte c m' p = ring_byte c m p"
proof -
  have c: "0 < unat c"
    using assms(2) by (simp add: word_gt_0 unat_gt_0)
  obtain m' where m': "ring_put c w src m = Some m'" "length m' = length m" "take 256 m' = take 256 m"
    and nth: "\<And>q. q < unat c \<Longrightarrow> m' ! (256 + q) =
      (let d = (if unat w mod unat c \<le> q then q - unat w mod unat c else q + unat c - unat w mod unat c) in
       if d < length src then src ! d else m ! (256 + q))"
    using ring_put_in_bounds [OF assms] by metis
  show ?thesis
  proof (rule that [OF m'(1,2)])
    have "take 8 m' = take 8 m" "take 8 (drop 128 m') = take 8 (drop 128 m)"
      using arg_cong [OF m'(3), of "take 8"] arg_cong [OF m'(3), of "\<lambda>x. take 8 (drop 128 x)"]
      by (simp_all add: drop_take)
    then show "writeOffset m' = writeOffset m" "readOffset m' = readOffset m"
      unfolding writeOffset_def readOffset_def by (metis get_u64_take)+
  next
    fix j assume j: "j < length src"
    then have "unat w \<le> unat w + j" "unat w + j < unat w + unat c"
      using assms(3) by simp_all
    from mod_dist(1) [OF c this] show "ring_byte c m' (unat w + j) = src ! j"
      using j c nth [of "(unat w + j) mod unat c"] by (simp add: ring_byte_def Let_def)
  next
    fix p assume p: "p < unat w" "unat w + length src \<le> p + unat c"
    then have w: "unat w \<le> p + unat c" and far: "\<not> p + unat c - unat w < length src"
      by linarith+
    from mod_dist(2) [OF c p(1) w] show "ring_byte c m' p = ring_byte c m p"
      using c nth [of "p mod unat c"] by (simp add: ring_byte_def Let_def far)
  qed
qed

lemma ring_get_bytes:
  assumes "length m = 256 + unat c" and "0 < c" and "unat n \<le> unat c"
  shows "ring_get c r n m = Some (map (\<lambda>j. ring_byte c m (unat r + j)) [0..<unat n])"
proof -
  let ?c = "unat c" and ?i = "unat r mod unat c" and ?n = "unat n"
  have c: "0 < ?c"
    using assms(2) by (simp add: word_gt_0 unat_gt_0)
  then have i: "?i < ?c" by simp
  have n: "unat (ucast n :: u32) = ?n"
    using assms(3) unat_u32_less [of c] by (simp add: unsigned_ucast_eq take_bit_nat_eq_self)
  have con: "unat (c - ucast (r mod ucast c)) = ?c - ?i"
    using i by (subst unat_sub) (simp_all add: ring_index [OF assms(2)] word_le_nat_alt)
  define chunk where "chunk = (if (ucast n :: u32) > c - ucast (r mod ucast c)
      then c - ucast (r mod ucast c) else ucast n)"
  let ?k = "min ?n (?c - ?i)"
  have k: "unat chunk = ?k"
    unfolding chunk_def using n con by (auto simp: word_less_nat_alt)
  have rest: "unat (ucast n - chunk) = ?n - ?k"
    by (subst unat_sub) (simp_all add: word_le_nat_alt n k)
  have b1: "256 + ?i + ?k \<le> length m" "256 + (?n - ?k) \<le> length m"
    using assms(1,3) i by auto
  have "ring_get c r n m = Some (take ?k (drop (256 + ?i) m) @ take (?n - ?k) (drop 256 m))"
    using b1 unfolding ring_get_def Let_def chunk_def [symmetric]
    by (auto simp: ring_index [OF assms(2)] k word_less_nat_alt n rest mem_safe)
  also have "take ?k (drop (256 + ?i) m) @ take (?n - ?k) (drop 256 m) =
      map (\<lambda>j. ring_byte c m (unat r + j)) [0..<?n]"
  proof (rule nth_equalityI)
    have "length (take ?k (drop (256 + ?i) m)) = ?k" "length (take (?n - ?k) (drop 256 m)) = ?n - ?k"
      using b1 unfolding length_take length_drop by linarith+
    then show len: "length (take ?k (drop (256 + ?i) m) @ take (?n - ?k) (drop 256 m)) =
        length (map (\<lambda>j. ring_byte c m (unat r + j)) [0..<?n])"
      unfolding length_append by simp
    fix j assume "j < length (take ?k (drop (256 + ?i) m) @ take (?n - ?k) (drop 256 m))"
    then have j: "j < ?n" "j < ?c"
      unfolding len using assms(3) by simp_all
    show "(take ?k (drop (256 + ?i) m) @ take (?n - ?k) (drop 256 m)) ! j =
        map (\<lambda>j. ring_byte c m (unat r + j)) [0..<?n] ! j"
    proof (cases "j < ?k")
      case True
      then have "?i + j < ?c" by linarith
      then show ?thesis
        using True j b1 by (simp add: nth_append ring_byte_def mod_add_small [OF c j(2)] add.assoc)
    next
      case False
      then have k': "?k = ?c - ?i" "\<not> ?i + j < ?c" "j - ?k = ?i + j - ?c"
        using j i by auto
      then show ?thesis
        using j b1 False i by (simp add: nth_append ring_byte_def mod_add_small [OF c j(2)])
    qed
  qed
  finally show ?thesis .
qed

end
