(* ===== verification/Shm_Ring_Fifo.thy ===== *)
theory Shm_Ring_Fifo
  imports Shm_Ring Shm_Slot_Send
begin

text \<open>
  The two processes on the ring, one access at a time: the loop of \<open>Write\<close> and \<open>Read\<close>. The
  system refines a bounded FIFO queue of bytes.
\<close>

section \<open>The interleaved system\<close>

text \<open>Where the producer and the consumer are between their accesses.\<close>

datatype producer_at = P_idle | P_w u64 | P_copy u64 u32 | P_commit u64 u32

datatype consumer_at = C_idle | C_w u64 u64 | C_copy u64 u64 | C_store u64 u64 "byte list"

text \<open>
  \<open>todo\<close> is what the current call of \<open>Write\<close> has still to commit; \<open>accepted\<close> collects the data
  of all calls of \<open>Write\<close> and \<open>got\<close> what the calls of \<open>Read\<close> have returned.
\<close>

record ring_system =
  mem :: "byte list"
  todo :: "byte list"
  producer :: producer_at
  consumer :: consumer_at
  accepted :: "byte list"
  got :: "byte list"

text \<open>
  The system is followed for its first \<open>2\<^sup>6\<^sup>4\<close> bytes: beyond, the offsets wrap around, and a
  capacity that does not divide \<open>2\<^sup>6\<^sup>4\<close> breaks the correspondence of offset and index.
\<close>

inductive ring_step :: "u32 \<Rightarrow> ring_system \<Rightarrow> ring_system \<Rightarrow> bool" for capacity where
  call_write: "producer s = P_idle \<Longrightarrow> todo s = [] \<Longrightarrow> length data < 2 ^ 32 \<Longrightarrow>
    length (accepted s) + length data < 2 ^ 64 \<Longrightarrow>
    ring_step capacity s (s\<lparr>todo := data, accepted := accepted s @ data\<rparr>)"
| write_load_w: "producer s = P_idle \<Longrightarrow> todo s \<noteq> [] \<Longrightarrow>
    ring_step capacity s (s\<lparr>producer := P_w (writeOffset (mem s))\<rparr>)"
| write_full: "producer s = P_w w \<Longrightarrow>
    write_len capacity w (readOffset (mem s)) (word_of_nat (length (todo s))) = None \<Longrightarrow>
    ring_step capacity s (s\<lparr>producer := P_idle\<rparr>)"
| write_load_r: "producer s = P_w w \<Longrightarrow>
    write_len capacity w (readOffset (mem s)) (word_of_nat (length (todo s))) = Some n \<Longrightarrow>
    ring_step capacity s (s\<lparr>producer := P_copy w n\<rparr>)"
| write_copy: "producer s = P_copy w n \<Longrightarrow>
    ring_put capacity w (take (unat n) (todo s)) (mem s) = Some m \<Longrightarrow>
    ring_step capacity s (s\<lparr>mem := m, producer := P_commit w n\<rparr>)"
| write_commit: "producer s = P_commit w n \<Longrightarrow>
    ring_step capacity s (s\<lparr>mem := set_writeOffset (w + ucast n) (mem s),
      todo := drop (unat n) (todo s), producer := P_idle\<rparr>)"
| read_load_w: "consumer s = C_idle \<Longrightarrow>
    ring_step capacity s (s\<lparr>consumer := C_w (writeOffset (mem s)) outLen\<rparr>)"
| read_none: "consumer s = C_w w outLen \<Longrightarrow> read_len capacity w (readOffset (mem s)) outLen = None \<Longrightarrow>
    ring_step capacity s (s\<lparr>consumer := C_idle\<rparr>)"
| read_load_r: "consumer s = C_w w outLen \<Longrightarrow> read_len capacity w (readOffset (mem s)) outLen = Some n \<Longrightarrow>
    ring_step capacity s (s\<lparr>consumer := C_copy (readOffset (mem s)) n\<rparr>)"
| read_copy: "consumer s = C_copy r n \<Longrightarrow> ring_get capacity r n (mem s) = Some out \<Longrightarrow>
    ring_step capacity s (s\<lparr>consumer := C_store r n out\<rparr>)"
| read_store: "consumer s = C_store r n out \<Longrightarrow>
    ring_step capacity s (s\<lparr>mem := set_readOffset (r + n) (mem s), got := got s @ out, consumer := C_idle\<rparr>)"

text \<open>The state after \<open>Init\<close>: both offsets zero, nothing written.\<close>

definition ring_init :: "u32 \<Rightarrow> ring_system \<Rightarrow> bool" where
  "ring_init capacity s = (0 < capacity \<and> length (mem s) = 256 + unat capacity \<and>
     writeOffset (mem s) = 0 \<and> readOffset (mem s) = 0 \<and> todo s = [] \<and> producer s = P_idle \<and>
     consumer s = C_idle \<and> accepted s = [] \<and> got s = [])"

section \<open>The queue it implements\<close>

text \<open>
  What the callers see: bytes handed to a call of \<open>Write\<close>, and bytes returned by a call of \<open>Read\<close>.
\<close>

datatype ring_event = Handed "byte list" | Returned "byte list"

definition ring_seen :: "ring_system \<Rightarrow> ring_system \<Rightarrow> ring_event list" where
  "ring_seen s t =
     (if accepted t = accepted s then [] else [Handed (drop (length (accepted s)) (accepted t))]) @
     (if got t = got s then [] else [Returned (drop (length (got s)) (got t))])"

record fifo =
  queue :: "byte list"
  waiting :: "byte list"

inductive fifo_step :: "nat \<Rightarrow> fifo \<Rightarrow> ring_event list \<Rightarrow> fifo \<Rightarrow> bool" for capacity where
  offer: "waiting q = [] \<Longrightarrow> fifo_step capacity q [Handed data] (q\<lparr>waiting := data\<rparr>)"
| enqueue: "waiting q = xs @ ys \<Longrightarrow> length (queue q @ xs) \<le> capacity \<Longrightarrow>
    fifo_step capacity q [] (q\<lparr>queue := queue q @ xs, waiting := ys\<rparr>)"
| dequeue: "queue q = xs @ ys \<Longrightarrow> fifo_step capacity q [Returned xs] (q\<lparr>queue := ys\<rparr>)"

definition fifo_init :: "fifo \<Rightarrow> bool" where
  "fifo_init q = (queue q = [] \<and> waiting q = [])"

text \<open>
  The events of the queue fix its content: what has been returned is a prefix of what has been
  handed over, and the rest is in the queue or waiting.
\<close>

fun handed :: "ring_event \<Rightarrow> byte list" where
  "handed (Handed d) = d"
| "handed (Returned d) = []"

fun returned :: "ring_event \<Rightarrow> byte list" where
  "returned (Handed d) = []"
| "returned (Returned d) = d"

lemma fifo_content:
  "behaves fifo_init (fifo_step n) tr q \<Longrightarrow>
    concat (map returned tr) @ queue q @ waiting q = concat (map handed tr) \<and> length (queue q) \<le> n"
proof (induction rule: behaves.induct)
  case (behaves_move tr q es q')
  from behaves_move.hyps(2) show ?case
    by cases (use behaves_move.IH in auto)
qed (simp add: fifo_init_def)

text \<open>The queue a ring holds: the bytes between the two offsets.\<close>

definition ring_content :: "u32 \<Rightarrow> byte list \<Rightarrow> byte list" where
  "ring_content capacity m =
     map (ring_byte capacity m) [unat (readOffset m)..<unat (writeOffset m)]"

definition ring_abs :: "u32 \<Rightarrow> ring_system \<Rightarrow> fifo" where
  "ring_abs capacity s = \<lparr>queue = ring_content capacity (mem s), waiting = todo s\<rparr>"

section \<open>The invariant\<close>

abbreviation W :: "ring_system \<Rightarrow> nat" where "W s \<equiv> unat (writeOffset (mem s))"
abbreviation R :: "ring_system \<Rightarrow> nat" where "R s \<equiv> unat (readOffset (mem s))"

definition holds :: "u32 \<Rightarrow> ring_system \<Rightarrow> nat \<Rightarrow> nat \<Rightarrow> bool" where
  "holds capacity s a b = (\<forall>p. a \<le> p \<longrightarrow> p < b \<longrightarrow> ring_byte capacity (mem s) p = accepted s ! p)"

fun producer_ok :: "u32 \<Rightarrow> ring_system \<Rightarrow> producer_at \<Rightarrow> bool" where
  "producer_ok c s P_idle = True"
| "producer_ok c s (P_w w) = (w = writeOffset (mem s) \<and> todo s \<noteq> [])"
| "producer_ok c s (P_copy w n) =
     (w = writeOffset (mem s) \<and> unat n \<le> length (todo s) \<and> W s + unat n \<le> R s + unat c)"
| "producer_ok c s (P_commit w n) =
     (w = writeOffset (mem s) \<and> unat n \<le> length (todo s) \<and> W s + unat n \<le> R s + unat c \<and>
      holds c s (W s) (W s + unat n))"

fun consumer_ok :: "u32 \<Rightarrow> ring_system \<Rightarrow> consumer_at \<Rightarrow> bool" where
  "consumer_ok c s C_idle = True"
| "consumer_ok c s (C_w w n) = (R s \<le> unat w \<and> unat w \<le> W s)"
| "consumer_ok c s (C_copy r n) = (r = readOffset (mem s) \<and> R s + unat n \<le> W s)"
| "consumer_ok c s (C_store r n out) =
     (r = readOffset (mem s) \<and> R s + unat n \<le> W s \<and> out = take (unat n) (drop (R s) (accepted s)))"

definition ring_inv :: "u32 \<Rightarrow> ring_system \<Rightarrow> bool" where
  "ring_inv c s = (0 < c \<and> length (mem s) = 256 + unat c \<and> length (accepted s) < 2 ^ 64 \<and>
     length (todo s) < 2 ^ 32 \<and> R s \<le> W s \<and> W s \<le> R s + unat c \<and> W s \<le> length (accepted s) \<and>
     todo s = drop (W s) (accepted s) \<and> got s = take (R s) (accepted s) \<and>
     holds c s (R s) (W s) \<and> producer_ok c s (producer s) \<and> consumer_ok c s (consumer s))"

lemma ring_content_accepted:
  assumes "ring_inv c s"
  shows "ring_content c (mem s) = take (W s - R s) (drop (R s) (accepted s))"
  using assms unfolding ring_content_def ring_inv_def holds_def
  by (intro nth_equalityI) auto

text \<open>The lengths the two sides compute, without wrap-around.\<close>

lemma write_len_Some:
  assumes "unat r \<le> unat w" and "unat w \<le> unat r + unat c" and "k < 2 ^ 32"
    and "write_len c w r (word_of_nat k) = Some n"
  shows "unat n \<le> k \<and> unat w + unat n \<le> unat r + unat c"
proof -
  have u: "unat (w - r) = unat w - unat r"
    using assms(1) by (simp add: unat_sub word_le_nat_alt)
  have lt: "unat w - unat r < unat c"
    using assms(4) by (auto simp: write_len_def Let_def word_le_nat_alt u split: if_splits)
  then have "unat (ucast (w - r) :: u32) = unat w - unat r"
    using unat_u32_less [of c] by (simp add: unsigned_ucast_eq take_bit_nat_eq_self u)
  then have a: "unat (c - ucast (w - r)) = unat c - (unat w - unat r)"
    using lt by (subst unat_sub) (simp_all add: word_le_nat_alt)
  have k: "unat (word_of_nat k :: u32) = k"
    using assms(3) by (simp add: unsigned_of_nat take_bit_nat_eq_self)
  show ?thesis
    using assms(1,4) lt a k by (auto simp: write_len_def Let_def word_less_nat_alt split: if_splits)
qed

lemma read_len_Some:
  assumes "unat r \<le> unat w" and "read_len c w r k = Some n"
  shows "unat r + unat n \<le> unat w \<and> unat n \<le> unat c"
proof -
  have u: "unat (w - r) = unat w - unat r"
    using assms(1) by (simp add: unat_sub word_le_nat_alt)
  show ?thesis
    using assms by (auto simp: read_len_def Let_def word_less_nat_alt u not_less split: if_splits)
qed

lemma add_offset: "unat (w :: u64) + unat n < 2 ^ 64 \<Longrightarrow> unat (w + ucast (n :: u32)) = unat w + unat n"
  by (simp add: unat_plus_if')

lemma ring_invD:
  assumes "ring_inv c s"
  shows "0 < c" "length (mem s) = 256 + unat c" "length (accepted s) < 2 ^ 64" "length (todo s) < 2 ^ 32"
    "R s \<le> W s" "W s \<le> R s + unat c" "W s \<le> length (accepted s)" "todo s = drop (W s) (accepted s)"
    "got s = take (R s) (accepted s)" "holds c s (R s) (W s)"
    "producer_ok c s (producer s)" "consumer_ok c s (consumer s)"
  using assms unfolding ring_inv_def by blast+

text \<open>The producer assertion survives an advance of the read offset, and vice versa.\<close>

lemma producer_ok_frame:
  assumes "producer_ok c s p" and "writeOffset (mem t) = writeOffset (mem s)" and "R s \<le> R t"
    and "todo t = todo s" and "accepted t = accepted s"
    and "\<And>q. ring_byte c (mem t) q = ring_byte c (mem s) q"
  shows "producer_ok c t p"
  using assms by (cases p) (auto simp: holds_def)

lemma consumer_ok_frame:
  assumes "consumer_ok c s p" and "readOffset (mem t) = readOffset (mem s)" and "W s \<le> W t"
    and "W s \<le> length (accepted s)" and "accepted t = accepted s @ d"
  shows "consumer_ok c t p"
  using assms by (cases p) auto

lemma call_write_inv:
  assumes "ring_inv c s" and "todo s = []" and "length data < 2 ^ 32"
    and "length (accepted s) + length data < 2 ^ 64" and "producer s = P_idle"
  shows "ring_inv c (s\<lparr>todo := data, accepted := accepted s @ data\<rparr>)"
proof -
  note I = ring_invD [OF assms(1)]
  have w: "W s = length (accepted s)"
    using I(7,8) assms(2) by simp
  have "consumer_ok c (s\<lparr>todo := data, accepted := accepted s @ data\<rparr>) (consumer s)"
    by (rule consumer_ok_frame [OF I(12)]) (use I(7) in simp_all)
  moreover have "holds c (s\<lparr>todo := data, accepted := accepted s @ data\<rparr>) (R s) (W s)"
    using I(10) w by (simp add: holds_def nth_append)
  ultimately show ?thesis
    using I(1-6,9) assms(3-5) w unfolding ring_inv_def by simp
qed

lemma write_copy_inv:
  assumes "ring_inv c s" and "producer s = P_copy w n"
  obtains m where "ring_put c w (take (unat n) (todo s)) (mem s) = Some m"
    and "ring_inv c (s\<lparr>mem := m, producer := P_commit w n\<rparr>)"
    and "ring_content c m = ring_content c (mem s)"
proof -
  note I = ring_invD [OF assms(1)]
  have p: "w = writeOffset (mem s)" "unat n \<le> length (todo s)" "W s + unat n \<le> R s + unat c"
    using I(11) assms(2) by simp_all
  have len: "length (take (unat n) (todo s)) = unat n" "length (take (unat n) (todo s)) \<le> unat c"
    using p I(5) by simp_all
  obtain m where m: "ring_put c w (take (unat n) (todo s)) (mem s) = Some m" "length m = length (mem s)"
      "writeOffset m = writeOffset (mem s)" "readOffset m = readOffset (mem s)"
    and new': "\<And>j. j < length (take (unat n) (todo s)) \<Longrightarrow> ring_byte c m (unat w + j) = take (unat n) (todo s) ! j"
    and old': "\<And>q. q < unat w \<Longrightarrow> unat w + length (take (unat n) (todo s)) \<le> q + unat c \<Longrightarrow>
      ring_byte c m q = ring_byte c (mem s) q"
    by (rule ring_put_bytes [OF I(2,1) len(2), of w]) blast
  note new = new' [unfolded len(1) p(1)] and old = old' [unfolded len(1) p(1)]
  let ?t = "s\<lparr>mem := m, producer := P_commit w n\<rparr>"
  have unread: "ring_byte c m q = ring_byte c (mem s) q" if "R s \<le> q" "q < W s" for q
    using old [OF that(2)] that(1) p(3) by linarith
  have h1: "holds c ?t (R s) (W s)"
    using I(10) unread by (simp add: holds_def)
  have "ring_byte c m q = accepted s ! q" if "W s \<le> q" "q < W s + unat n" for q
  proof -
    have "q = W s + (q - W s)" "q - W s < unat n"
      using that by linarith+
    then show ?thesis
      using new [of "q - W s"] I(7,8) p(2) that by (simp add: nth_drop)
  qed
  then have h2: "holds c ?t (W s) (W s + unat n)"
    by (simp add: holds_def)
  have "consumer_ok c ?t (consumer s)"
    by (rule consumer_ok_frame [OF I(12), of _ "[]"]) (use I(7) m in simp_all)
  then have "ring_inv c ?t"
    using I(1-9) h1 h2 p m(2-4) unfolding ring_inv_def by simp
  moreover have "ring_content c m = ring_content c (mem s)"
    unfolding ring_content_def m(3,4) using unread by simp
  ultimately show ?thesis
    using that m(1) by blast
qed

lemma write_commit_inv:
  assumes "ring_inv c s" and "producer s = P_commit w n"
  shows "ring_inv c (s\<lparr>mem := set_writeOffset (w + ucast n) (mem s), todo := drop (unat n) (todo s), producer := P_idle\<rparr>)"
    (is "ring_inv c ?t")
proof -
  note I = ring_invD [OF assms(1)]
  have p: "w = writeOffset (mem s)" "unat n \<le> length (todo s)" "W s + unat n \<le> R s + unat c"
      "holds c s (W s) (W s + unat n)"
    using I(11) assms(2) by simp_all
  have big: "256 \<le> length (mem s)" and len: "W s + unat n \<le> length (accepted s)"
    using I(2,7,8) p(2) by simp_all
  then have w: "unat (w + ucast n) = W s + unat n"
    using add_offset [of w n] I(3) p(1) by simp
  have off: "W ?t = W s + unat n" "R ?t = R s"
    using w big by simp_all
  have "holds c ?t (R s) (W s + unat n)"
    using I(1,2,10) p(4) unfolding holds_def by (auto simp: not_less [symmetric])
  moreover have "consumer_ok c ?t (consumer s)"
    by (rule consumer_ok_frame [OF I(12), of _ "[]"]) (use I(7) off big in simp_all)
  ultimately show ?thesis
    unfolding ring_inv_def off using I(1-9) p len big by (simp add: add.commute)
qed

lemma read_store_inv:
  assumes "ring_inv c s" and "consumer s = C_store r n out"
  shows "ring_inv c (s\<lparr>mem := set_readOffset (r + n) (mem s), got := got s @ out, consumer := C_idle\<rparr>)"
    (is "ring_inv c ?t")
proof -
  note I = ring_invD [OF assms(1)]
  have p: "r = readOffset (mem s)" "R s + unat n \<le> W s" "out = take (unat n) (drop (R s) (accepted s))"
    using I(12) assms(2) by simp_all
  have big: "256 \<le> length (mem s)"
    using I(2) by simp
  have "unat (r + n) = R s + unat n"
    using p(1,2) unat_u64_less [of "writeOffset (mem s)"] by (simp add: unat_plus_if')
  then have off: "W ?t = W s" "R ?t = R s + unat n" "writeOffset (mem ?t) = writeOffset (mem s)"
    using big by simp_all
  have "holds c ?t (R s + unat n) (W s)"
    using I(1,2,10) unfolding holds_def by simp
  moreover have "producer_ok c ?t (producer s)"
    by (rule producer_ok_frame [OF I(11)]) (use I(1,2) off in simp_all)
  ultimately show ?thesis
    unfolding ring_inv_def off using I(1-9) p big by (simp add: take_add)
qed

section \<open>Every step keeps the invariant and refines the queue\<close>

lemma pc_frame [simp]:
  "holds c (s\<lparr>producer := x\<rparr>) a b = holds c s a b" "holds c (s\<lparr>consumer := y\<rparr>) a b = holds c s a b"
  "producer_ok c (s\<lparr>producer := x\<rparr>) p = producer_ok c s p" "producer_ok c (s\<lparr>consumer := y\<rparr>) p = producer_ok c s p"
  "consumer_ok c (s\<lparr>producer := x\<rparr>) q = consumer_ok c s q" "consumer_ok c (s\<lparr>consumer := y\<rparr>) q = consumer_ok c s q"
  by (simp_all add: holds_def, (cases p; simp add: holds_def)+, (cases q; simp)+)

lemma producer_moves: "ring_inv c s \<Longrightarrow> producer_ok c s x \<Longrightarrow> ring_inv c (s\<lparr>producer := x\<rparr>)"
  by (auto simp: ring_inv_def)

lemma consumer_moves: "ring_inv c s \<Longrightarrow> consumer_ok c s y \<Longrightarrow> ring_inv c (s\<lparr>consumer := y\<rparr>)"
  by (auto simp: ring_inv_def)

lemma read_copy_out:
  assumes "ring_inv c s" and "consumer s = C_copy r n"
  shows "ring_get c r n (mem s) = Some (take (unat n) (drop (R s) (accepted s)))"
proof -
  note I = ring_invD [OF assms(1)]
  have p: "r = readOffset (mem s)" "R s + unat n \<le> W s"
    using I(12) assms(2) by simp_all
  have "map (\<lambda>j. ring_byte c (mem s) (R s + j)) [0..<unat n] = take (unat n) (drop (R s) (accepted s))"
    using I(7,10) p(2) by (intro nth_equalityI) (auto simp: holds_def)
  then show ?thesis
    using ring_get_bytes [OF I(2,1), of n r] p I(6) by simp
qed

lemma ring_step_inv:
  assumes "ring_inv c s" and "ring_step c s t"
  shows "ring_inv c t"
  using assms(2)
proof (cases rule: ring_step.cases)
  case (call_write data)
  then show ?thesis using call_write_inv [OF assms(1)] by simp
next
  case (write_copy w n m)
  then show ?thesis using write_copy_inv [OF assms(1)] by (metis option.inject)
next
  case (write_commit w n)
  then show ?thesis using write_commit_inv [OF assms(1)] by simp
next
  case (read_store r n out)
  then show ?thesis using read_store_inv [OF assms(1)] by simp
next
  case write_load_w
  then show ?thesis using producer_moves [OF assms(1)] by simp
next
  case (write_full w)
  then show ?thesis using producer_moves [OF assms(1)] by simp
next
  case (write_load_r w n)
  then have w: "w = writeOffset (mem s)"
    using ring_invD(11) [OF assms(1)] by simp
  have "unat n \<le> length (todo s) \<and> W s + unat n \<le> R s + unat c"
    using write_len_Some [OF _ _ ring_invD(4) [OF assms(1)]] ring_invD(5,6) [OF assms(1)] write_load_r w by blast
  then show ?thesis
    using producer_moves [OF assms(1)] write_load_r w by simp
next
  case (read_load_w outLen)
  then show ?thesis using consumer_moves [OF assms(1)] ring_invD(5) [OF assms(1)] by simp
next
  case (read_none w outLen)
  then show ?thesis using consumer_moves [OF assms(1)] by simp
next
  case (read_load_r w outLen n)
  then have w: "R s \<le> unat w" "unat w \<le> W s"
    using ring_invD(12) [OF assms(1)] by simp_all
  have "R s + unat n \<le> W s"
    using read_len_Some [OF w(1) read_load_r(3)] w(2) by simp
  then show ?thesis
    using consumer_moves [OF assms(1)] read_load_r by simp
next
  case (read_copy r n out)
  then show ?thesis
    using consumer_moves [OF assms(1)] read_copy_out [OF assms(1)] ring_invD(12) [OF assms(1)] by simp
qed

lemma ring_init_inv: "ring_init c s \<Longrightarrow> ring_inv c s"
  by (simp add: ring_init_def ring_inv_def holds_def)

lemma ring_step_refines:
  assumes "ring_inv c s" and "ring_step c s t"
  shows "fifo_step (unat c) (ring_abs c s) (ring_seen s t) (ring_abs c t) \<or> ring_seen s t = [] \<and> ring_abs c t = ring_abs c s"
  using assms(2)
proof (cases rule: ring_step.cases)
  case (call_write data)
  then have "ring_abs c t = (ring_abs c s)\<lparr>waiting := data\<rparr>" "ring_seen s t = (if data = [] then [] else [Handed data])"
    by (simp_all add: ring_abs_def ring_seen_def)
  then show ?thesis
    using fifo_step.offer [of "ring_abs c s" "unat c" data] call_write by (simp add: ring_abs_def split: if_splits)
next
  case (write_copy w n m)
  then show ?thesis
    using write_copy_inv [OF assms(1)] by (simp add: ring_abs_def ring_seen_def) (metis option.inject)
next
  case (write_commit w n)
  note I = ring_invD [OF assms(1)] and I' = ring_invD [OF ring_step_inv [OF assms]]
  let ?xs = "take (unat n) (todo s)"
  have p: "w = writeOffset (mem s)" "unat n \<le> length (todo s)" "W s + unat n \<le> R s + unat c"
    using I(11) write_commit by simp_all
  have "W s + unat n < 2 ^ 64"
    using p(2) I(3,7,8) by simp
  then have off: "W t = W s + unat n" "R t = R s" "accepted t = accepted s"
    using write_commit p(1) I(2) add_offset [of w n] by simp_all
  have q: "ring_content c (mem t) = ring_content c (mem s) @ ?xs"
    unfolding ring_content_accepted [OF assms(1)] ring_content_accepted [OF ring_step_inv [OF assms]] off
    unfolding diff_add_assoc2 [OF I(5)] take_add drop_drop I(8) using I(5) by simp
  have len: "length (ring_content c (mem s) @ ?xs) \<le> unat c"
    using p I(5) by (simp add: ring_content_def)
  have "fifo_step (unat c) (ring_abs c s) [] ((ring_abs c s)\<lparr>queue := queue (ring_abs c s) @ ?xs,
      waiting := drop (unat n) (todo s)\<rparr>)"
    using len by (intro fifo_step.enqueue) (simp_all add: ring_abs_def)
  then show ?thesis
    using q write_commit by (simp add: ring_abs_def ring_seen_def)
next
  case (read_store r n out)
  note I = ring_invD [OF assms(1)]
  have p: "r = readOffset (mem s)" "R s + unat n \<le> W s" "out = take (unat n) (drop (R s) (accepted s))"
    using I(12) read_store by simp_all
  have "unat (r + n) = R s + unat n"
    using p(1,2) unat_u64_less [of "writeOffset (mem s)"] by (simp add: unat_plus_if')
  then have off: "W t = W s" "R t = R s + unat n" "accepted t = accepted s"
    using read_store I(2) by simp_all
  have "ring_content c (mem s) = out @ ring_content c (mem t)"
    unfolding ring_content_accepted [OF assms(1)] ring_content_accepted [OF ring_step_inv [OF assms]] off p(3)
    using p(2) take_add [of "unat n" "W s - (R s + unat n)" "drop (R s) (accepted s)"] by (simp add: add.commute)
  then have "fifo_step (unat c) (ring_abs c s) [Returned out] ((ring_abs c s)\<lparr>queue := ring_content c (mem t)\<rparr>)"
    "out = [] \<longrightarrow> ring_content c (mem t) = ring_content c (mem s)"
    by (intro fifo_step.dequeue, simp_all add: ring_abs_def)
  then show ?thesis
    using read_store by (simp add: ring_abs_def ring_seen_def)
qed (simp_all add: ring_abs_def ring_seen_def)

interpretation ring: refinement "ring_init c" "ring_step c" "ring_inv c" ring_seen fifo_init "fifo_step (unat c)" "ring_abs c"
proof
  show "ring_init c s \<Longrightarrow> fifo_init (ring_abs c s)" for s
    by (simp add: ring_init_def fifo_init_def ring_abs_def ring_content_def)
qed (fact ring_init_inv ring_step_inv ring_step_refines)+

text \<open>
  C12. The ring in shared memory refines a bounded FIFO queue of bytes. Take any interleaving
  of the accesses of the C++ producer and of the Go consumer, for any calls of \<open>Write\<close> and
  \<open>Read\<close> and any capacity, over the first \<open>2\<^sup>6\<^sup>4\<close> bytes. The sequence of the bytes handed to
  \<open>Write\<close> and of the bytes returned by \<open>Read\<close>, in the order in which they occur, is one the
  queue can produce, and the queue then holds the bytes between the two offsets. So at every
  moment what \<open>Read\<close> has returned, the content of the ring and what \<open>Write\<close> has still to commit
  are together exactly the bytes handed over so far.
\<close>

theorem ring_refines_fifo:
  assumes "observed (ring_init c) (ring_step c) ring_seen tr s"
  shows "behaves fifo_init (fifo_step (unat c)) tr (ring_abs c s) \<and>
    concat (map returned tr) @ ring_content c (mem s) @ todo s = concat (map handed tr)"
  using ring.refines [OF assms] fifo_content [OF ring.refines [OF assms]] by (simp add: ring_abs_def)

text \<open>
  C23. Nothing is lost, repeated or reordered by the ring: in every reachable state the
  bytes the consumer has received, followed by the bytes in the ring and the bytes the
  producer has still to write, are exactly the bytes handed to \<open>Write\<close>. Neither side ever
  accesses memory outside the data area: a copy it is about to make succeeds.
\<close>

theorem ring_loses_nothing:
  assumes "reachable (ring_init c) (ring_step c) s"
  shows "got s @ ring_content c (mem s) @ todo s = accepted s \<and>
    (case producer s of P_copy w n \<Rightarrow> ring_put c w (take (unat n) (todo s)) (mem s) \<noteq> None | _ \<Rightarrow> True) \<and>
    (case consumer s of C_copy r n \<Rightarrow> ring_get c r n (mem s) \<noteq> None | _ \<Rightarrow> True)"
proof (intro conjI)
  note inv = ring.always [OF assms]
  note I = ring_invD [OF inv]
  have "got s @ ring_content c (mem s) = take (W s) (accepted s)"
    unfolding ring_content_accepted [OF inv] I(9)
    using I(5) take_add [of "R s" "W s - R s" "accepted s"] by simp
  then show "got s @ ring_content c (mem s) @ todo s = accepted s"
    using I(8) by (metis append.assoc append_take_drop_id)
  show "case producer s of P_copy w n \<Rightarrow> ring_put c w (take (unat n) (todo s)) (mem s) \<noteq> None | _ \<Rightarrow> True"
  proof (cases "producer s")
    case (P_copy w n)
    obtain m where "ring_put c w (take (unat n) (todo s)) (mem s) = Some m"
      by (rule write_copy_inv [OF inv P_copy])
    then show ?thesis by (simp add: P_copy)
  qed simp_all
  show "case consumer s of C_copy r n \<Rightarrow> ring_get c r n (mem s) \<noteq> None | _ \<Rightarrow> True"
    by (simp add: read_copy_out [OF inv] split: consumer_at.split)
qed

text \<open>A ring of two bytes after one byte has been written.\<close>

definition ring0 :: ring_system where
  "ring0 = \<lparr>mem = replicate 258 0, todo = [], producer = P_idle, consumer = C_idle, accepted = [], got = []\<rparr>"

definition ring1 :: ring_system where
  "ring1 = ring0\<lparr>todo := [7, 8, 9], accepted := [7, 8, 9]\<rparr>"

definition ring2 :: ring_system where
  "ring2 = ring1\<lparr>mem := overwrite 256 [7, 8] (replicate 258 0), producer := P_commit 0 2\<rparr>"

definition ring3 :: ring_system where
  "ring3 = ring1\<lparr>mem := set_writeOffset 2 (overwrite 256 [7, 8] (replicate 258 0)), todo := [9]\<rparr>"

lemma demo_ring_offsets:
  "writeOffset (replicate 258 0) = 0" "readOffset (replicate 258 0) = 0"
  by code_simp+

text \<open>The same ring after a call of \<open>Read\<close> for one byte.\<close>

definition ring4 :: ring_system where
  "ring4 = ring3\<lparr>mem := set_readOffset 1 (mem ring3), got := [7]\<rparr>"

lemma demo_ring_seen:
  "ring_seen ring0 ring1 = [Handed [7, 8, 9]]" "ring_seen ring1 (ring1\<lparr>producer := p\<rparr>) = []"
  "ring_seen (ring1\<lparr>producer := p\<rparr>) (ring1\<lparr>producer := p'\<rparr>) = []" "ring_seen (ring1\<lparr>producer := p\<rparr>) ring2 = []"
  "ring_seen ring2 ring3 = []" "ring_seen ring3 (ring3\<lparr>consumer := x\<rparr>) = []"
  "ring_seen (ring3\<lparr>consumer := x\<rparr>) (ring3\<lparr>consumer := x'\<rparr>) = []" "ring_seen (ring3\<lparr>consumer := x\<rparr>) ring4 = [Returned [7]]"
  by (simp_all add: ring_seen_def ring0_def ring1_def ring2_def ring3_def ring4_def)

lemma demo_ring_written: "observed (ring_init 2) (ring_step 2) ring_seen [Handed [7, 8, 9]] ring3"
proof -
  note move = observed_move [where init = "ring_init 2" and step = "ring_step 2" and seen = ring_seen]
  have "observed (ring_init 2) (ring_step 2) ring_seen [] ring0"
    by (rule observed_start) (simp add: ring_init_def ring0_def demo_ring_offsets)
  then have "observed (ring_init 2) (ring_step 2) ring_seen [Handed [7, 8, 9]] ring1"
    using move [of "[]" ring0 ring1] ring_step.call_write [of ring0 "[7, 8, 9]" 2] by (simp add: demo_ring_seen) (simp add: ring0_def ring1_def)
  then have "observed (ring_init 2) (ring_step 2) ring_seen [Handed [7, 8, 9]] (ring1\<lparr>producer := P_w 0\<rparr>)"
    using move [of _ ring1 "ring1\<lparr>producer := P_w 0\<rparr>"] ring_step.write_load_w [of ring1 2]
    by (simp add: demo_ring_seen) (simp add: ring0_def ring1_def demo_ring_offsets)
  then have "observed (ring_init 2) (ring_step 2) ring_seen [Handed [7, 8, 9]] (ring1\<lparr>producer := P_copy 0 2\<rparr>)"
    using move [of _ "ring1\<lparr>producer := P_w 0\<rparr>" "ring1\<lparr>producer := P_copy 0 2\<rparr>"]
      ring_step.write_load_r [of "ring1\<lparr>producer := P_w 0\<rparr>" 0 2 2]
    by (simp add: demo_ring_seen) (simp add: ring0_def ring1_def demo_ring_offsets write_len_def)
  then have "observed (ring_init 2) (ring_step 2) ring_seen [Handed [7, 8, 9]] ring2"
    using move [of _ "ring1\<lparr>producer := P_copy 0 2\<rparr>" ring2]
      ring_step.write_copy [of "ring1\<lparr>producer := P_copy 0 2\<rparr>" 0 2 2 "overwrite 256 [7, 8] (replicate 258 0)"]
    by (simp add: demo_ring_seen) (simp add: ring0_def ring1_def ring2_def ring_put_def mem_safe)
  then show ?thesis
    using move [of _ ring2 ring3] ring_step.write_commit [of ring2 0 2 2]
    by (simp add: demo_ring_seen) (simp add: ring0_def ring1_def ring2_def ring3_def)
qed

lemmas demo_ring_reachable = observed_reachable [OF demo_ring_written]

lemma demo_ring3: "writeOffset (mem ring3) = 2" "readOffset (mem ring3) = 0" "ring_get 2 0 1 (mem ring3) = Some [7]"
  by code_simp+

lemma demo_ring_read: "observed (ring_init 2) (ring_step 2) ring_seen [Handed [7, 8, 9], Returned [7]] ring4"
proof -
  note move = observed_move [where init = "ring_init 2" and step = "ring_step 2" and seen = ring_seen and tr = "[Handed [7, 8, 9]]"]
  have idle: "consumer ring3 = C_idle"
    by (simp add: ring0_def ring1_def ring3_def)
  have "observed (ring_init 2) (ring_step 2) ring_seen [Handed [7, 8, 9]] (ring3\<lparr>consumer := C_w 2 1\<rparr>)"
    using move [OF demo_ring_written, of "ring3\<lparr>consumer := C_w 2 1\<rparr>"] ring_step.read_load_w [OF idle, of 2 1] demo_ring_seen demo_ring3 by simp
  then have "observed (ring_init 2) (ring_step 2) ring_seen [Handed [7, 8, 9]] (ring3\<lparr>consumer := C_copy 0 1\<rparr>)"
    using move [of "ring3\<lparr>consumer := C_w 2 1\<rparr>" "ring3\<lparr>consumer := C_copy 0 1\<rparr>"]
      ring_step.read_load_r [of "ring3\<lparr>consumer := C_w 2 1\<rparr>" 2 1 2 1] demo_ring_seen demo_ring3 by (simp add: read_len_def)
  then have "observed (ring_init 2) (ring_step 2) ring_seen [Handed [7, 8, 9]] (ring3\<lparr>consumer := C_store 0 1 [7]\<rparr>)"
    using move [of "ring3\<lparr>consumer := C_copy 0 1\<rparr>" "ring3\<lparr>consumer := C_store 0 1 [7]\<rparr>"]
      ring_step.read_copy [of "ring3\<lparr>consumer := C_copy 0 1\<rparr>" 0 1 2 "[7]"] demo_ring_seen demo_ring3 by simp
  moreover have "ring_step 2 (ring3\<lparr>consumer := C_store 0 1 [7]\<rparr>) ring4"
    using ring_step.read_store [of "ring3\<lparr>consumer := C_store 0 1 [7]\<rparr>" 0 1 "[7]" 2] idle
    by (simp add: ring4_def) (simp add: ring0_def ring1_def ring3_def)
  ultimately show ?thesis
    using move [of "ring3\<lparr>consumer := C_store 0 1 [7]\<rparr>" ring4] demo_ring_seen by simp
qed

theorem ring_refines_fifo_witness:
  "behaves fifo_init (fifo_step (unat (2 :: u32))) [Handed [7, 8, 9], Returned [7]] (ring_abs 2 ring4) \<and>
   [7] @ ring_content 2 (mem ring4) @ [9] = [7, 8, 9]"
  using ring_refines_fifo [OF demo_ring_read] by (simp add: ring4_def ring3_def)

theorem ring_loses_nothing_witness: "got ring3 @ ring_content 2 (mem ring3) @ todo ring3 = [7, 8, 9]"
  using ring_loses_nothing [OF demo_ring_reachable] by (simp add: ring3_def ring1_def)

section \<open>The producer against any peer\<close>

text \<open>The peer may write anything into the buffer; the mapping stays as long as it is.\<close>

definition ring_rely :: "slot \<Rightarrow> slot \<Rightarrow> bool" where
  "ring_rely s s' = (length (reqBuffer s') = length (reqBuffer s))"

definition ring_shape :: "u32 \<Rightarrow> slot \<Rightarrow> bool" where
  "ring_shape c s = (length (reqBuffer s) = 256 + unat c)"

lemma ring_shape_stable: "stable ring_rely (ring_shape c)"
  by (simp add: stable_def ring_rely_def ring_shape_def)

lemma write_len_le: "write_len c w r k = Some n \<Longrightarrow> n \<le> c"
proof -
  assume n: "write_len c w r k = Some n"
  then have "unat (w - r) < unat c"
    by (auto simp: write_len_def Let_def word_le_nat_alt not_le split: if_splits)
  then have "unat (ucast (w - r) :: u32) < unat c"
    using unat_u32_less [of c] by (simp add: unsigned_ucast_eq take_bit_nat_eq_self)
  then have "c - ucast (w - r) \<le> c"
    by (simp add: word_le_nat_alt unat_sub)
  then show ?thesis
    using n by (auto simp: write_len_def Let_def split: if_splits)
qed

lemma t_ring_memcpy:
  assumes "slot_rely env i ring_rely" and "0 < c" and "length src \<le> unat c"
  shows "triple (at_slot i st (ring_shape c)) (ring_memcpy env i (ring_put c w src))
    (\<lambda>x a. x = Ret () \<and> at_slot i st (ring_shape c) a)"
  unfolding triple_def
proof (intro allI impI)
  fix a assume "at_slot i st (ring_shape c) a"
  then have b: "at_slot i st (ring_shape c) (poll env 0 a)"
    by (rule slot_rely.at_poll [OF assms(1) ring_shape_stable])
  then have len: "length (reqBuffer (slots (poll env 0 a) ! i)) = 256 + unat c"
    by (simp add: at_slot_def ring_shape_def)
  obtain m' where "ring_put c w src (reqBuffer (slots (poll env 0 a) ! i)) = Some m'"
      "length m' = length (reqBuffer (slots (poll env 0 a) ! i))"
    by (rule ring_put_in_bounds [OF len assms(2,3), of w])
  then show "wp (ring_memcpy env i (ring_put c w src)) (\<lambda>x a. x = Ret () \<and> at_slot i st (ring_shape c) a) a"
    using b len by (simp add: wp_def ring_memcpy_def Let_def at_slot_def upd_slot_def ring_shape_def)
qed

lemma t_write_loop:
  assumes env: "slot_rely env i ring_rely" and s: "rs_slotIdx s = int i" and c: "0 < rs_capacity s"
  shows "triple (at_slot i st (ring_shape (rs_capacity s))) (write_loop fuel env s src) (\<lambda>x _. x \<noteq> Trap)"
proof (induction fuel arbitrary: src)
  case 0
  show ?case by (simp add: triple_ret)
next
  case (Suc fuel)
  let ?\<phi> = "ring_shape (rs_capacity s)"
  note stable = ring_shape_stable [of "rs_capacity s"]
  have store: "triple (at_slot i st ?\<phi>) (store env i (reqBuffer_update (set_writeOffset v))) (\<lambda>_. at_slot i st ?\<phi>)" for v
    by (rule slot_rely.t_store [OF env stable]) (simp add: ring_shape_def)
  have sig: "triple (at_slot i st ?\<phi>) (SignalSlot env (rs_slotIdx s)) (\<lambda>_. at_slot i st ?\<phi>)"
    unfolding SignalSlot_def
    by (intro triple_bind [where m = "gets _" and Q = "\<lambda>_. at_slot i st ?\<phi>"] triple_gets triple_if triple_ret
        slot_rely.t_signal [OF env stable])
  have load: "triple (at_slot i st ?\<phi>) (load env i f) (\<lambda>_. at_slot i st ?\<phi>)" for f :: "slot \<Rightarrow> u64"
    by (rule slot_rely.t_load [OF env stable])
  have put: "triple (at_slot i st ?\<phi>) (ring_memcpy env i (ring_put (rs_capacity s) w (take (unat n) src)))
      (case_outcome (\<lambda>_. at_slot i st ?\<phi>) (\<lambda>_. Trap \<noteq> Trap) (\<lambda>_. NoFuel \<noteq> Trap))"
    if "write_len (rs_capacity s) w r k = Some n" for w r k n
    by (rule triple_weaken [OF t_ring_memcpy [OF env c]])
      (use write_len_le [OF that] in \<open>auto simp: word_le_nat_alt\<close>)
  show ?case
  proof (cases "src = []")
    case False
    then show ?thesis
      unfolding write_loop.simps Let_def s nat_int
      by (auto intro!: triple_bind [OF load] triple_obind [OF put] triple_bind [OF store]
          triple_bind [OF sig [unfolded s]] Suc.IH split: option.splits)
  qed (simp add: triple_ret)
qed

text \<open>
  C30. A peer that writes arbitrary bytes into the ring at any moment, both offsets
  included, cannot make \<open>Write\<close> leave the buffer: whatever it reads, every \<open>memcpy\<close> stays
  inside the data area behind the header.
\<close>

theorem ring_write_safe:
  assumes "slot_rely env i ring_rely" and "rs_slotIdx s = int i" and "0 < rs_capacity s"
    and "i < length (slots a)" and "length (reqBuffer (slots a ! i)) = 256 + unat (rs_capacity s)"
  shows "fst (run_state (ring_Write fuel env s data) a) \<noteq> Trap"
proof -
  have "at_slot i (config a) (ring_shape (rs_capacity s)) a"
    using assms(4,5) by (simp add: at_slot_def ring_shape_def)
  then have "wp (write_loop fuel env s data) (\<lambda>x _. x \<noteq> Trap) a"
    by (rule triple_wp [OF t_write_loop [OF assms(1-3)]])
  then show ?thesis
    by (auto simp: ring_Write_def wp_def split: prod.splits)
qed

definition ring_hostile_env :: env where
  "ring_hostile_env = quiet_env\<lparr>interference := (\<lambda>k ms. slots_update (map (reqBuffer_update (map (\<lambda>b. b + 93)))))\<rparr>"

interpretation ring_hostile: slot_rely ring_hostile_env i ring_rely for i
  by unfold_locales (simp_all add: ring_hostile_env_def ring_rely_def)

definition ring_alloc :: alloc where
  "ring_alloc = demo_alloc\<lparr>slots := [demo_slot\<lparr>reqBuffer := replicate 1280 0, maxReqSize := 1280\<rparr>]\<rparr>"

definition ring_demo_sender :: ring_sender where
  "ring_demo_sender = \<lparr>rs_slotIdx = 0, rs_capacity = 1024, rs_initialized = True\<rparr>"

theorem ring_write_safe_witness:
  "fst (run_state (ring_Write 3 ring_hostile_env ring_demo_sender [1, 2, 3]) ring_alloc) \<noteq> Trap"
  by (rule ring_write_safe [where i = 0])
    (simp_all add: ring_hostile.slot_rely_axioms ring_demo_sender_def ring_alloc_def)

section \<open>Completion\<close>

text \<open>A consumer that has caught up whenever the producer looks.\<close>

definition prompt_reader :: "slot \<Rightarrow> slot \<Rightarrow> bool" where
  "prompt_reader s s' = (length (reqBuffer s') = length (reqBuffer s) \<and>
     (256 \<le> length (reqBuffer s) \<longrightarrow> writeOffset (reqBuffer s') = writeOffset (reqBuffer s) \<and>
       readOffset (reqBuffer s') = writeOffset (reqBuffer s)))"

definition ring_at :: "u32 \<Rightarrow> u64 \<Rightarrow> slot \<Rightarrow> bool" where
  "ring_at c v s = (length (reqBuffer s) = 256 + unat c \<and> writeOffset (reqBuffer s) = v)"

lemma ring_at_stable: "stable prompt_reader (ring_at c v)"
  by (simp add: stable_def prompt_reader_def ring_at_def)

lemma t_load_r:
  assumes "slot_rely env i prompt_reader"
  shows "triple (at_slot i st (ring_at c v)) (load env i (readOffset \<circ> reqBuffer))
    (\<lambda>x a. x = v \<and> at_slot i st (ring_at c v) a)"
  unfolding triple_def wp_load
proof (intro allI impI conjI)
  fix a assume a: "at_slot i st (ring_at c v) a"
  then show "(readOffset \<circ> reqBuffer) (slots (poll env 0 a) ! i) = v"
    using slot_rely.within_rely [OF assms, of a "tick a" 0] by (simp add: at_slot_def poll_def prompt_reader_def ring_at_def)
  show "at_slot i st (ring_at c v) (poll env 0 a)"
    by (rule slot_rely.at_poll [OF assms ring_at_stable a])
qed

lemma t_ring_memcpy_at:
  assumes "slot_rely env i prompt_reader" and "0 < c" and "length src \<le> unat c"
  shows "triple (at_slot i st (ring_at c v)) (ring_memcpy env i (ring_put c w src))
    (\<lambda>x a. x = Ret () \<and> at_slot i st (ring_at c v) a)"
  unfolding triple_def
proof (intro allI impI)
  fix a assume "at_slot i st (ring_at c v) a"
  then have b: "at_slot i st (ring_at c v) (poll env 0 a)"
    by (rule slot_rely.at_poll [OF assms(1) ring_at_stable])
  then have len: "length (reqBuffer (slots (poll env 0 a) ! i)) = 256 + unat c"
    by (simp add: at_slot_def ring_at_def)
  obtain m' where "ring_put c w src (reqBuffer (slots (poll env 0 a) ! i)) = Some m'"
      "length m' = length (reqBuffer (slots (poll env 0 a) ! i))"
      "writeOffset m' = writeOffset (reqBuffer (slots (poll env 0 a) ! i))"
    by (rule ring_put_bytes [OF len assms(2,3), of w])
  then show "wp (ring_memcpy env i (ring_put c w src)) (\<lambda>x a. x = Ret () \<and> at_slot i st (ring_at c v) a) a"
    using b len by (simp add: wp_def ring_memcpy_def Let_def at_slot_def upd_slot_def ring_at_def)
qed

lemma write_len_empty:
  "0 < c \<Longrightarrow> write_len c v v k = Some (if k < c then k else c)"
  by (simp add: write_len_def word_le_nat_alt word_gt_0 unat_gt_0)

lemma t_write_loop_completes:
  assumes env: "slot_rely env i prompt_reader" and s: "rs_slotIdx s = int i" and c: "0 < rs_capacity s"
  shows "length src \<le> fuel \<Longrightarrow> length src < 2 ^ 32 \<Longrightarrow>
    triple (at_slot i st (ring_at (rs_capacity s) v)) (write_loop fuel env s src)
      (\<lambda>x a. x = Ret Success \<and> at_slot i st (ring_at (rs_capacity s) (v + word_of_nat (length src))) a)"
proof (induction fuel arbitrary: src v)
  case 0
  then show ?case by (simp add: triple_ret)
next
  case (Suc fuel)
  let ?\<phi> = "ring_at (rs_capacity s)" and ?c = "rs_capacity s"
  show ?case
  proof (cases "src = []")
    case True
    then show ?thesis by (simp add: triple_ret)
  next
    case False
    define n where "n = (if word_of_nat (length src) < ?c then word_of_nat (length src) else ?c)"
    have len: "unat (word_of_nat (length src) :: u32) = length src"
      using Suc.prems(2) by (simp add: unsigned_of_nat take_bit_nat_eq_self)
    have n: "0 < unat n" "unat n \<le> length src" "unat n \<le> unat ?c"
      unfolding n_def using False c len by (auto simp: word_less_nat_alt unat_gt_0 word_gt_0)
    have wl: "write_len ?c v v (word_of_nat (length src)) = Some n"
      using write_len_empty [OF c] by (simp add: n_def)
    have "ucast n + word_of_nat (length src - unat n) = (word_of_nat (unat n + (length src - unat n)) :: u64)"
      unfolding of_nat_add by simp
    then have v: "v + ucast n + word_of_nat (length (drop (unat n) src)) = v + word_of_nat (length src)"
      using n(2) by (simp add: add.assoc)
    have load_w: "triple (at_slot i st (?\<phi> v)) (load env i (writeOffset \<circ> reqBuffer)) (\<lambda>x a. x = v \<and> at_slot i st (?\<phi> v) a)"
      by (rule triple_weaken [OF slot_rely.t_load [OF env ring_at_stable, where \<psi> = "\<lambda>x s. x = v \<and> ?\<phi> v s"]])
        (auto simp: ring_at_def at_slot_def)
    have put: "triple (at_slot i st (?\<phi> v)) (ring_memcpy env i (ring_put ?c v (take (unat n) src)))
        (case_outcome (\<lambda>_. at_slot i st (?\<phi> v)) (\<lambda>_. False) (\<lambda>_. False))"
      by (rule triple_weaken [OF t_ring_memcpy_at [OF env c]]) (use n in auto)
    have store: "triple (at_slot i st (?\<phi> v)) (store env i (reqBuffer_update (set_writeOffset (v + ucast n))))
        (\<lambda>_. at_slot i st (?\<phi> (v + ucast n)))"
      by (rule slot_rely.t_store [OF env ring_at_stable]) (simp add: ring_at_def)
    have sig: "triple (at_slot i st (?\<phi> u)) (SignalSlot env (int i)) (\<lambda>_. at_slot i st (?\<phi> u))" for u
      unfolding SignalSlot_def
      by (intro triple_bind [where m = "gets _" and Q = "\<lambda>_. at_slot i st (?\<phi> u)"] triple_gets triple_if triple_ret
          slot_rely.t_signal [OF env ring_at_stable])
    have IH: "triple (at_slot i st (?\<phi> (v + ucast n))) (write_loop fuel env s (drop (unat n) src))
        (\<lambda>x a. x = Ret Success \<and> at_slot i st (?\<phi> (v + word_of_nat (length src))) a)"
      using Suc.IH [of "drop (unat n) src" "v + ucast n"] Suc.prems n unfolding v by simp
    have body: "triple (at_slot i st (?\<phi> v)) (obind (ring_memcpy env i (ring_put ?c v (take (unat n) src)))
        (\<lambda>_. store env i (reqBuffer_update (set_writeOffset (v + ucast n))) \<bind>
          (\<lambda>_. SignalSlot env (int i) \<bind> (\<lambda>_. write_loop fuel env s (drop (unat n) src)))))
        (\<lambda>x a. x = Ret Success \<and> at_slot i st (?\<phi> (v + word_of_nat (length src))) a)"
    proof (rule triple_obind [where Q = "\<lambda>_. at_slot i st (?\<phi> v)"])
      show "triple (at_slot i st (?\<phi> v)) (ring_memcpy env i (ring_put ?c v (take (unat n) src)))
          (case_outcome (\<lambda>_. at_slot i st (?\<phi> v))
            (\<lambda>a. Trap = Ret Success \<and> at_slot i st (?\<phi> (v + word_of_nat (length src))) a)
            (\<lambda>a. NoFuel = Ret Success \<and> at_slot i st (?\<phi> (v + word_of_nat (length src))) a))"
        by (rule triple_weaken [OF put]) (auto split: outcome.splits)
    qed (intro triple_bind [OF store] triple_bind [OF sig] IH)
    show ?thesis
      unfolding write_loop.simps Let_def s nat_int if_not_P [OF False]
      by (rule triple_bind_value [OF load_w], rule triple_bind_value [OF t_load_r [OF env]], unfold wl option.case) (rule body)
  qed
qed

text \<open>
  C31. \<open>Write\<close> terminates when the consumer keeps up: if the ring is empty whenever the
  producer reads \<open>readOffset\<close>, then \<open>Write\<close> returns \<open>Success\<close> within one iteration per byte at
  most, for data of any size, larger than the ring included, and the write offset has
  advanced by exactly the number of bytes.
\<close>

theorem ring_write_completes:
  assumes "slot_rely env i prompt_reader" and "rs_slotIdx s = int i" and "0 < rs_capacity s" and "rs_initialized s"
    and "i < length (slots a)" and "length (reqBuffer (slots a ! i)) = 256 + unat (rs_capacity s)"
    and "length data \<le> fuel" and "length data < 2 ^ 32"
  shows "case run_state (ring_Write fuel env s data) a of (x, b) \<Rightarrow> x = Ret Success \<and>
    writeOffset (reqBuffer (slots b ! i)) = writeOffset (reqBuffer (slots a ! i)) + word_of_nat (length data)"
proof -
  have "at_slot i (config a) (ring_at (rs_capacity s) (writeOffset (reqBuffer (slots a ! i)))) a"
    using assms(5,6) by (simp add: at_slot_def ring_at_def)
  from triple_wp [OF t_write_loop_completes [OF assms(1-3,7,8)] this] show ?thesis
    using assms(4) by (auto simp: ring_Write_def wp_def at_slot_def ring_at_def split: prod.splits)
qed

definition catch_up :: "byte list \<Rightarrow> byte list" where
  "catch_up m = (if 256 \<le> length m then set_readOffset (writeOffset m) m else m)"

definition prompt_reader_env :: env where
  "prompt_reader_env = quiet_env\<lparr>interference := (\<lambda>k ms. slots_update (map (reqBuffer_update catch_up)))\<rparr>"

interpretation prompt_reader: slot_rely prompt_reader_env i prompt_reader for i
  by unfold_locales (simp_all add: prompt_reader_env_def prompt_reader_def catch_up_def)

theorem ring_write_completes_witness:
  "case run_state (ring_Write 2000 prompt_reader_env ring_demo_sender (replicate 2000 5)) ring_alloc of (x, b) \<Rightarrow>
    x = Ret Success \<and> writeOffset (reqBuffer (slots b ! 0)) =
      writeOffset (reqBuffer (slots ring_alloc ! 0)) + word_of_nat (length (replicate 2000 (5 :: byte)))"
  by (rule ring_write_completes)
    (simp_all add: prompt_reader.slot_rely_axioms ring_demo_sender_def ring_alloc_def)

text \<open>
  \<open>Init\<close> accepts exactly the slots with room for the header and a kilobyte of data, and
  rejects the others without touching them. On an accepted slot that no one else uses yet
  it leaves an empty ring over the rest of the request buffer, the initial state of the
  queue above. Without a host it reports invalid arguments.
\<close>

lemma ring_init_ready:
  assumes "slot_rely env i (=)" and "host_slot a (int i)" and "i < length (slots a)" and "slot_ok (slots a ! i)"
  shows "case run_state (ring_Init host env (RingBufferSender (int i))) a of ((r, s), b) \<Rightarrow>
    if \<not> host then r = Failure InvalidArgs \<and> b = a
    else if unat (maxReqSize (slots a ! i)) < 1280 then r = Failure BufferTooSmall \<and> b = a
    else r = Success \<and> rs_initialized s \<and> ring_init (rs_capacity s) \<lparr>mem = reqBuffer (slots b ! i), todo = [],
      producer = P_idle, consumer = C_idle, accepted = [], got = []\<rparr>"
proof -
  let ?s = "slots a ! i" and ?n = "unat (maxReqSize (slots a ! i))"
  have ok: "length (reqBuffer ?s) = ?n" "?n < 2 ^ 31" "sint (maxReqSize ?s) = int ?n"
    using assms(4) by (auto simp: slot_ok_def word_less_nat_alt sint_small)
  have n: "unat (word_of_int (int ?n) :: u64) = ?n"
    using ok(2) by (simp add: unsigned_of_nat take_bit_nat_eq_self)
  have small: "((word_of_int (int ?n) :: u64) < word_of_nat sizeof_RingBufferHeader + 1024) = (?n < 1280)"
    by (simp add: word_less_nat_alt n del: of_int_of_nat_eq)
  define b1 where "b1 = upd_slot i (reqBuffer_update (set_writeOffset 0)) (poll env 0 a)"
  define b2 where "b2 = upd_slot i (reqBuffer_update (set_readOffset 0)) (poll env 0 b1)"
  have p: "slots (poll env 0 x) ! i = slots x ! i" "length (slots (poll env 0 x)) = length (slots x)"
    if "i < length (slots x)" for x
    using slot_rely.within_rely [OF assms(1) that, of "tick x" 0] slot_rely.keeps_slots [OF assms(1)]
    by (simp_all add: poll_def)
  have b1: "slots b1 ! i = reqBuffer_update (set_writeOffset 0) ?s" "i < length (slots b1)"
    using assms(3) p [OF assms(3)] by (simp_all add: b1_def upd_slot_def)
  have b2: "slots b2 ! i = reqBuffer_update (set_readOffset 0) (reqBuffer_update (set_writeOffset 0) ?s)"
    using b1 p [OF b1(2)] by (simp add: b2_def upd_slot_def)
  have cap: "unat (ucast (word_of_int (int ?n) - word_of_nat sizeof_RingBufferHeader :: u64) :: u32) = ?n - 256"
    if "1280 \<le> ?n"
    using that ok(2) n by (simp add: unsigned_ucast_eq unat_sub word_le_nat_alt take_bit_nat_eq_self del: of_int_of_nat_eq)
  show ?thesis
  proof (cases "host \<and> 1280 \<le> ?n")
    case False
    then show ?thesis
      using small ok(3) assms(2)
      by (auto simp: ring_Init_def RingBufferSender_def GetReqBuffer_def GetMaxReqSize_def not_le)
  next
    case True
    have "run_state (ring_Init host env (RingBufferSender (int i))) a =
        ((Success, \<lparr>rs_slotIdx = int i, rs_capacity = ucast (word_of_int (int ?n) - word_of_nat sizeof_RingBufferHeader :: u64),
          rs_initialized = True\<rparr>), b2)"
      using True small ok(3) assms(2)
      by (simp add: ring_Init_def RingBufferSender_def GetReqBuffer_def GetMaxReqSize_def store_def
          b1_def [symmetric] b2_def [symmetric] del: of_int_of_nat_eq)
    moreover have "0 < (ucast (word_of_int (int ?n) - word_of_nat sizeof_RingBufferHeader :: u64) :: u32)"
      using cap True by (simp add: word_less_nat_alt)
    ultimately show ?thesis
      using True cap ok(1) by (simp add: ring_init_def b2)
  qed
qed

lemma ring_init_ready_witness:
  "case run_state (ring_Init True quiet_env (RingBufferSender (int 0))) ring_alloc of ((r, s), b) \<Rightarrow>
    r = Success \<and> rs_initialized s \<and> ring_init (rs_capacity s) \<lparr>mem = reqBuffer (slots b ! 0), todo = [],
      producer = P_idle, consumer = C_idle, accepted = [], got = []\<rparr>"
  using ring_init_ready [OF quiet.slot_rely_axioms, of ring_alloc 0 True]
  by (simp add: ring_alloc_def demo_alloc_def demo_slot_def host_slot_def slot_ok_def split: prod.splits)

end
