(* ===== verification/Shm_Guest_Safe.thy ===== *)
theory Shm_Guest_Safe
  imports Shm_Guest_Calls
begin

text \<open>
  The guest-call processor against a guest that writes anything at any time: every access
  stays inside the buffers of the slots.
\<close>

section \<open>What every interference keeps\<close>

definition sizes :: "slot \<Rightarrow> u32 \<times> u32" where
  "sizes s = (maxReqSize s, maxRespSize s)"

definition shapes :: "(u32 \<times> u32) list \<Rightarrow> alloc \<Rightarrow> bool" where
  "shapes szs a = (map sizes (slots a) = szs \<and> list_all slot_ok (slots a))"

definition keeps_shapes :: "env \<Rightarrow> bool" where
  "keeps_shapes env = (\<forall>k ms a szs. shapes szs a \<longrightarrow> shapes szs (interference env k ms a))"

text \<open>A handler that stays inside the response buffer it is given.\<close>

definition handler_ok :: "call_handler \<Rightarrow> bool" where
  "handler_ok handler = (\<forall>req resp cap mt. length (snd (handler req resp cap mt)) = length resp)"

lemma shapes_length: "shapes szs a \<Longrightarrow> length (slots a) = length szs"
  by (auto simp: shapes_def)

lemma shapes_slot:
  "shapes szs a \<Longrightarrow> i < length szs \<Longrightarrow> slot_ok (slots a ! i) \<and> maxReqSize (slots a ! i) = fst (szs ! i) \<and>
    maxRespSize (slots a ! i) = snd (szs ! i)"
  by (auto simp: shapes_def list_all_length sizes_def)

lemma shapes_poll: "keeps_shapes env \<Longrightarrow> shapes szs a \<Longrightarrow> shapes szs (poll env ms a)"
  by (auto simp: keeps_shapes_def poll_def shapes_def)

lemma shapes_upd:
  assumes "shapes szs a" and "\<And>s. slot_ok s \<Longrightarrow> sizes s = szs ! i \<Longrightarrow> slot_ok (f s) \<and> sizes (f s) = sizes s"
  shows "shapes szs (upd_slot i f a)"
proof (cases "i < length (slots a)")
  case True
  then have "slot_ok (slots a ! i)" "sizes (slots a ! i) = szs ! i"
    using assms(1) by (auto simp: shapes_def list_all_length)
  then have "slot_ok (f (slots a ! i))" "sizes (f (slots a ! i)) = sizes (slots a ! i)"
    using assms(2) by auto
  then show ?thesis
    using assms(1) True
    by (auto simp: shapes_def upd_slot_def list_all_length nth_list_update map_update list_update_same_conv)
next
  case False
  then show ?thesis
    using assms(1) by (simp add: upd_slot_def shapes_def list_update_beyond)
qed

named_theorems shape_rules \<open>every access keeps the shapes\<close>

lemma shape_load [shape_rules]:
  "keeps_shapes env \<Longrightarrow> triple (shapes szs) (load env i f) (\<lambda>_. shapes szs)"
  by (simp add: triple_def wp_load shapes_poll)

lemma shape_store:
  "keeps_shapes env \<Longrightarrow> (\<And>s. slot_ok s \<Longrightarrow> sizes s = szs ! i \<Longrightarrow> slot_ok (f s) \<and> sizes (f s) = sizes s) \<Longrightarrow>
    triple (shapes szs) (store env i f) (\<lambda>_. shapes szs)"
  by (simp add: triple_def wp_store shapes_poll shapes_upd)

lemma shape_store_header [shape_rules]:
  "keeps_shapes env \<Longrightarrow> triple (shapes szs) (store env i (upd_header f)) (\<lambda>_. shapes szs)"
  by (rule shape_store) (simp_all add: slot_ok_def sizes_def upd_header_def)

lemma shape_cas_state [shape_rules]:
  "keeps_shapes env \<Longrightarrow> triple (shapes szs) (cas_state env i x y) (\<lambda>_. shapes szs)"
  by (auto simp: triple_def wp_def cas_state_def Let_def shapes_poll slot_ok_def sizes_def upd_header_def
      intro!: shapes_upd)

lemma shape_signal [shape_rules]:
  "keeps_shapes env \<Longrightarrow> triple (shapes szs) (signal env h) (\<lambda>_. shapes szs)"
  using shapes_poll [of env szs] by (auto simp: triple_def wp_def signal_def shapes_def)

lemma shape_gets: "triple (shapes szs) (gets f) (\<lambda>_. shapes szs)"
  by (rule triple_gets)

lemma shape_PublishResponse [shape_rules]:
  "keeps_shapes env \<Longrightarrow> triple (shapes szs) (PublishResponse env i) (\<lambda>_. shapes szs)"
  unfolding PublishResponse_def
  by (intro triple_bind [OF shape_cas_state] triple_bind [OF shape_load] triple_if triple_ret
      triple_bind [where Q = "\<lambda>_. shapes szs" and m = "if _ then _ else _"]
      triple_bind [OF shape_gets] shape_signal)

lemma shape_reject [shape_rules]:
  "keeps_shapes env \<Longrightarrow> triple (shapes szs) (reject_request env i) (\<lambda>_. shapes szs)"
  unfolding reject_request_def LockForPublish_def
  by (intro triple_bind [OF shape_cas_state] triple_bind [OF shape_store_header] triple_if triple_ret
      triple_bind [OF shape_PublishResponse])

lemma shape_publish_answer [shape_rules]:
  "keeps_shapes env \<Longrightarrow> triple (shapes szs) (publish_answer env i rs ov) (\<lambda>_. shapes szs)"
  unfolding publish_answer_def LockForPublish_def
  by (intro triple_bind [OF shape_cas_state] triple_bind [OF shape_store_header] triple_if triple_ret
      triple_bind [OF shape_PublishResponse] triple_bind [where Q = "\<lambda>_. shapes szs" and m = "if _ then _ else _"]
      shape_store_header)

lemma shape_stamp_lease [shape_rules]:
  "keeps_shapes env \<Longrightarrow> triple (shapes szs) (stamp_lease env i) (\<lambda>_. shapes szs)"
  unfolding stamp_lease_def by (intro triple_bind [OF shape_gets] shape_store_header)

section \<open>The request window\<close>

definition req_bytes :: "i32 \<Rightarrow> byte list \<Rightarrow> byte list" where
  "req_bytes reqSize buf =
     (let n = unat (absSize reqSize) in if 0 \<le>s reqSize then take n buf else drop (length buf - n) buf)"

lemma req_data_in_bounds [mem_safe]:
  assumes "length buf = unat mx" and "\<not> mx < absSize sz"
  shows "req_data sz mx buf = Some (req_bytes sz buf)"
proof -
  have le: "unat (absSize sz) \<le> unat mx"
    using assms(2) by (simp add: word_less_nat_alt)
  then have "unat (mx - absSize sz) = unat mx - unat (absSize sz)"
    by (simp add: unat_sub word_le_nat_alt)
  then show ?thesis
    using le assms(1) by (simp add: req_data_def req_bytes_def Let_def mem_safe)
qed

text \<open>Reading a field that no interference changes.\<close>

lemma shape_own:
  assumes "i < length szs"
  shows "triple (shapes szs) (own i maxReqSize) (\<lambda>x a. x = fst (szs ! i) \<and> shapes szs a)"
    "triple (shapes szs) (own i maxRespSize) (\<lambda>x a. x = snd (szs ! i) \<and> shapes szs a)"
  using shapes_slot [OF _ assms] by (auto intro!: triple_gets)

lemma shape_load_buffer:
  assumes "keeps_shapes env" and "i < length szs"
  shows "triple (shapes szs) (load env i reqBuffer) (\<lambda>x a. length x = unat (fst (szs ! i)) \<and> shapes szs a)"
    "triple (shapes szs) (load env i respBuffer) (\<lambda>x a. length x = unat (snd (szs ! i)) \<and> shapes szs a)"
  using shapes_slot [OF shapes_poll [OF assms(1)] assms(2)] shapes_poll [OF assms(1)]
  by (auto simp: triple_def wp_load slot_ok_def)

lemma shape_serve_request:
  assumes env: "keeps_shapes env" and h: "handler_ok handler" and i: "i < length szs"
  shows "triple (shapes szs) (serve_request handler env i) (\<lambda>x a. x = Ret () \<and> shapes szs a)"
proof -
  have put: "triple (shapes szs) (store env i (respBuffer_update (\<lambda>_. resp))) (\<lambda>_. shapes szs)"
    if "length resp = unat (snd (szs ! i))" for resp
    by (rule shape_store [OF env]) (use that in \<open>auto simp: slot_ok_def sizes_def dest: arg_cong [of _ _ snd]\<close>)
  have answer: "triple (shapes szs) (publish_answer env i rs ov \<bind> (\<lambda>_. ret (Ret ())))
      (\<lambda>x a. x = Ret () \<and> shapes szs a)" for rs ov
    by (intro triple_bind [OF shape_publish_answer [OF env]] triple_ret) simp
  have reject: "triple (shapes szs) (reject_request env i \<bind> (\<lambda>_. ret (Ret ())))
      (\<lambda>x a. x = Ret () \<and> shapes szs a)"
    by (intro triple_bind [OF shape_reject [OF env]] triple_ret) simp
  have dispatch: "triple (shapes szs)
      (case handler req rb (snd (szs ! i)) mt of (respSize, resp) \<Rightarrow>
         store env i (respBuffer_update (\<lambda>_. resp)) \<bind>
         (\<lambda>_. publish_answer env i (if snd (szs ! i) < absSize respSize then 0 else respSize)
                (snd (szs ! i) < absSize respSize) \<bind> (\<lambda>_. ret (Ret ()))))
      (\<lambda>x a. x = Ret () \<and> shapes szs a)"
    if "length rb = unat (snd (szs ! i))" for req rb mt
  proof (cases "handler req rb (snd (szs ! i)) mt")
    case (Pair rs resp)
    then have "length resp = unat (snd (szs ! i))"
      using h that unfolding handler_ok_def by (metis snd_conv)
    then show ?thesis
      unfolding Pair prod.case by (rule triple_bind [OF put answer])
  qed
  show ?thesis
    unfolding serve_request_def Let_def
    by (rule triple_bind [OF shape_load [OF env]], rule triple_bind_value [OF shape_own(1) [OF i]],
        rule triple_if, rule reject, rule triple_bind_value [OF shape_own(2) [OF i]],
        rule triple_bind [OF shape_load [OF env]], rule triple_bind [OF shape_load_buffer(1) [OF env i]],
        rule triple_pure, rule triple_bind [OF shape_load_buffer(2) [OF env i]], rule triple_pure)
      (simp add: mem_safe dispatch)
qed

lemma shape_process_slot:
  assumes env: "keeps_shapes env" and h: "handler_ok handler" and i: "i < length szs"
  shows "triple (shapes szs) (process_slot handler env fast i) (\<lambda>x a. (\<exists>b. x = Ret b) \<and> shapes szs a)"
proof -
  have serve: "triple (shapes szs) (obind (serve_request handler env i) (\<lambda>_. ret (Ret True)))
      (\<lambda>x a. (\<exists>b. x = Ret b) \<and> shapes szs a)"
    by (rule triple_obind [where Q = "\<lambda>_. shapes szs", OF triple_weaken [OF shape_serve_request [OF assms]]])
      (auto intro: triple_ret)
  show ?thesis
    unfolding process_slot_def
    by (intro triple_bind [OF shape_load [OF env]] triple_if triple_bind [OF shape_cas_state [OF env]] serve
        triple_bind [where Q = "\<lambda>_. shapes szs" and m = "if _ then _ else _"] shape_store_header [OF env]
        shape_stamp_lease [OF env] triple_ret) auto
qed

lemma shape_process_loop:
  assumes env: "keeps_shapes env" and h: "handler_ok handler"
  shows "i + k \<le> length szs \<Longrightarrow>
    triple (shapes szs) (process_loop k handler env fast limit i p) (\<lambda>x a. (\<exists>n. x = Ret n) \<and> shapes szs a)"
proof (induction k arbitrary: i p)
  case 0
  show ?case by (simp add: triple_ret)
next
  case (Suc k)
  have i: "i < length szs" "Suc i + k \<le> length szs"
    using Suc.prems by simp_all
  have step: "triple (shapes szs) (obind (process_slot handler env fast i) (\<lambda>d.
      process_loop k handler env fast limit (Suc i) (if d then p + 1 else p)))
      (\<lambda>x a. (\<exists>n. x = Ret n) \<and> shapes szs a)"
    by (rule triple_obind [where Q = "\<lambda>_. shapes szs", OF triple_weaken [OF shape_process_slot [OF env h i(1)]]])
      (auto intro: Suc.IH [OF i(2)])
  have len: "triple (shapes szs) (gets (length \<circ> slots)) (\<lambda>x a. x = length szs \<and> shapes szs a)"
    by (rule triple_gets) (simp add: shapes_length)
  show ?case
    unfolding process_loop.simps
    by (intro triple_if triple_ret triple_bind_value [OF len]) (use i step in auto)
qed

text \<open>
  C14. A guest that writes anything into the headers and buffers of the slots at any time
  cannot make the host leave them: with a handler that stays inside the response buffer
  it is given, \<open>ProcessGuestCalls\<close> returns, for every batch limit, the request bytes it
  hands to the handler lie inside the request buffer of the slot, and the slots keep their
  buffers.
\<close>

theorem guest_calls_safe_against_any_guest:
  assumes "keeps_shapes env" and "handler_ok handler" and "list_all slot_ok (slots a)"
    and "unat (numSlots a) + guest_count a \<le> length (slots a)"
  shows "case run_state (ProcessGuestCalls handler env limit) a of (x, b) \<Rightarrow>
    (\<exists>n. x = Ret n) \<and> list_all slot_ok (slots b) \<and> map sizes (slots b) = map sizes (slots a)"
proof -
  have I: "shapes (map sizes (slots a)) a"
    using assms(3) by (simp add: shapes_def)
  have "wp (process_loop (guest_count a) handler env (autoReclaimTimeoutNs a = 0) limit (unat (numSlots a)) 0)
      (\<lambda>x b. (\<exists>n. x = Ret n) \<and> shapes (map sizes (slots a)) b) a"
    by (rule triple_wp [OF shape_process_loop [OF assms(1,2)] I]) (use assms(4) in simp)
  then show ?thesis
    using assms(3) unfolding ProcessGuestCalls_def by (auto simp: wp_def shapes_def split: prod.splits)
qed

text \<open>A handler that echoes the request, and an allocator with one guest slot in use.\<close>

definition echo :: call_handler where
  "echo req resp cap mt = (word_of_nat (length (take (length resp) req)), overwrite 0 (take (length resp) req) resp)"

definition guest_slot :: slot where
  "guest_slot = upd_header (\<lambda>h. h\<lparr>h_state := SLOT_REQ_READY, h_reqSize := 2, h_msgSeq := 41\<rparr>) demo_slot"

definition guest_alloc :: alloc where
  "guest_alloc = demo_alloc\<lparr>numGuestSlots := 1, slots := [demo_slot, guest_slot]\<rparr>"

lemma guest_slot_simps [simp]:
  "slot_ok guest_slot" "state_of guest_slot = SLOT_REQ_READY"
  by (simp_all add: guest_slot_def demo_slot_def slot_ok_def upd_header_def)

lemma echo_ok: "handler_ok echo"
  by (simp add: handler_ok_def echo_def)

lemma hostile_keeps_shapes: "keeps_shapes hostile_env"
  by (auto simp: keeps_shapes_def shapes_def hostile_env_def list_all_iff spoil_def slot_ok_def sizes_def
      upd_header_def)

theorem guest_calls_safe_against_any_guest_witness:
  "case run_state (ProcessGuestCalls echo hostile_env 5) guest_alloc of (x, b) \<Rightarrow>
    (\<exists>n. x = Ret n) \<and> list_all slot_ok (slots b) \<and> map sizes (slots b) = map sizes (slots guest_alloc)"
  by (rule guest_calls_safe_against_any_guest [OF hostile_keeps_shapes echo_ok])
    (simp_all add: guest_alloc_def demo_alloc_def guest_count_def)

end
