(* ===== verification/Shm_Guest_Answer.thy ===== *)
theory Shm_Guest_Answer
  imports Shm_Guest_Safe
begin

text \<open>
  What the guest-call processor does to the slots: each claimed request is answered by the
  handler, in the order of the slots, up to the batch limit.
\<close>

section \<open>The answer to a request\<close>

definition call_answer :: "call_handler \<Rightarrow> slot \<Rightarrow> slot" where
  "call_answer handler s =
     (if absSize (h_reqSize (header s)) > maxReqSize s
      then upd_header (\<lambda>h. h\<lparr>h_state := SLOT_RESP_READY, h_respSize := 0, h_msgType := SYSTEM_ERROR\<rparr>) s
      else case handler (req_bytes (h_reqSize (header s)) (reqBuffer s)) (respBuffer s) (maxRespSize s)
                  (h_msgType (header s)) of (respSize, resp) \<Rightarrow>
        if absSize respSize > maxRespSize s
        then upd_header (\<lambda>h. h\<lparr>h_state := SLOT_RESP_READY, h_respSize := 0, h_msgType := SYSTEM_ERROR\<rparr>)
          (s\<lparr>respBuffer := resp\<rparr>)
        else upd_header (\<lambda>h. h\<lparr>h_state := SLOT_RESP_READY, h_respSize := respSize\<rparr>) (s\<lparr>respBuffer := resp\<rparr>))"

text \<open>A batch over consecutive slots: how many were answered, and the slots afterwards.\<close>

fun answer_batch :: "call_handler \<Rightarrow> int \<Rightarrow> int \<Rightarrow> slot list \<Rightarrow> int \<times> slot list" where
  "answer_batch handler limit processed [] = (processed, [])"
| "answer_batch handler limit processed (s # ss) =
     (if limit > 0 \<and> processed \<ge> limit then (processed, s # ss)
      else if state_of s = SLOT_REQ_READY
      then apsnd (\<lambda>ss'. call_answer handler s # ss') (answer_batch handler limit (processed + 1) ss)
      else apsnd (\<lambda>ss'. s # ss') (answer_batch handler limit processed ss))"

section \<open>Following the slots\<close>

text \<open>The slots up to the parts that may change at any time.\<close>

definition cores :: "slot list \<Rightarrow> alloc \<Rightarrow> bool" where
  "cores cs a = (map core (slots a) = map core cs)"

definition keeps_cores :: "env \<Rightarrow> bool" where
  "keeps_cores env = (\<forall>k ms a. map core (slots (interference env k ms a)) = map core (slots a))"

lemma cores_poll: "keeps_cores env \<Longrightarrow> cores cs a \<Longrightarrow> cores cs (poll env ms a)"
  by (simp add: cores_def keeps_cores_def poll_def)

lemma cores_length: "cores cs a \<Longrightarrow> length (slots a) = length cs"
  unfolding cores_def by (metis length_map)

lemma cores_nth: "cores cs a \<Longrightarrow> i < length cs \<Longrightarrow> core (slots a ! i) = core (cs ! i)"
  unfolding cores_def by (metis length_map nth_map)

lemma cores_upd:
  assumes "cores cs a" and "\<And>s. core s = core (cs ! i) \<Longrightarrow> core (f s) = core c"
  shows "cores (cs[i := c]) (upd_slot i f a)"
proof (cases "i < length cs")
  case True
  then show ?thesis
    using assms cores_nth [OF assms(1) True] cores_length [OF assms(1)]
    unfolding cores_def upd_slot_def by (simp add: map_update)
next
  case False
  then show ?thesis
    using assms(1) cores_length [OF assms(1)] by (simp add: cores_def upd_slot_def list_update_beyond)
qed

abbreviation slot_is :: "slot list \<Rightarrow> nat \<Rightarrow> slot \<Rightarrow> alloc \<Rightarrow> bool" where
  "slot_is cs i c \<equiv> cores (cs[i := c])"

abbreviation with_state :: "u32 \<Rightarrow> slot \<Rightarrow> slot" where
  "with_state v s \<equiv> upd_header (h_state_update (\<lambda>_. v)) s"

lemma core_load:
  assumes "keeps_cores env" and "i < length cs" and "\<And>s. f (core s) = f s"
  shows "triple (slot_is cs i c) (load env i f) (\<lambda>x a. x = f c \<and> slot_is cs i c a)"
proof -
  have "f (slots a ! i) = f c" if "slot_is cs i c a" for a
    using cores_nth [OF that, of i] assms(2,3) by (metis length_list_update nth_list_update_eq)
  then show ?thesis
    using cores_poll [OF assms(1)] by (simp add: triple_def wp_load)
qed

lemma core_store:
  assumes "keeps_cores env" and "i < length cs" and "\<And>s. core s = core c \<Longrightarrow> core (f s) = core c'"
  shows "triple (slot_is cs i c) (store env i f) (\<lambda>_. slot_is cs i c')"
  unfolding triple_def wp_store
proof (intro allI impI)
  fix a assume "slot_is cs i c a"
  from cores_upd [OF cores_poll [OF assms(1) this], of i f c'] show "slot_is cs i c' (upd_slot i f (poll env 0 a))"
    using assms(2,3) by simp
qed

lemma core_cas:
  assumes "keeps_cores env" and "i < length cs" and "state_of c = x"
  shows "triple (slot_is cs i c) (cas_state env i x y) (\<lambda>r a. r = True \<and> slot_is cs i (with_state y c) a)"
  unfolding triple_def
proof (intro allI impI)
  fix a assume "slot_is cs i c a"
  then have p: "slot_is cs i c (poll env 0 a)"
    by (rule cores_poll [OF assms(1)])
  then have "core (slots (poll env 0 a) ! i) = core c"
    using cores_nth [OF p, of i] assms(2) by simp
  then have "state_of (slots (poll env 0 a) ! i) = x"
    using assms(3) by (metis core_fields(1))
  moreover have "slot_is cs i (with_state y c) (upd_slot i (with_state y) (poll env 0 a))"
    using cores_upd [OF p, of i "with_state y" "with_state y c"] assms(2) by (simp add: core_commutes)
  ultimately show "wp (cas_state env i x y) (\<lambda>r a. r = True \<and> slot_is cs i (with_state y c) a) a"
    by (simp add: wp_def cas_state_def Let_def)
qed

lemma core_signal:
  "keeps_cores env \<Longrightarrow> triple (cores cs) (signal env h) (\<lambda>_. cores cs)"
  using cores_poll [of env cs] by (auto simp: triple_def wp_def signal_def cores_def)

lemma core_own:
  assumes "i < length cs" and "\<And>s. f (core s) = f s"
  shows "triple (slot_is cs i c) (own i f) (\<lambda>x a. x = f c \<and> slot_is cs i c a)"
proof (rule triple_gets)
  fix a assume "slot_is cs i c a"
  then show "f (slots a ! i) = f c \<and> slot_is cs i c a"
    using cores_nth [of "cs[i := c]" a i] assms by (metis length_list_update nth_list_update_eq)
qed

section \<open>Publishing\<close>

lemma core_commutes2:
  "core (upd_header (h_respSize_update f) s) = upd_header (h_respSize_update f) (core s)"
  "core (upd_header (h_gen_update g) s) = core s"
  "core (respBuffer_update k s) = respBuffer_update k (core s)"
  by (simp_all add: core_def upd_header_def)

lemma core_PublishResponse:
  assumes env: "keeps_cores env" and i: "i < length cs" and c: "state_of c = SLOT_DONE"
  shows "triple (slot_is cs i c) (PublishResponse env i) (\<lambda>r a. r = True \<and> slot_is cs i (with_state SLOT_RESP_READY c) a)"
proof -
  let ?d = "with_state SLOT_RESP_READY c"
  have load: "triple (slot_is cs i ?d) (load env i f) (\<lambda>_. slot_is cs i ?d)" for f :: "slot \<Rightarrow> u32"
    using cores_poll [OF env] by (simp add: triple_def wp_load)
  show ?thesis
    unfolding PublishResponse_def
    by (rule triple_bind_value [OF core_cas [OF env i c]])
      (auto intro!: triple_bind [OF load] triple_bind [where Q = "\<lambda>_. slot_is cs i ?d" and m = "if _ then _ else _"]
        triple_if triple_ret triple_bind [where Q = "\<lambda>_. slot_is cs i ?d" and m = "gets _"] triple_gets core_signal [OF env])
qed

lemma core_reject:
  assumes env: "keeps_cores env" and i: "i < length cs" and c: "state_of c = SLOT_BUSY"
  shows "triple (slot_is cs i c) (reject_request env i) (\<lambda>_. slot_is cs i
    (upd_header (\<lambda>h. h\<lparr>h_state := SLOT_RESP_READY, h_respSize := 0, h_msgType := SYSTEM_ERROR\<rparr>) c))"
proof -
  let ?c1 = "with_state SLOT_DONE c"
  let ?c2 = "upd_header (h_respSize_update (\<lambda>_. 0)) ?c1"
  let ?c3 = "upd_header (h_msgType_update (\<lambda>_. SYSTEM_ERROR)) ?c2"
  have 2: "triple (slot_is cs i ?c1) (store env i (upd_header (h_respSize_update (\<lambda>_. 0)))) (\<lambda>_. slot_is cs i ?c2)"
    by (rule core_store [OF env i]) (simp add: core_commutes2)
  have 3: "triple (slot_is cs i ?c2) (store env i (upd_header (h_msgType_update (\<lambda>_. SYSTEM_ERROR)))) (\<lambda>_. slot_is cs i ?c3)"
    by (rule core_store [OF env i]) (simp add: core_commutes)
  have 4: "triple (slot_is cs i ?c3) (PublishResponse env i) (\<lambda>r a. r = True \<and> slot_is cs i (with_state SLOT_RESP_READY ?c3) a)"
    by (rule core_PublishResponse [OF env i]) (simp add: upd_header_def)
  have eq: "with_state SLOT_RESP_READY ?c3 =
      upd_header (\<lambda>h. h\<lparr>h_state := SLOT_RESP_READY, h_respSize := 0, h_msgType := SYSTEM_ERROR\<rparr>) c"
    by (simp add: upd_header_def)
  show ?thesis
    unfolding reject_request_def LockForPublish_def
    by (rule triple_bind_value [OF core_cas [OF env i c]])
      (auto intro!: triple_bind [OF 2] triple_bind [OF 3] triple_bind_value [OF 4 [unfolded eq]] triple_ret)
qed

lemma core_publish_answer:
  assumes env: "keeps_cores env" and i: "i < length cs" and c: "state_of c = SLOT_BUSY"
  shows "triple (slot_is cs i c) (publish_answer env i rs ov) (\<lambda>_. slot_is cs i
    (if ov then upd_header (\<lambda>h. h\<lparr>h_state := SLOT_RESP_READY, h_respSize := rs, h_msgType := SYSTEM_ERROR\<rparr>) c
     else upd_header (\<lambda>h. h\<lparr>h_state := SLOT_RESP_READY, h_respSize := rs\<rparr>) c))"
proof -
  let ?c1 = "with_state SLOT_DONE c"
  let ?c2 = "if ov then upd_header (h_msgType_update (\<lambda>_. SYSTEM_ERROR)) ?c1 else ?c1"
  let ?c3 = "upd_header (h_respSize_update (\<lambda>_. rs)) ?c2"
  have 2: "triple (slot_is cs i ?c1) (if ov then store env i (upd_header (h_msgType_update (\<lambda>_. SYSTEM_ERROR))) else ret ())
      (\<lambda>_. slot_is cs i ?c2)"
    by (cases ov) (auto intro!: core_store [OF env i] triple_ret simp: core_commutes)
  have 3: "triple (slot_is cs i ?c2) (store env i (upd_header (h_respSize_update (\<lambda>_. rs)))) (\<lambda>_. slot_is cs i ?c3)"
    by (rule core_store [OF env i]) (simp add: core_commutes2)
  have 4: "triple (slot_is cs i ?c3) (PublishResponse env i) (\<lambda>r a. r = True \<and> slot_is cs i (with_state SLOT_RESP_READY ?c3) a)"
    by (rule core_PublishResponse [OF env i]) (simp add: upd_header_def)
  have eq: "with_state SLOT_RESP_READY ?c3 =
      (if ov then upd_header (\<lambda>h. h\<lparr>h_state := SLOT_RESP_READY, h_respSize := rs, h_msgType := SYSTEM_ERROR\<rparr>) c
     else upd_header (\<lambda>h. h\<lparr>h_state := SLOT_RESP_READY, h_respSize := rs\<rparr>) c)"
    by (simp add: upd_header_def)
  show ?thesis
    unfolding publish_answer_def LockForPublish_def
    by (rule triple_bind_value [OF core_cas [OF env i c]], simp only: if_True,
        rule triple_bind [OF 2], rule triple_bind [OF 3], rule triple_bind_value [OF 4 [unfolded eq]])
      (rule triple_ret)
qed

section \<open>One request and the batch\<close>

lemma call_answer_core:
  "core (call_answer handler (core s)) = core (call_answer handler s)"
  "call_answer handler (with_state v s) = call_answer handler s"
  by (simp_all add: call_answer_def core_def upd_header_def split: prod.splits)

lemma core_serve_request:
  assumes env: "keeps_cores env" and i: "i < length cs" and c: "state_of c = SLOT_BUSY" and ok: "slot_ok c"
  shows "triple (slot_is cs i c) (serve_request handler env i) (\<lambda>x a. x = Ret () \<and> slot_is cs i (call_answer handler c) a)"
proof -
  have reject: "triple (slot_is cs i c) (reject_request env i \<bind> (\<lambda>_. ret (Ret ())))
      (\<lambda>x a. x = Ret () \<and> slot_is cs i (call_answer handler c) a)"
    if "maxReqSize c < absSize (h_reqSize (header c))"
    by (rule triple_bind [OF core_reject [OF env i c]], rule triple_ret) (use that in \<open>simp add: call_answer_def\<close>)
  have dispatch: "triple (slot_is cs i c)
      (case handler (req_bytes (h_reqSize (header c)) (reqBuffer c)) (respBuffer c) (maxRespSize c) (h_msgType (header c)) of
        (respSize, resp) \<Rightarrow>
         store env i (respBuffer_update (\<lambda>_. resp)) \<bind>
         (\<lambda>_. publish_answer env i (if maxRespSize c < absSize respSize then 0 else respSize)
                (maxRespSize c < absSize respSize) \<bind> (\<lambda>_. ret (Ret ()))))
      (\<lambda>x a. x = Ret () \<and> slot_is cs i (call_answer handler c) a)"
    if "\<not> maxReqSize c < absSize (h_reqSize (header c))"
  proof (cases "handler (req_bytes (h_reqSize (header c)) (reqBuffer c)) (respBuffer c) (maxRespSize c) (h_msgType (header c))")
    case (Pair rs resp)
    have put: "triple (slot_is cs i c) (store env i (respBuffer_update (\<lambda>_. resp))) (\<lambda>_. slot_is cs i (c\<lparr>respBuffer := resp\<rparr>))"
      by (rule core_store [OF env i]) (simp add: core_commutes2)
    show ?thesis
      unfolding Pair prod.case
      by (rule triple_bind [OF put], rule triple_bind [OF core_publish_answer [OF env i]], simp add: c, rule triple_ret)
        (use that in \<open>simp add: call_answer_def Pair split: if_splits\<close>)
  qed
  have win: "req_data (h_reqSize (header c)) (maxReqSize c) (reqBuffer c) = Some (req_bytes (h_reqSize (header c)) (reqBuffer c))"
    if "\<not> maxReqSize c < absSize (h_reqSize (header c))"
    using that ok by (intro req_data_in_bounds) (auto simp: slot_ok_def)
  show ?thesis
    unfolding serve_request_def Let_def
    by (rule triple_bind_value [OF core_load [OF env i]], simp, rule triple_bind_value [OF core_own [OF i]], simp,
        rule triple_if, erule reject, rule triple_bind_value [OF core_own [OF i]], simp,
        rule triple_bind_value [OF core_load [OF env i]], simp, rule triple_bind_value [OF core_load [OF env i]], simp,
        rule triple_bind_value [OF core_load [OF env i]], simp)
      (simp add: win dispatch)
qed

lemma core_process_slot:
  assumes env: "keeps_cores env" and i: "i < length cs" and ok: "slot_ok (cs ! i)"
  shows "triple (cores cs) (process_slot handler env fast i) (\<lambda>x a.
    if state_of (cs ! i) = SLOT_REQ_READY then x = Ret True \<and> slot_is cs i (call_answer handler (cs ! i)) a
    else x = Ret False \<and> cores cs a)"
proof -
  let ?c = "cs ! i" and ?b = "with_state SLOT_BUSY (cs ! i)"
  have load: "triple (cores cs) (load env i state_of) (\<lambda>x a. x = state_of ?c \<and> cores cs a)"
    using core_load [OF env i, of state_of ?c] by simp
  have gen: "triple (cores cs) (if \<not> fast then store env i (upd_header (h_gen_update (\<lambda>g. g + 1))) else ret ()) (\<lambda>_. cores cs)"
    using core_store [OF env i, of ?c "upd_header (h_gen_update (\<lambda>g. g + 1))" ?c]
    by (auto intro: triple_ret simp: core_commutes2)
  have lease: "triple (slot_is cs i ?b) (if \<not> fast then stamp_lease env i else ret ()) (\<lambda>_. slot_is cs i ?b)"
    unfolding stamp_lease_def
    by (auto intro!: triple_ret triple_bind [where Q = "\<lambda>_. slot_is cs i ?b" and m = "gets _"] triple_gets core_store [OF env i])
  have b: "state_of ?b = SLOT_BUSY" "slot_ok ?b" "call_answer handler ?b = call_answer handler ?c"
    using ok by (simp_all add: call_answer_core(2)) (simp_all add: slot_ok_def upd_header_def)
  have serve: "triple (slot_is cs i ?b) (obind (serve_request handler env i) (\<lambda>_. ret (Ret True)))
      (\<lambda>x a. x = Ret True \<and> slot_is cs i (call_answer handler ?c) a)"
    by (rule triple_obind [where Q = "\<lambda>_. slot_is cs i (call_answer handler ?c)",
          OF triple_weaken [OF core_serve_request [OF env i b(1,2)]]])
      (auto intro: triple_ret simp: b(3))
  show ?thesis
  proof (cases "state_of ?c = SLOT_REQ_READY")
    case True
    have cas: "triple (cores cs) (cas_state env i SLOT_REQ_READY SLOT_BUSY) (\<lambda>r a. r = True \<and> slot_is cs i ?b a)"
      using core_cas [OF env i True] by simp
    show ?thesis
      unfolding process_slot_def if_P [OF True]
      by (rule triple_bind_value [OF load [unfolded True]], simp only: simp_thms if_False, rule triple_bind [OF gen],
          rule triple_bind_value [OF cas], simp only: simp_thms if_False, rule triple_bind [OF lease], rule serve)
  next
    case False
    then show ?thesis
      unfolding process_slot_def by (intro triple_bind_value [OF load]) (simp add: triple_ret)
  qed
qed

lemma core_process_loop:
  assumes env: "keeps_cores env"
  shows "list_all slot_ok ss \<Longrightarrow>
    triple (cores (pre @ ss @ post)) (process_loop (length ss) handler env fast limit (length pre) p)
      (\<lambda>x a. x = Ret (fst (answer_batch handler limit p ss)) \<and> cores (pre @ snd (answer_batch handler limit p ss) @ post) a)"
proof (induction ss arbitrary: pre p)
  case Nil
  show ?case by (simp add: triple_ret)
next
  case (Cons s ss)
  let ?cs = "pre @ s # ss @ post" and ?i = "length pre"
  have ok: "slot_ok (?cs ! ?i)" "list_all slot_ok ss"
    using Cons.prems by simp_all
  have len: "triple (cores ?cs) (gets (length \<circ> slots)) (\<lambda>x a. x = length ?cs \<and> cores ?cs a)"
    by (rule triple_gets) (use cores_length in force)
  define d where "d = (state_of s = SLOT_REQ_READY)"
  define s' where "s' = (if d then call_answer handler s else s)"
  have slot: "triple (cores ?cs) (process_slot handler env fast ?i) (\<lambda>x a. x = Ret d \<and> cores ((pre @ [s']) @ ss @ post) a)"
    by (rule triple_weaken [OF core_process_slot [OF env _ ok(1)]]) (auto simp: d_def s'_def list_update_append split: if_splits)
  have rest: "triple (cores ((pre @ [s']) @ ss @ post))
      (process_loop (length ss) handler env fast limit (Suc ?i) (if d then p + 1 else p))
      (\<lambda>x a. x = Ret (fst (answer_batch handler limit (if d then p + 1 else p) ss)) \<and>
        cores ((pre @ [s']) @ snd (answer_batch handler limit (if d then p + 1 else p) ss) @ post) a)"
    using Cons.IH [OF ok(2), of "pre @ [s']" "if d then p + 1 else p"] by simp
  show ?case
  proof (cases "limit > 0 \<and> p \<ge> limit")
    case True
    then show ?thesis by (simp add: triple_ret)
  next
    case False
    have "triple (cores ?cs) (obind (process_slot handler env fast ?i) (\<lambda>d.
        process_loop (length ss) handler env fast limit (Suc ?i) (if d then p + 1 else p)))
      (\<lambda>x a. x = Ret (fst (answer_batch handler limit (if d then p + 1 else p) ss)) \<and>
        cores ((pre @ [s']) @ snd (answer_batch handler limit (if d then p + 1 else p) ss) @ post) a)"
    proof (rule triple_obind [where Q = "\<lambda>x a. x = d \<and> cores ((pre @ [s']) @ ss @ post) a", OF triple_weaken [OF slot]])
      fix x
      show "triple (\<lambda>a. x = d \<and> cores ((pre @ [s']) @ ss @ post) a)
          (process_loop (length ss) handler env fast limit (Suc ?i) (if x then p + 1 else p))
          (\<lambda>x a. x = Ret (fst (answer_batch handler limit (if d then p + 1 else p) ss)) \<and>
            cores ((pre @ [s']) @ snd (answer_batch handler limit (if d then p + 1 else p) ss) @ post) a)"
        by (rule triple_pure, hypsubst) (rule rest)
    qed auto
    note step = this
    have in_vec: "\<not> length ?cs \<le> ?i"
      by simp
    show ?thesis
      unfolding length_Cons process_loop.simps if_not_P [OF False] append_Cons
      by (rule triple_bind_value [OF len], unfold if_not_P [OF in_vec], rule triple_weaken [OF step])
        (use False in \<open>auto simp: d_def s'_def split: if_splits\<close>)
  qed
qed

lemma answer_batch_unlimited:
  "limit \<le> 0 \<Longrightarrow> answer_batch handler limit p ss =
    (p + int (length (filter (\<lambda>s. state_of s = SLOT_REQ_READY) ss)),
     map (\<lambda>s. if state_of s = SLOT_REQ_READY then call_answer handler s else s) ss)"
  by (induction ss arbitrary: p) auto

text \<open>
  C13. \<open>ProcessGuestCalls\<close> answers the pending guest calls. Suppose that while it runs the
  others leave the transactions in the slots alone; they may park, wake, stamp leases or
  bump generations. Then every guest slot with a request, in slot order and up to the
  batch limit, carries the answer of the handler to exactly the bytes of its request:
  the response bytes and size, or \<open>SYSTEM_ERROR\<close> when the request or the response size
  exceeds its buffer. The sequence number is that of the request, the state is
  \<open>SLOT_RESP_READY\<close>, and the call returns the number of answers. All other slots keep their
  transactions, and without a limit none is left pending.
\<close>

theorem guest_calls_answered:
  assumes "keeps_cores env" and "running a"
    and "slots a = hosts @ guests @ rest" and "unat (numSlots a) = length hosts" and "guest_count a = length guests"
    and "list_all slot_ok guests"
  shows "(case run_state (ProcessGuestCalls handler env limit) a of (x, b) \<Rightarrow>
      x = Ret (fst (answer_batch handler limit 0 guests)) \<and>
      map core (slots b) = map core (hosts @ snd (answer_batch handler limit 0 guests) @ rest)) \<and>
    (limit \<le> 0 \<longrightarrow> answer_batch handler limit 0 guests =
      (int (length (filter (\<lambda>s. state_of s = SLOT_REQ_READY) guests)),
       map (\<lambda>s. if state_of s = SLOT_REQ_READY then call_answer handler s else s) guests))"
proof
  have "cores (hosts @ guests @ rest) a"
    using assms(3) by (simp add: cores_def)
  from triple_wp [OF core_process_loop [OF assms(1,6)] this]
  show "case run_state (ProcessGuestCalls handler env limit) a of (x, b) \<Rightarrow>
      x = Ret (fst (answer_batch handler limit 0 guests)) \<and>
      map core (slots b) = map core (hosts @ snd (answer_batch handler limit 0 guests) @ rest)"
    using assms(2,4,5) unfolding ProcessGuestCalls_def by (simp add: wp_def cores_def)
qed (simp add: answer_batch_unlimited)

theorem guest_calls_answered_witness:
  "(case run_state (ProcessGuestCalls echo quiet_env 0) guest_alloc of (x, b) \<Rightarrow>
     x = Ret 1 \<and> map core (slots b) = map core [demo_slot, call_answer echo guest_slot]) \<and>
   h_msgSeq (header (call_answer echo guest_slot)) = 41 \<and> respBuffer (call_answer echo guest_slot) = [1, 2, 0, 0]"
proof -
  have "keeps_cores quiet_env"
    by (simp add: keeps_cores_def quiet_env_def)
  from guest_calls_answered [OF this, of guest_alloc "[demo_slot]" "[guest_slot]" "[]" echo 0]
  have "case run_state (ProcessGuestCalls echo quiet_env 0) guest_alloc of (x, b) \<Rightarrow>
      x = Ret 1 \<and> map core (slots b) = map core [demo_slot, call_answer echo guest_slot]"
    by (simp add: guest_alloc_def demo_alloc_def guest_count_def split: prod.splits)
  moreover have "absSize 2 = 2" "(0 :: i32) \<le>s 2"
    by code_simp+
  then have "h_msgSeq (header (call_answer echo guest_slot)) = 41" "respBuffer (call_answer echo guest_slot) = [1, 2, 0, 0]"
    by (simp_all add: call_answer_def guest_slot_def demo_slot_def upd_header_def echo_def req_bytes_def overwrite_def)
  ultimately show ?thesis by blast
qed

section \<open>Late answers\<close>

text \<open>
  A response that comes too late is dropped: if the slot is not at \<open>SLOT_BUSY\<close> when the
  processor takes the publish lock, because the guest gave up and the slot was recycled,
  then neither the answer nor the rejection of a request writes a single header field or
  changes the state; the slots are what the others left.
\<close>

lemma late_answer_dropped:
  assumes "state_of (slots (poll env 0 a) ! i) \<noteq> SLOT_BUSY"
  shows "run_state (publish_answer env i respSize respOverflow) a = ((), poll env 0 a) \<and>
    run_state (reject_request env i) a = ((), poll env 0 a)"
  using assms by (simp add: publish_answer_def reject_request_def LockForPublish_def cas_state_def Let_def)

lemma late_answer_dropped_witness:
  "run_state (publish_answer quiet_env 1 2 False) guest_alloc = ((), poll quiet_env 0 guest_alloc) \<and>
   run_state (reject_request quiet_env 1) guest_alloc = ((), poll quiet_env 0 guest_alloc)"
  by (rule late_answer_dropped) (simp add: poll_def quiet_env_def guest_alloc_def demo_alloc_def)

text \<open>
  The lock compares the state only, and \<open>SLOT_BUSY\<close> does not tell whose claim it is. While
  the handler of one processor runs, the guest may give the slot up, publish a new request
  in it, and a second processor may claim that one.
\<close>

definition recycled_slot :: slot where
  "recycled_slot = upd_header (\<lambda>h. h\<lparr>h_state := SLOT_BUSY, h_reqSize := 3, h_msgSeq := 42\<rparr>)
     (guest_slot\<lparr>reqBuffer := [9, 9, 9, 9]\<rparr>)"

definition recycling_env :: env where
  "recycling_env = quiet_env\<lparr>interference := (\<lambda>k ms a. if k = 5 then a\<lparr>slots := [demo_slot, recycled_slot]\<rparr> else a)\<rparr>"

definition claimed_alloc :: alloc where
  "claimed_alloc = guest_alloc\<lparr>slots := [demo_slot, with_state SLOT_BUSY guest_slot]\<rparr>"

text \<open>
  A processor can publish its answer to an abandoned request under a newer
  transaction: with a second processor at work on the recycled slot, the publish lock is
  granted to the first one, which marks the new transaction, with sequence number 42, as
  answered, with the response size of the answer to the old one, number 41.
\<close>

lemma late_answer_published_under_new_transaction:
  "case run_state (serve_request echo recycling_env 1) claimed_alloc of (x, b) \<Rightarrow>
     x = Ret () \<and> state_of (slots b ! 1) = SLOT_RESP_READY \<and> h_msgSeq (header (slots b ! 1)) = 42 \<and>
     h_respSize (header (slots b ! 1)) = 2 \<and> h_reqSize (header (slots b ! 1)) = 3"
proof -
  have "absSize 2 = 2" "(0 :: i32) \<le>s 2"
    by code_simp+
  then show ?thesis
    by (simp add: serve_request_def claimed_alloc_def guest_alloc_def demo_alloc_def guest_slot_def demo_slot_def
        recycling_env_def quiet_env_def load_def store_def poll_def upd_slot_def upd_header_def req_data_def
        mem_read_def echo_def overwrite_def publish_answer_def LockForPublish_def PublishResponse_def cas_state_def
        recycled_slot_def Let_def)
qed

section \<open>Waiting on a host that failed to initialise\<close>

text \<open>
  \<open>WaitForRequest\<close> reads outside the slot vector when there are guest slots in the
  configuration but none in the vector, the state a failed \<open>Init\<close> leaves behind: without
  a request event it sleeps and then tests the states of the slots that are not there.
\<close>

lemma wait_for_request_without_slots:
  assumes "slots a = []" and "numGuestSlots a \<noteq> 0" and "guest_count a \<noteq> 0" and "interference env (tick a) 100 a = a"
  shows "fst (run_state (WaitForRequest env 1000) (w, a)) = Trap"
proof -
  obtain k where k: "guest_count a = Suc k"
    using assms(3) by (cases "guest_count a") auto
  have "unat (numSlots a + numGuestSlots a) \<noteq> 0"
    using assms(3) by (simp add: guest_count_def)
  then have "GuestRequestEvent a = None"
    using assms(1) by (simp add: GuestRequestEvent_def)
  then show ?thesis
    using assms(1,2,4) k
    by (simp add: WaitForRequest_def on_alloc_def sleep_for_def kFallbackPollMs_def poll_def Let_def)
qed

definition failed_alloc :: alloc where
  "failed_alloc = demo_alloc\<lparr>slots := [], numSlots := 2, numGuestSlots := 3, running := False\<rparr>"

lemma wait_for_request_without_slots_witness:
  "fst (run_state (WaitForRequest quiet_env 1000)
     (\<lparr>w_spin = True, w_limit = 100, w_pinMask = 0, guestWorkerRunning = False, threadJoinable = False\<rparr>, failed_alloc)) = Trap"
  by (rule wait_for_request_without_slots) (simp_all add: failed_alloc_def guest_count_def quiet_env_def demo_alloc_def)

end
