(* ===== verification/Shm_Doorbell.thy ===== *)
theory Shm_Doorbell
  imports Shm_Steps
begin

text \<open>
  The doorbell gate between a waiting host and the guest senders, access by access. The
  waiter is \<open>sleepAction\<close> of \<open>WaitForRequest\<close> in \<open>src/include/shm/GuestCallWorker.h\<close>, over all
  guest slots and their shared event; the senders publish as \<open>src/go/guest_slot.go\<close> does.
  The accesses to the states and to \<open>hostState\<close> are sequentially consistent.
\<close>

section \<open>The system\<close>

datatype waiter_at = Awake | Announcing nat | Checking nat | Parked | Leaving nat

datatype sender_at = Idle | Published | Ringing

record bell =
  ready :: "nat \<Rightarrow> bool"
  waiting :: "nat \<Rightarrow> bool"
  rung :: bool
  waiter :: waiter_at
  sender :: "nat \<Rightarrow> sender_at"

text \<open>
  \<open>ready j\<close> is \<open>SLOT_REQ_READY\<close> in slot \<open>j\<close>, \<open>waiting j\<close> is \<open>HOST_STATE_WAITING\<close> there, and \<open>rung\<close> the
  auto-reset event. A request is cleared by the host that takes it or by the guest that
  gives it up; the event is also set by \<open>WakeWaiter\<close>.
\<close>

inductive bell_step :: "nat \<Rightarrow> bell \<Rightarrow> bell \<Rightarrow> bool" for n where
  start_wait: "waiter s = Awake \<Longrightarrow> bell_step n s (s\<lparr>waiter := Announcing 0\<rparr>)"
| announce: "waiter s = Announcing k \<Longrightarrow> k < n \<Longrightarrow>
    bell_step n s (s\<lparr>waiting := (waiting s)(k := True), waiter := Announcing (Suc k)\<rparr>)"
| announced: "waiter s = Announcing n \<Longrightarrow> bell_step n s (s\<lparr>waiter := Checking 0\<rparr>)"
| check_found: "waiter s = Checking k \<Longrightarrow> k < n \<Longrightarrow> ready s k \<Longrightarrow> bell_step n s (s\<lparr>waiter := Leaving 0\<rparr>)"
| check_next: "waiter s = Checking k \<Longrightarrow> k < n \<Longrightarrow> \<not> ready s k \<Longrightarrow> bell_step n s (s\<lparr>waiter := Checking (Suc k)\<rparr>)"
| park: "waiter s = Checking n \<Longrightarrow> bell_step n s (s\<lparr>waiter := Parked\<rparr>)"
| wake: "waiter s = Parked \<Longrightarrow> rung s \<Longrightarrow> bell_step n s (s\<lparr>rung := False, waiter := Leaving 0\<rparr>)"
| time_out: "waiter s = Parked \<Longrightarrow> bell_step n s (s\<lparr>waiter := Leaving 0\<rparr>)"
| leave: "waiter s = Leaving k \<Longrightarrow> k < n \<Longrightarrow>
    bell_step n s (s\<lparr>waiting := (waiting s)(k := False), waiter := Leaving (Suc k)\<rparr>)"
| left: "waiter s = Leaving n \<Longrightarrow> bell_step n s (s\<lparr>waiter := Awake\<rparr>)"
| clear: "bell_step n s (s\<lparr>ready := (ready s)(j := False)\<rparr>)"
| publish: "j < n \<Longrightarrow> sender s j = Idle \<Longrightarrow> \<not> ready s j \<Longrightarrow>
    bell_step n s (s\<lparr>ready := (ready s)(j := True), sender := (sender s)(j := Published)\<rparr>)"
| see_waiting: "sender s j = Published \<Longrightarrow> waiting s j \<Longrightarrow> bell_step n s (s\<lparr>sender := (sender s)(j := Ringing)\<rparr>)"
| see_active: "sender s j = Published \<Longrightarrow> \<not> waiting s j \<Longrightarrow> bell_step n s (s\<lparr>sender := (sender s)(j := Idle)\<rparr>)"
| ring: "sender s j = Ringing \<Longrightarrow> bell_step n s (s\<lparr>rung := True, sender := (sender s)(j := Idle)\<rparr>)"
| wake_waiter: "bell_step n s (s\<lparr>rung := True\<rparr>)"

definition bell_init :: "nat \<Rightarrow> bell \<Rightarrow> bool" where
  "bell_init n s = (waiter s = Awake \<and> (\<forall>j<n. \<not> ready s j \<and> sender s j = Idle))"

section \<open>No wakeup is lost\<close>

text \<open>A request the waiter has passed over is one whose sender has still to look, or it rings.\<close>

definition covered :: "nat \<Rightarrow> bell \<Rightarrow> bool" where
  "covered k s = (\<forall>j<k. ready s j \<longrightarrow> sender s j \<noteq> Idle \<or> rung s)"

fun waiter_ok :: "nat \<Rightarrow> bell \<Rightarrow> waiter_at \<Rightarrow> bool" where
  "waiter_ok n s (Announcing k) = (\<forall>j<k. waiting s j)"
| "waiter_ok n s (Checking k) = ((\<forall>j<n. waiting s j) \<and> k \<le> n \<and> covered k s)"
| "waiter_ok n s Parked = ((\<forall>j<n. waiting s j) \<and> covered n s)"
| "waiter_ok n s _ = True"

definition bell_inv :: "nat \<Rightarrow> bell \<Rightarrow> bool" where
  "bell_inv n s = waiter_ok n s (waiter s)"

lemma bell_step_inv:
  assumes "bell_inv n s" and "bell_step n s t"
  shows "bell_inv n t"
  using assms(2,1)
  by cases (cases "waiter s"; auto simp: bell_inv_def covered_def less_Suc_eq)+

interpretation bell: invariant "bell_init n" "bell_step n" "bell_inv n"
proof
  show "bell_init n s \<Longrightarrow> bell_inv n s" for s
    by (simp add: bell_init_def bell_inv_def)
qed (rule bell_step_inv)

text \<open>
  C15. No wakeup is lost at the doorbell. Take any interleaving of a waiter that announces
  itself on every guest slot, checks all of them and parks on the shared event, and of the
  senders of all slots, each of which publishes its request and rings only if it then sees
  the announcement. Whenever the waiter is parked while a request is pending whose sender
  has finished publishing, the event is set, so that the wait returns at once.
\<close>

theorem no_lost_wakeup:
  assumes "reachable (bell_init n) (bell_step n) s" and "waiter s = Parked"
    and "j < n" and "ready s j" and "sender s j = Idle"
  shows "rung s \<and> bell_step n s (s\<lparr>rung := False, waiter := Leaving 0\<rparr>)"
proof -
  have "rung s"
    using bell.always [OF assms(1)] assms(2-5) by (simp add: bell_inv_def covered_def)
  then show ?thesis
    using assms(2) by (simp add: bell_step.wake)
qed

text \<open>The sender publishes after the check of its slot and before the waiter parks.\<close>

definition bell0 :: bell where
  "bell0 = \<lparr>ready = (\<lambda>_. False), waiting = (\<lambda>_. False), rung = False, waiter = Awake, sender = (\<lambda>_. Idle)\<rparr>"

definition bell1 :: bell where
  "bell1 = bell0\<lparr>waiting := (\<lambda>_. False)(0 := True), waiter := Checking 1\<rparr>"

definition bell2 :: bell where
  "bell2 = bell1\<lparr>ready := (\<lambda>_. False)(0 := True), rung := True, waiter := Parked\<rparr>"

lemma bell2_reachable: "reachable (bell_init 1) (bell_step 1) bell2"
proof -
  have "reachable (bell_init 1) (bell_step 1) bell0"
    by (rule reachable.start) (simp add: bell_init_def bell0_def)
  then have "reachable (bell_init 1) (bell_step 1) (bell0\<lparr>waiter := Announcing 0\<rparr>)"
    by (rule reachable.move) (rule bell_step.start_wait, simp add: bell0_def)
  then have "reachable (bell_init 1) (bell_step 1) (bell0\<lparr>waiting := (\<lambda>_. False)(0 := True), waiter := Announcing 1\<rparr>)"
    by (rule reachable.move)
      (use bell_step.announce [of "bell0\<lparr>waiter := Announcing 0\<rparr>" 0 1] in \<open>simp add: bell0_def\<close>)
  then have "reachable (bell_init 1) (bell_step 1) (bell0\<lparr>waiting := (\<lambda>_. False)(0 := True), waiter := Checking 0\<rparr>)"
    by (rule reachable.move)
      (use bell_step.announced [of "bell0\<lparr>waiting := (\<lambda>_. False)(0 := True), waiter := Announcing 1\<rparr>" 1] in \<open>simp add: bell0_def\<close>)
  then have "reachable (bell_init 1) (bell_step 1) bell1"
    by (rule reachable.move)
      (use bell_step.check_next [of "bell0\<lparr>waiting := (\<lambda>_. False)(0 := True), waiter := Checking 0\<rparr>" 0 1] in
        \<open>simp add: bell0_def bell1_def\<close>)
  then have "reachable (bell_init 1) (bell_step 1)
      (bell1\<lparr>ready := (\<lambda>_. False)(0 := True), sender := (\<lambda>_. Idle)(0 := Published)\<rparr>)"
    by (rule reachable.move) (use bell_step.publish [of 0 1 bell1] in \<open>simp add: bell0_def bell1_def\<close>)
  then have "reachable (bell_init 1) (bell_step 1)
      (bell1\<lparr>ready := (\<lambda>_. False)(0 := True), sender := (\<lambda>_. Idle)(0 := Ringing)\<rparr>)"
    by (rule reachable.move)
      (use bell_step.see_waiting [of "bell1\<lparr>ready := (\<lambda>_. False)(0 := True), sender := (\<lambda>_. Idle)(0 := Published)\<rparr>" 0 1] in
        \<open>simp add: bell0_def bell1_def\<close>)
  then have "reachable (bell_init 1) (bell_step 1)
      (bell1\<lparr>ready := (\<lambda>_. False)(0 := True), rung := True, sender := (\<lambda>_. Idle)(0 := Idle)\<rparr>)"
    by (rule reachable.move)
      (use bell_step.ring [of "bell1\<lparr>ready := (\<lambda>_. False)(0 := True), sender := (\<lambda>_. Idle)(0 := Ringing)\<rparr>" 0 1] in
        \<open>simp add: bell0_def bell1_def\<close>)
  then show ?thesis
    by (rule reachable.move)
      (use bell_step.park [of "bell1\<lparr>ready := (\<lambda>_. False)(0 := True), rung := True, sender := (\<lambda>_. Idle)(0 := Idle)\<rparr>" 1] in
        \<open>simp add: bell0_def bell1_def bell2_def fun_upd_idem\<close>)
qed

theorem no_lost_wakeup_witness: "rung bell2 \<and> bell_step 1 bell2 (bell2\<lparr>rung := False, waiter := Leaving 0\<rparr>)"
  by (rule no_lost_wakeup [OF bell2_reachable, of 0]) (simp_all add: bell2_def bell1_def bell0_def)

end
