(* ===== verification/Shm_Host_Init.thy ===== *)
theory Shm_Host_Init
  imports Shm_Host Shm_Guest_Safe
begin

text \<open>
  The life of a host (\<open>src/include/shm/DirectHost.h\<close>): the layout \<open>Init\<close> gives the segment
  and the one \<open>NewDirectGuest\<close> (\<open>src/go/direct.go\<close>) derives from the header it finds there,
  the outcomes of \<open>Init\<close>, and what \<open>Shutdown\<close> does to the slot wrappers that are still around.
\<close>

section \<open>Geometry\<close>

lemma header_sizes [simp]: "exchangeHeaderSize = 64" "slotHeaderSize = 128"
  by (simp_all add: exchangeHeaderSize_def slotHeaderSize_def layout_defs Let_def)

lemma unat_half:
  "unat (halfSize (compute_geometry p m n)) = max 64 (unat p div 128 * 64)"
proof -
  have "unat (p div 2 div 64 * 64) = unat p div 128 * 64"
    using unat_u32_less [of p]
    by (subst unat_mult_lem [THEN iffD1]) (simp_all add: unat_div div_mult2_eq [symmetric])
  then show ?thesis
    by (simp add: compute_geometry_def Let_def word_less_nat_alt max_def)
qed

lemma unat_slotSize:
  "unat (g_slotSize (compute_geometry p m n)) = max 128 (unat p)"
proof -
  let ?h = "halfSize (compute_geometry p m n)"
  have h: "unat ?h = max 64 (unat p div 128 * 64)"
    by (rule unat_half)
  have b: "unat ?h + unat ?h < 2 ^ 32"
    using h unat_u32_less [of p] by (simp add: max_def) linarith
  then have hh: "unat (?h + ?h) = unat ?h + unat ?h"
    using unat_add_lem [of ?h ?h] by simp
  have "g_slotSize (compute_geometry p m n) = (if p < ?h + ?h then ?h + ?h else p)"
    by (simp add: compute_geometry_def Let_def)
  moreover have "p < ?h + ?h \<longleftrightarrow> unat p < 128"
    using h unfolding word_less_nat_alt hh by (auto simp: max_def)
  moreover have "unat p < 128 \<Longrightarrow> unat ?h = 64"
    using h by auto
  ultimately show ?thesis
    using hh by (auto simp: max_def)
qed

lemma unat_perSlotTotal:
  "unat (perSlotTotal (compute_geometry p m n)) = 128 + unat (g_slotSize (compute_geometry p m n))"
proof -
  have "perSlotTotal (compute_geometry p m n) = 128 + ucast (g_slotSize (compute_geometry p m n))"
    by (simp add: compute_geometry_def Let_def)
  then show ?thesis
    using unat_u32_less [of "g_slotSize (compute_geometry p m n)"]
    by (simp add: unat_plus_if')
qed

lemma unat_totalSlots:
  "unat m + unat n < 2 ^ 32 \<Longrightarrow> unat (totalSlots (compute_geometry p m n)) = unat m + unat n"
  by (simp add: compute_geometry_def Let_def unat_add_lem [THEN iffD1])

lemma unat_totalSize:
  assumes "unat m + unat n < 2 ^ 32" and "p \<le> 2 ^ 31"
  shows "unat (totalSize (compute_geometry p m n)) =
    64 + (unat m + unat n) * unat (perSlotTotal (compute_geometry p m n))"
proof -
  let ?g = "compute_geometry p m n"
  have p: "unat p \<le> 2 ^ 31"
    using assms(2) by (simp add: word_le_nat_alt)
  have "(unat m + unat n) * unat (perSlotTotal ?g) \<le> 2 ^ 32 * (128 + 2 ^ 31)"
    using assms(1) p by (intro mult_le_mono) (auto simp: unat_perSlotTotal unat_slotSize max_def)
  then have b: "(unat m + unat n) * unat (perSlotTotal ?g) + 64 < 2 ^ 64"
    by simp
  have "totalSize ?g = 64 + perSlotTotal ?g * totalSlots ?g"
    by (simp add: compute_geometry_def Let_def)
  moreover have "unat (perSlotTotal ?g * totalSlots ?g) = (unat m + unat n) * unat (perSlotTotal ?g)"
    using b unat_totalSlots [OF assms(1), of p] by (subst unat_mult_lem [THEN iffD1]) (simp_all add: mult.commute)
  ultimately show ?thesis
    using b by (simp add: unat_add_lem [THEN iffD1])
qed

text \<open>The parts of the segment in order, as offset and length, and that they tile it.\<close>

definition slot_regions :: "geometry \<Rightarrow> nat \<Rightarrow> (nat \<times> nat) list" where
  "slot_regions g i = [(slot_at g i, unat slotHeaderSize), (req_at g i, unat (halfSize g)),
     (resp_at g i, unat (g_slotSize g - halfSize g))]"

definition segment_regions :: "geometry \<Rightarrow> nat \<Rightarrow> (nat \<times> nat) list" where
  "segment_regions g n = (0, unat exchangeHeaderSize) # concat (map (slot_regions g) [0..<n])"

fun tiles :: "nat \<Rightarrow> (nat \<times> nat) list \<Rightarrow> nat \<Rightarrow> bool" where
  "tiles from [] to = (from = to)"
| "tiles from ((start, len) # rs) to = (start = from \<and> tiles (start + len) rs to)"

lemma tiles_append: "tiles a (xs @ ys) c = (\<exists>b. tiles a xs b \<and> tiles b ys c)"
  by (induction a xs c rule: tiles.induct) auto

lemma unat_resp_len:
  "unat (g_slotSize (compute_geometry p m n) - halfSize (compute_geometry p m n)) =
    max 128 (unat p) - max 64 (unat p div 128 * 64)"
proof -
  have "halfSize (compute_geometry p m n) \<le> g_slotSize (compute_geometry p m n)"
    unfolding word_le_nat_alt unat_half unat_slotSize by (auto simp: max_def)
  then show ?thesis
    by (simp add: unat_sub unat_half unat_slotSize)
qed

lemma slot_tiles:
  "tiles (slot_at (compute_geometry p m n) i) (slot_regions (compute_geometry p m n) i)
     (slot_at (compute_geometry p m n) (Suc i))"
proof -
  have "max 64 (unat p div 128 * 64) \<le> max 128 (unat p)"
    by (auto simp: max_def)
  then show ?thesis
    by (simp add: slot_regions_def slot_at_def req_at_def resp_at_def unat_resp_len unat_half
        unat_perSlotTotal unat_slotSize)
qed

lemma slots_tile:
  "tiles (slot_at (compute_geometry p m n) 0) (concat (map (slot_regions (compute_geometry p m n)) [0..<k]))
     (slot_at (compute_geometry p m n) k)"
  using slot_tiles by (induction k) (auto simp: tiles_append)

text \<open>
  C16. The layout of the segment. For every configuration whose slot counts add up in 32
  bits and whose payload size is at most 2 GiB, the exchange header and the header, request
  buffer and response buffer of every slot tile the segment from its first to its last
  byte: they are pairwise disjoint and in bounds, and the 64-bit size of the mapping did
  not wrap. Every slot has room for the configured payload, its two buffers have at
  least 64 bytes each, and the response buffer starts on a 64-byte multiple of the payload area.
\<close>

theorem segment_layout:
  assumes "unat nHost + unat nGuest < 2 ^ 32" and "p \<le> 2 ^ 31"
  shows "let g = compute_geometry p nHost nGuest; req = unat (halfSize g); resp = unat (g_slotSize g - halfSize g) in
    tiles 0 (segment_regions g (unat nHost + unat nGuest)) (unat (totalSize g)) \<and>
    64 \<le> req \<and> 64 \<le> resp \<and> unat p \<le> req + resp \<and> 64 dvd req \<and> req \<le> resp \<and> resp < 2 ^ 31"
proof -
  let ?g = "compute_geometry p nHost nGuest" and ?n = "unat nHost + unat nGuest"
  have "slot_at ?g 0 = 64" "slot_at ?g ?n = unat (totalSize ?g)"
    by (simp_all add: slot_at_def unat_totalSize [OF assms])
  then have "tiles 0 (segment_regions ?g ?n) (unat (totalSize ?g))"
    using slots_tile [of p nHost nGuest ?n] by (simp add: segment_regions_def)
  moreover have "unat p \<le> 2 ^ 31"
    using assms(2) by (simp add: word_le_nat_alt)
  then have "max 128 (unat p) - max 64 (unat p div 128 * 64) < 2 ^ 31"
    by (simp add: max_def) linarith
  moreover have "64 \<le> max 128 (unat p) - max 64 (unat p div 128 * 64)"
      "max 64 (unat p div 128 * 64) \<le> max 128 (unat p) - max 64 (unat p div 128 * 64)"
      "(64 :: nat) dvd max 64 (unat p div 128 * 64)"
      "max 64 (unat p div 128 * 64) \<le> max 128 (unat p)"
    by (auto simp: max_def)
  ultimately show ?thesis
    unfolding Let_def unat_resp_len unat_half by auto
qed

theorem segment_layout_witness:
  "let g = compute_geometry 1000 2 1; req = unat (halfSize g); resp = unat (g_slotSize g - halfSize g) in
    tiles 0 (segment_regions g 3) (unat (totalSize g)) \<and>
    64 \<le> req \<and> 64 \<le> resp \<and> 1000 \<le> req + resp \<and> 64 dvd req \<and> req \<le> resp \<and> resp < 2 ^ 31"
  using segment_layout [of 2 1 1000] by (simp add: Let_def)

section \<open>The guest's view\<close>

text \<open>
  \<open>NewDirectGuest\<close>: the checks on the exchange header in their order, and the windows into
  the mapping the guest computes for slot \<open>i\<close> (header, request pointer and length, response
  pointer and length).
\<close>

datatype attach_error =
  Invalid_magic | Version_mismatch | Invalid_numSlots | Invalid_numGuestSlots | Invalid_slotSize
  | Unaligned_slotSize | Unaligned_reqOffset | Invalid_reqOffset | Inverted_offsets | Invalid_respOffset

definition go_Magic :: u32 where "go_Magic = 0x584C4C21"
definition go_Version :: u32 where "go_Version = 0x00080000"

definition guest_check :: "exchange_header \<Rightarrow> attach_error option" where
  "guest_check x =
     (if magic x \<noteq> go_Magic then Some Invalid_magic
      else if version x \<noteq> go_Version then Some Version_mismatch
      else if xh_numSlots x = 0 \<or> xh_numSlots x > 100000 then Some Invalid_numSlots
      else if xh_numGuestSlots x > 100000 then Some Invalid_numGuestSlots
      else if slotSize x = 0 \<or> slotSize x > 1024 * 1024 * 1024 then Some Invalid_slotSize
      else if slotSize x mod 8 \<noteq> 0 then Some Unaligned_slotSize
      else if reqOffset x mod 8 \<noteq> 0 then Some Unaligned_reqOffset
      else if reqOffset x \<ge> slotSize x then Some Invalid_reqOffset
      else if respOffset x \<le> reqOffset x then Some Inverted_offsets
      else if respOffset x \<ge> slotSize x then Some Invalid_respOffset
      else None)"

definition guest_perSlotSize :: "exchange_header \<Rightarrow> u64" where
  "guest_perSlotSize x =
     (let slotHeaderSz = word_of_nat (sizeof 64 SlotHeader_members);
          slotHeaderSz = (if slotHeaderSz < 128 then 128 else slotHeaderSz)
      in slotHeaderSz + ucast (slotSize x))"

definition guest_totalSize :: "exchange_header \<Rightarrow> u64" where
  "guest_totalSize x =
     (let headerSize = word_of_nat (sizeof 1 ExchangeHeader_members);
          headerSize = (if headerSize < 64 then 64 else headerSize)
      in headerSize + guest_perSlotSize x * ucast (xh_numSlots x + xh_numGuestSlots x))"

definition guest_window :: "exchange_header \<Rightarrow> nat \<Rightarrow> nat \<times> (nat \<times> nat) \<times> (nat \<times> nat)" where
  "guest_window x i =
     (let ptr = 64 + i * unat (guest_perSlotSize x); dataBase = ptr + 128
      in (ptr, (dataBase + unat (reqOffset x), unat (respOffset x - reqOffset x)),
          (dataBase + unat (respOffset x), unat (slotSize x - respOffset x))))"

lemma exchange_fields:
  assumes "g = compute_geometry (payloadSize cfg) (numHostSlots cfg) (c_numGuestSlots cfg)"
  shows "unat (slotSize (make_exchange_header ns cfg g)) = max 128 (unat (payloadSize cfg))"
    "unat (respOffset (make_exchange_header ns cfg g)) = max 64 (unat (payloadSize cfg) div 128 * 64)"
    "guest_perSlotSize (make_exchange_header ns cfg g) = perSlotTotal g"
    "guest_totalSize (make_exchange_header ns cfg g) = totalSize g"
proof -
  have "guest_perSlotSize (make_exchange_header ns cfg g) = 128 + ucast (g_slotSize g)"
    by (simp add: guest_perSlotSize_def make_exchange_header_def layout_defs Let_def)
  then show per: "guest_perSlotSize (make_exchange_header ns cfg g) = perSlotTotal g"
    using assms by (simp add: compute_geometry_def Let_def)
  show "guest_totalSize (make_exchange_header ns cfg g) = totalSize g"
    unfolding guest_totalSize_def per using assms
    by (simp add: layout_defs Let_def make_exchange_header_def compute_geometry_def)
qed (simp_all add: make_exchange_header_def assms unat_slotSize unat_half)

text \<open>
  C17. Host and guest agree on the layout. A guest accepts the exchange header of a host
  exactly when the host has between 1 and 100000 host slots, at most 100000 guest slots, and a payload size
  of at most 1 GiB that is a multiple of 8 (or below the 128-byte minimum the host rounds up
  to); the guest then maps exactly the segment the host created, and the header and the two
  buffers it uses for each slot are exactly those of the host.
\<close>

theorem guest_attaches_to_host_layout:
  fixes cfg :: HostConfig
  defines "g \<equiv> compute_geometry (payloadSize cfg) (numHostSlots cfg) (c_numGuestSlots cfg)"
  shows "(guest_check (make_exchange_header ns cfg g) = None \<longleftrightarrow>
      unat (numHostSlots cfg) \<in> {1..100000} \<and> unat (c_numGuestSlots cfg) \<le> 100000 \<and>
      unat (payloadSize cfg) \<le> 1024 * 1024 * 1024 \<and>
      (unat (payloadSize cfg) < 128 \<or> 8 dvd unat (payloadSize cfg))) \<and>
    guest_totalSize (make_exchange_header ns cfg g) = totalSize g \<and>
    guest_window (make_exchange_header ns cfg g) i =
      (slot_at g i, (req_at g i, unat (halfSize g)), (resp_at g i, unat (g_slotSize g - halfSize g)))"
proof -
  let ?x = "make_exchange_header ns cfg g" and ?p = "unat (payloadSize cfg)"
  note f = exchange_fields [OF meta_eq_to_obj_eq [OF g_def], of ns]
  have simple: "magic ?x = go_Magic" "version ?x = go_Version" "xh_numSlots ?x = numHostSlots cfg"
      "xh_numGuestSlots ?x = c_numGuestSlots cfg" "reqOffset ?x = 0" "slotSize ?x = g_slotSize g"
      "respOffset ?x = halfSize g"
    by (simp_all add: make_exchange_header_def go_Magic_def go_Version_def SHM_MAGIC_def SHM_VERSION_def)
  have mod8: "slotSize ?x mod 8 = 0 \<longleftrightarrow> 8 dvd max 128 ?p"
    by (simp add: word_unat_eq_iff unat_mod f(1) dvd_eq_mod_eq_0 flip: simple(6))
  have order: "\<not> slotSize ?x \<le> 0" "\<not> respOffset ?x \<le> 0" "\<not> slotSize ?x \<le> respOffset ?x" "slotSize ?x \<noteq> 0"
    unfolding word_le_nat_alt word_unat_eq_iff f(1,2) by (auto simp: max_def)
  have "guest_check ?x = None \<longleftrightarrow> numHostSlots cfg \<noteq> 0 \<and> \<not> numHostSlots cfg > 100000 \<and>
      \<not> c_numGuestSlots cfg > 100000 \<and> \<not> slotSize ?x > 1024 * 1024 * 1024 \<and> 8 dvd max 128 ?p"
    using mod8 order by (simp add: guest_check_def simple(1-5))
  also have "\<dots> \<longleftrightarrow> unat (numHostSlots cfg) \<in> {1..100000} \<and> unat (c_numGuestSlots cfg) \<le> 100000 \<and>
      ?p \<le> 1024 * 1024 * 1024 \<and> (?p < 128 \<or> 8 dvd ?p)"
    unfolding word_less_nat_alt f(1) by (auto simp: word_unat_eq_iff max_def)
  moreover have "guest_window ?x i =
      (slot_at g i, (req_at g i, unat (halfSize g)), (resp_at g i, unat (g_slotSize g - halfSize g)))"
    using f(3) by (simp add: guest_window_def simple slot_at_def req_at_def resp_at_def Let_def)
  ultimately show ?thesis
    using f(4) by blast
qed

text \<open>A host with a payload size of 1001 bytes gets a segment, and no guest attaches to it.\<close>

theorem guest_attaches_to_host_layout_witness:
  "guest_check (make_exchange_header 0 ((default_host_config ''IPC'' 2)\<lparr>payloadSize := 1001\<rparr>)
     (compute_geometry 1001 2 0)) \<noteq> None"
  using guest_attaches_to_host_layout [of 0 "(default_host_config ''IPC'' 2)\<lparr>payloadSize := 1001\<rparr>" 0]
  by (simp add: default_host_config_def)

section \<open>The outcomes of \<open>Init\<close>\<close>

text \<open>What a slot is after \<open>Init\<close>, and what a host is.\<close>

definition fresh_slot :: "HostConfig \<Rightarrow> geometry \<Rightarrow> nat \<Rightarrow> slot \<Rightarrow> bool" where
  "fresh_slot cfg g i s = (state_of s = SLOT_FREE \<and> slot_ok s \<and> maxReqSize s = halfSize g \<and>
     maxRespSize s = g_slotSize g - halfSize g \<and> msgSeq s = word_of_nat i + 1 \<and>
     hReqEvent s \<noteq> None \<and> hRespEvent s \<noteq> None)"

definition initialised :: "HostConfig \<Rightarrow> host \<Rightarrow> bool" where
  "initialised cfg h =
     (let g = compute_geometry (payloadSize cfg) (numHostSlots cfg) (c_numGuestSlots cfg); a = h_alloc h in
      running a \<and> shmBase h \<noteq> None \<and> sharedState h \<noteq> None \<and>
      numSlots a = numHostSlots cfg \<and> numGuestSlots a = c_numGuestSlots cfg \<and>
      msgSeqStride a = numHostSlots cfg + c_numGuestSlots cfg \<and>
      length (slots a) = unat (numHostSlots cfg) + unat (c_numGuestSlots cfg) \<and>
      (\<forall>i < length (slots a). fresh_slot cfg g i (slots a ! i)) \<and>
      totalShmSize h = totalSize g \<and> exHeader h = make_exchange_header (autoReclaimTimeoutNs a) cfg g)"

lemma init_slots_lengths:
  "init_slots w name nHost g k i ss os = ((ok, ss'), os') \<Longrightarrow> length ss' = length ss"
proof (induction k arbitrary: i ss os)
  case (Suc k)
  then show ?case
    by (auto simp: Let_def split: prod.splits if_splits)
qed simp

lemma init_slots_all:
  "init_slots w name nHost g k i ss os = ((True, ss'), os') \<Longrightarrow> i + k = length ss \<Longrightarrow>
    (\<forall>j < length ss. if j < i then ss' ! j = ss ! j
       else \<exists>e f s. ss' ! j = init_slot g j (Some e) (Some f) s)"
proof (induction k arbitrary: i ss os)
  case (Suc k)
  obtain req os1 resp os2 where ev: "CreateNamedEvent w (reqName name nHost i) os = (req, os1)"
      "CreateNamedEvent w (respName name i) os1 = (resp, os2)"
    by (meson surj_pair)
  let ?ss = "ss[i := init_slot g i req resp (ss ! i)]"
  obtain e f where some: "req = Some e" "resp = Some f"
      and rec: "init_slots w name nHost g k (Suc i) ?ss os2 = ((True, ss'), os')"
    using Suc.prems(1) ev by (auto simp: Let_def split: if_splits)
  have IH: "\<forall>j < length ss. if j < Suc i then ss' ! j = ?ss ! j
      else \<exists>e f s. ss' ! j = init_slot g j (Some e) (Some f) s"
    using Suc.IH [OF rec] Suc.prems(2) by simp
  show ?case
  proof (intro allI impI)
    fix j
    assume j: "j < length ss"
    show "if j < i then ss' ! j = ss ! j else \<exists>e f s. ss' ! j = init_slot g j (Some e) (Some f) s"
      using IH [rule_format, OF j] j some
      by (cases "j < i"; cases "j = i") (auto simp: nth_list_update split: if_splits)
  qed
qed simp

lemma init_slot_fresh:
  assumes "g = compute_geometry p m n" and "p \<le> 2 ^ 31"
  shows "fresh_slot cfg g i (init_slot g i (Some e) (Some f) s)"
proof -
  have "unat p \<le> 2 ^ 31"
    using assms(2) by (simp add: word_le_nat_alt)
  then have "unat (halfSize g) < 2 ^ 31" "unat (g_slotSize g - halfSize g) < 2 ^ 31"
    unfolding assms(1) unat_half unat_resp_len by (simp add: max_def; linarith)+
  then show ?thesis
    by (simp add: fresh_slot_def init_slot_def slot_ok_def zero_header_def word_less_nat_alt)
qed

lemma length_resize_slots [simp]: "length (resize_slots n ss) = n"
  by (simp add: resize_slots_def)

lemma Shutdown_cases:
  "Shutdown w env reg os h = (h', reg', os') \<Longrightarrow>
    (if running (h_alloc h)
     then \<not> running (h_alloc h') \<and> sharedState h' = None \<and> sessions h' = sessions h \<and>
       reg' = (case hLockFile h of Some l \<Rightarrow> if shmBase h = None then reg else AList.delete l reg | None \<Rightarrow> reg)
     else h' = h \<and> reg' = reg)"
  by (auto simp: Shutdown_def Let_def UnlockShm_def split: prod.splits if_splits option.splits)

lemma initialised_after_loop:
  assumes "unat (numHostSlots cfg) + unat (c_numGuestSlots cfg) < 2 ^ 32" and "payloadSize cfg \<le> 2 ^ 31"
    and g: "g = compute_geometry (payloadSize cfg) (numHostSlots cfg) (c_numGuestSlots cfg)"
    and h0: "h0 = configure cfg g h"
    and loop: "init_slots w name nHost g (unat (totalSlots g)) 0
      (resize_slots (unat (totalSlots g)) (slots (h_alloc h0))) os = ((True, ss), os')"
  shows "initialised cfg (h0\<lparr>shmBase := Some base, hMapFile := m, hLockFile := l,
    exHeader := make_exchange_header (autoReclaimTimeoutNs (h_alloc h0)) cfg g,
    h_alloc := (h_alloc h0)\<lparr>slots := ss, running := True\<rparr>\<rparr>)"
proof -
  let ?n = "unat (totalSlots g)"
  have n: "?n = unat (numHostSlots cfg) + unat (c_numGuestSlots cfg)"
    unfolding g by (rule unat_totalSlots [OF assms(1)])
  have "length ss = ?n"
    using init_slots_lengths [OF loop] by simp
  moreover have "fresh_slot cfg g i (ss ! i)" if "i < ?n" for i
    using init_slots_all [OF loop] that init_slot_fresh [OF g assms(2)] by fastforce
  moreover have "sharedState h0 \<noteq> None" "numSlots (h_alloc h0) = numHostSlots cfg"
      "numGuestSlots (h_alloc h0) = c_numGuestSlots cfg"
      "msgSeqStride (h_alloc h0) = numHostSlots cfg + c_numGuestSlots cfg" "totalShmSize h0 = totalSize g"
    by (simp_all add: h0 configure_def Let_def)
  ultimately show ?thesis
    using n by (simp add: initialised_def Let_def flip: g)
qed

text \<open>\<open>Init\<close> once the segment is mapped and the lock is held.\<close>

lemma init_after_lock:
  fixes cfg :: HostConfig
  defines "g \<equiv> compute_geometry (payloadSize cfg) (numHostSlots cfg) (c_numGuestSlots cfg)"
  assumes "unat (numHostSlots cfg) + unat (c_numGuestSlots cfg) < 2 ^ 32" and "payloadSize cfg \<le> 2 ^ 31"
    and shm: "CreateNamedShm w (shmName cfg) (totalSize g) os = ((base, hmap, ex), os1)" and based: "base \<noteq> None"
    and lock: "LockShm w (shmName cfg) reg os1 = ((True, Some l), AList.update l (shmName cfg) reg, os2)"
    and "Init w env cfg reg os h = (r, h', reg', os')"
  shows "r = Success \<and> initialised cfg h' \<and> (\<exists>l. hLockFile h' = Some l \<and> map_of reg' l = Some (shmName cfg)) \<or>
    r = Failure InternalError \<and> \<not> running (h_alloc h') \<and> snd ` set reg' \<subseteq> snd ` set reg"
proof -
  define h0 where "h0 = configure cfg g h"
  note init = assms(7) [unfolded Init_def Let_def, folded g_def, folded h0_def, unfolded shm prod.case]
  have g: "g = compute_geometry (payloadSize cfg) (numHostSlots cfg) (c_numGuestSlots cfg)"
    by (simp add: g_def)
  let ?n = "unat (totalSlots g)" and ?reg = "AList.update l (shmName cfg) reg"
  let ?ss = "resize_slots ?n (slots (h_alloc h0))"
  obtain ok ss1 os3 where loop: "init_slots w (shmName cfg) (numHostSlots cfg) g ?n 0 ?ss os2 = ((ok, ss1), os3)"
    by (metis surj_pair)
  let ?h2 = "h0\<lparr>shmBase := base, hMapFile := hmap, hLockFile := Some l,
      exHeader := make_exchange_header (autoReclaimTimeoutNs (h_alloc h0)) cfg g,
      h_alloc := (h_alloc h0)\<lparr>slots := ss1, running := True\<rparr>\<rparr>"
  show ?thesis
  proof (cases ok)
    case True
    then have r: "r = Success" "h' = ?h2" "reg' = ?reg"
      using init based lock loop by auto
    have loopT: "init_slots w (shmName cfg) (numHostSlots cfg) g ?n 0 ?ss os2 = ((True, ss1), os3)"
      using loop True by simp
    have "initialised cfg h'"
      using based initialised_after_loop [OF assms(2,3) g h0_def loopT] by (auto simp: r(2))
    then show ?thesis
      using r by (simp add: update_conv')
  next
    case False
    obtain h3 reg3 os4 where down: "Shutdown w env ?reg os3 ?h2 = (h3, reg3, os4)"
      by (metis surj_pair)
    then have r: "r = Failure InternalError" "h' = h3" "reg' = reg3"
      using init based lock loop False by auto
    have "\<not> running (h_alloc h3)" "reg3 = AList.delete l ?reg"
      using Shutdown_cases [OF down] based by auto
    moreover have "AList.delete l ?reg = AList.delete l reg"
      by (induction reg) auto
    ultimately show ?thesis
      using r by (auto simp: AList.delete_eq)
  qed
qed

text \<open>
  C18. \<open>Init\<close> all or nothing. On a host that is not running, \<open>Init\<close> either succeeds, and then
  the host is running, holds the lock on the name, every slot of the configured number is
  free, has event handles, the buffers the geometry promises and its own first sequence
  number, and the exchange header describes the segment; or it fails with
  \<open>ResourceExhausted\<close> exactly when the lock was refused and with \<open>InternalError\<close> otherwise,
  and then the host is not running and this process holds no name it did not hold before.
\<close>

theorem init_all_or_nothing:
  assumes "unat (numHostSlots cfg) + unat (c_numGuestSlots cfg) < 2 ^ 32" and "payloadSize cfg \<le> 2 ^ 31"
    and "\<not> running (h_alloc h)" and "Init w env cfg reg os h = (r, h', reg', os')"
  shows "(r = Failure ResourceExhausted \<longleftrightarrow>
      (case CreateNamedShm w (shmName cfg)
          (totalSize (compute_geometry (payloadSize cfg) (numHostSlots cfg) (c_numGuestSlots cfg))) os of
        ((base, _), os1) \<Rightarrow> base \<noteq> None \<and> \<not> fst (fst (LockShm w (shmName cfg) reg os1)))) \<and>
    ((r = Success \<and> initialised cfg h' \<and> (\<exists>l. hLockFile h' = Some l \<and> map_of reg' l = Some (shmName cfg))) \<or>
    (r = Failure ResourceExhausted \<or> r = Failure InternalError) \<and> \<not> running (h_alloc h') \<and>
      snd ` set reg' \<subseteq> snd ` set reg)"
proof -
  define g where "g = compute_geometry (payloadSize cfg) (numHostSlots cfg) (c_numGuestSlots cfg)"
  obtain base hmap ex os1 where shm: "CreateNamedShm w (shmName cfg) (totalSize g) os = ((base, hmap, ex), os1)"
    by (cases "CreateNamedShm w (shmName cfg) (totalSize g) os") auto
  have idle: "\<not> running (h_alloc (configure cfg g h))"
    using assms(3) by (simp add: configure_def Let_def)
  note init = assms(4) [unfolded Init_def Let_def, folded g_def, unfolded shm prod.case] and goal_shm = shm [unfolded g_def]
  show ?thesis
  proof (cases "base = None")
    case True
    then show ?thesis
      using init idle goal_shm by auto
  next
    case based: False
    from LockShm_cases [of w "shmName cfg" reg os1] show ?thesis
    proof (elim disjE exE conjE)
      fix os2
      assume "LockShm w (shmName cfg) reg os1 = ((False, None), reg, os2)"
      then show ?thesis
        using init based idle goal_shm by auto
    next
      fix l os2
      assume lock: "LockShm w (shmName cfg) reg os1 = ((True, Some l), AList.update l (shmName cfg) reg, os2)"
      show ?thesis
        using init_after_lock [OF assms(1,2) goal_shm based lock assms(4)] goal_shm lock by auto
    qed
  qed
qed

definition demo_config :: HostConfig where
  "demo_config = (default_host_config ''IPC'' 2)\<lparr>payloadSize := 100, c_numGuestSlots := 1\<rparr>"

lemma sample_events: "init_slots sample_win32 name m g k i ss os = ((ok, ss'), os') \<Longrightarrow> ok"
  by (induction k arbitrary: i ss) (auto simp: CreateNamedEvent_def sample_win32_def Let_def)

lemma sample_init_fresh:
  assumes "snd (Init sample_win32 env cfg [] os h) = (h', reg', os')"
  shows "running (h_alloc h') \<and> sharedState h' \<noteq> None \<and> hLockFile h' = Some 7 \<and> shmBase h' \<noteq> None \<and>
    reg' = [(7, shmName cfg)] \<and> fst (Init sample_win32 env cfg [] os h) = Success"
proof -
  define g where "g = compute_geometry (payloadSize cfg) (numHostSlots cfg) (c_numGuestSlots cfg)"
  define h0 where "h0 = configure cfg g h"
  have os: "CreateNamedShm sample_win32 (shmName cfg) (totalSize g) os = ((Some 4096, Some 1, False), os)"
      "LockShm sample_win32 (shmName cfg) [] os = ((True, Some 7), [(7, shmName cfg)], True)"
    by (simp_all add: CreateNamedShm_def LockShm_def sample_win32_def)
  obtain ok ss os3 where loop: "init_slots sample_win32 (shmName cfg) (numHostSlots cfg) g (unat (totalSlots g)) 0
      (resize_slots (unat (totalSlots g)) (slots (h_alloc h0))) True = ((ok, ss), os3)"
    by (metis surj_pair)
  then have ok
    by (rule sample_events)
  moreover have "sharedState h0 \<noteq> None"
    by (simp add: h0_def configure_def Let_def)
  ultimately show ?thesis
    using assms loop unfolding Init_def Let_def g_def [symmetric] h0_def [symmetric] os prod.case
    by auto
qed

theorem init_all_or_nothing_witness:
  "case Init sample_win32 quiet_env demo_config [] False DirectHost of (r, h', reg', os') \<Rightarrow>
    r = Success \<and> initialised demo_config h' \<and> (\<exists>l. hLockFile h' = Some l \<and> map_of reg' l = Some ''IPC'')"
proof -
  obtain r h' reg' os' where run: "Init sample_win32 quiet_env demo_config [] False DirectHost = (r, h', reg', os')"
    by (metis surj_pair)
  then have "r = Success"
    using sample_init_fresh [of quiet_env demo_config False DirectHost] by (metis fst_conv snd_conv)
  then show ?thesis
    using init_all_or_nothing [OF _ _ _ run] run
    by (simp add: demo_config_def default_host_config_def DirectHost_def new_alloc_def)
qed

section \<open>Wrappers of an ended session\<close>

datatype life_event = Do_Init HostConfig | Do_Shutdown

text \<open>Any sequence of calls of \<open>Init\<close> and \<open>Shutdown\<close> on one host.\<close>

fun run_life :: "'os win32 \<Rightarrow> env \<Rightarrow> life_event list \<Rightarrow> host \<times> registry \<times> 'os \<Rightarrow> host \<times> registry \<times> 'os" where
  "run_life w env [] s = s"
| "run_life w env (Do_Init cfg # es) (h, reg, os) = run_life w env es (snd (Init w env cfg reg os h))"
| "run_life w env (Do_Shutdown # es) (h, reg, os) = run_life w env es (Shutdown w env reg os h)"

definition session_ok :: "host \<Rightarrow> bool" where
  "session_ok h = (\<forall>n. sharedState h = Some n \<longrightarrow> n < sessions h)"

definition session_over :: "nat option \<Rightarrow> host \<Rightarrow> bool" where
  "session_over z h = (\<forall>n. z = Some n \<longrightarrow> n < sessions h \<and> sharedState h \<noteq> Some n)"

lemma Shutdown_session:
  "sharedState (fst (Shutdown w env reg os h)) = (if running (h_alloc h) then None else sharedState h)"
  "sessions (fst (Shutdown w env reg os h)) = sessions h"
  using Shutdown_cases [of w env reg os h] by (metis prod.collapse)+

lemma Init_host:
  assumes "snd (Init w env cfg reg os h) = (h', reg', os')"
  shows "\<exists>g h2. sharedState h2 = sharedState (configure cfg g h) \<and> sessions h2 = sessions (configure cfg g h) \<and>
    (h' = h2 \<or> running (h_alloc h2) \<and> (\<exists>r o'. h' = fst (Shutdown w env r o' h2)))"
proof -
  define g where "g = compute_geometry (payloadSize cfg) (numHostSlots cfg) (c_numGuestSlots cfg)"
  define h0 where "h0 = configure cfg g h"
  obtain base hmap ex os1 where shm: "CreateNamedShm w (shmName cfg) (totalSize g) os = ((base, hmap, ex), os1)"
    by (cases "CreateNamedShm w (shmName cfg) (totalSize g) os") auto
  obtain lk l reg2 os2 where lock: "LockShm w (shmName cfg) reg os1 = ((lk, l), reg2, os2)"
    by (cases "LockShm w (shmName cfg) reg os1") auto
  obtain ok ss os3 where loop: "init_slots w (shmName cfg) (numHostSlots cfg) g (unat (totalSlots g)) 0
      (resize_slots (unat (totalSlots g)) (slots (h_alloc h0))) os2 = ((ok, ss), os3)"
    by (metis surj_pair)
  let ?h2 = "h0\<lparr>shmBase := base, hMapFile := hmap, hLockFile := l,
    exHeader := make_exchange_header (autoReclaimTimeoutNs (h_alloc h0)) cfg g,
    h_alloc := (h_alloc h0)\<lparr>slots := ss, running := True\<rparr>\<rparr>"
  have "h' = h0\<lparr>shmBase := base, hMapFile := hmap\<rparr> \<or> h' = h0\<lparr>hMapFile := hmap, shmBase := None\<rparr> \<or>
      h' = ?h2 \<or> h' = fst (Shutdown w env reg2 os3 ?h2)"
    using assms loop unfolding Init_def Let_def g_def [symmetric] h0_def [symmetric] shm prod.case lock
    by (cases "Shutdown w env reg2 os3 ?h2") (auto split: if_splits)
  then show ?thesis
    unfolding h0_def
    by (elim disjE; intro exI [of _ g]; intro exI [of _ h'] exI [of _ ?h2]) (auto simp: h0_def)
qed

lemma Init_session:
  assumes "snd (Init w env cfg reg os h) = (h', reg', os')"
  shows "sessions h \<le> sessions h' \<and> (sharedState h' = None \<or> sharedState h' = sharedState h \<or>
    sharedState h' = Some (sessions h) \<and> sessions h' = Suc (sessions h))"
  using Init_host [OF assms] by (auto simp: configure_def Let_def Shutdown_session split: if_splits)

lemma life_session:
  "session_ok h \<Longrightarrow> run_life w env es (h, reg, os) = (h', reg', os') \<Longrightarrow>
    session_ok h' \<and> (session_over z h \<longrightarrow> session_over z h')"
proof (induction es arbitrary: h reg os)
  case (Cons e es)
  obtain h1 reg1 os1 where step: "(case e of Do_Init cfg \<Rightarrow> snd (Init w env cfg reg os h)
      | Do_Shutdown \<Rightarrow> Shutdown w env reg os h) = (h1, reg1, os1)"
    by (metis surj_pair)
  have "session_ok h1 \<and> (session_over z h \<longrightarrow> session_over z h1)"
  proof (cases e)
    case (Do_Init cfg)
    then show ?thesis
      using step Init_session [of w env cfg reg os h h1 reg1 os1] Cons.prems(1)
      by (fastforce simp: session_ok_def session_over_def)
  next
    case Do_Shutdown
    then show ?thesis
      using step Shutdown_session [of w env reg os h] Cons.prems(1)
      by (auto simp: session_ok_def session_over_def split: if_splits)
  qed
  moreover have "run_life w env es (h1, reg1, os1) = (h', reg', os')"
    using step Cons.prems(2) by (cases e) simp_all
  ultimately show ?case
    using Cons.IH by blast
qed simp

text \<open>
  C32. No use of unmapped memory through a slot wrapper. Take a host in any state reached by
  calls of \<open>Init\<close> and \<open>Shutdown\<close>, a wrapper (\<open>ZeroCopySlot\<close> or \<open>HeldSlot\<close>) made while it was
  running, and shut the host down: then the wrapper is invalid for good, also after the host
  has been initialised again any number of times. Every operation of it returns an error or
  does nothing, without an access to the slots; destroying it does not free a slot of the
  new session.
\<close>

theorem stale_wrapper_never_touches_slots:
  assumes "run_life w env es (DirectHost, reg, os) = (h, reg1, os1)" and "running (h_alloc h)"
    and "run_life w env (Do_Shutdown # es') (h, reg1, os1) = (h', reg2, os2)" and "z = make_wrapper h idx"
  shows "\<not> wrapper_IsValid h' z \<and> zc_release env' h' z = ret () \<and>
    run_state (held_Release env' h' z) a = (z\<lparr>z_slotIdx := - 1\<rparr>, a) \<and>
    zc_Send fuel env' h' z sz mt t = ret (Ret (Failure InvalidArgs, z)) \<and>
    zc_SendFlatBuffer fuel env' h' z sz t = ret (Ret (Failure InvalidArgs, z)) \<and>
    held_Send fuel env' h' z sz mt out t = ret (Ret ((Inl InvalidArgs, out), z)) \<and>
    zc_GetRespBuffer env' h' z = ret None \<and> zc_GetRespSize env' h' z = ret 0"
proof -
  have ok: "session_ok h"
    using life_session [OF _ assms(1)] by (simp add: session_ok_def DirectHost_def)
  let ?d = "fst (Shutdown w env reg1 os1 h)"
  have "session_over (z_session z) ?d" "session_ok ?d"
    using ok assms(2,4) by (auto simp: session_over_def session_ok_def make_wrapper_def Shutdown_session)
  then have "session_over (z_session z) h'"
    using life_session [of ?d w env es' _ _ h'] assms(3) by (metis prod.collapse run_life.simps(3))
  then have dead: "\<not> alive h' z"
    by (auto simp: alive_def session_over_def)
  then have "\<not> wrapper_IsValid h' z"
    by (simp add: wrapper_IsValid_def)
  with dead show ?thesis
    by (simp add: zc_release_def held_Release_def zc_Send_def zc_SendFlatBuffer_def held_Send_def
        zc_GetRespBuffer_def zc_GetRespSize_def)
qed

theorem stale_wrapper_never_touches_slots_witness:
  "\<exists>h h'. running (h_alloc h) \<and> wrapper_IsValid h (make_wrapper h 0) \<and> running (h_alloc h') \<and>
    \<not> wrapper_IsValid h' (make_wrapper h 0)"
proof -
  let ?up = "[Do_Init demo_config]" and ?again = "[Do_Shutdown, Do_Init demo_config]"
  obtain h reg1 os1 where h: "run_life sample_win32 quiet_env ?up (DirectHost, [], False) = (h, reg1, os1)"
    by (metis surj_pair)
  obtain h' reg2 os2 where h': "run_life sample_win32 quiet_env ?again (h, reg1, os1) = (h', reg2, os2)"
    by (metis surj_pair)
  have up: "running (h_alloc h)" "sharedState h \<noteq> None" "hLockFile h = Some 7" "shmBase h \<noteq> None"
      "reg1 = [(7, ''IPC'')]" 
    using h sample_init_fresh [of quiet_env demo_config False DirectHost] by (auto simp: demo_config_def default_host_config_def)
  obtain d reg3 os3 where d: "Shutdown sample_win32 quiet_env reg1 os1 h = (d, reg3, os3)"
    by (metis surj_pair)
  have "reg3 = []"
    using Shutdown_cases [OF d] up by auto
  then have "running (h_alloc h')"
    using h' d sample_init_fresh [of quiet_env demo_config os3 d] by auto
  then show ?thesis
    using up stale_wrapper_never_touches_slots [OF h up(1) h' refl, of 0]
    by (intro exI [of _ h] exI [of _ h']) (auto simp: wrapper_IsValid_def alive_def make_wrapper_def)
qed

end
