(* ===== verification/Shm_Host_Send.thy ===== *)
theory Shm_Host_Send
  imports Shm_Host Shm_Guest_Safe Shm_Slot_Claim
begin

text \<open>
  The send paths of \<open>src/include/shm/DirectHost.h\<close> from the acquisition of the slot to the
  copy of the response: with any number of host threads taking, using and freeing slots and a
  guest that serves the slot the caller has won, \<open>Send\<close> and \<open>SendToSlot\<close> are remote procedure
  calls on the caller's bytes.
\<close>

section \<open>A pool of slots in use\<close>

definition pool :: "u32 \<times> u32 \<Rightarrow> (u32 \<times> u32) list \<Rightarrow> alloc \<Rightarrow> bool" where
  "pool st szs a = (config a = st \<and> shapes szs a)"

definition holding :: "u32 \<times> u32 \<Rightarrow> (u32 \<times> u32) list \<Rightarrow> nat \<Rightarrow> alloc \<Rightarrow> bool" where
  "holding st szs i a = (pool st szs a \<and> state_of (slots a ! i) = SLOT_BUSY)"

text \<open>
  A slot that has just been claimed: the compare and swap has set it to \<open>SLOT_BUSY\<close>, and the
  stamp of the lease is the one access since. What the others did in between is open.
\<close>

definition just_claimed :: "env \<Rightarrow> u32 \<times> u32 \<Rightarrow> (u32 \<times> u32) list \<Rightarrow> nat \<Rightarrow> alloc \<Rightarrow> bool" where
  "just_claimed env st szs i a = (pool st szs a \<and>
     (\<exists>c f. holding st szs i c \<and> tick a = Suc (tick c) \<and>
        slots a = slots (upd_slot i (upd_header (h_lease_update f)) (poll env 0 c))))"

text \<open>What an acquisition gives.\<close>

abbreviation acquired_slot :: "env \<Rightarrow> u32 \<times> u32 \<Rightarrow> (u32 \<times> u32) list \<Rightarrow> int outcome \<Rightarrow> alloc \<Rightarrow> bool" where
  "acquired_slot env st szs \<equiv> case_outcome (\<lambda>idx a. if idx < 0 then pool st szs a
     else nat idx < unat (snd st) \<and> unat (snd st) < 2 ^ 31 \<and> just_claimed env st szs (nat idx) a) (\<lambda>_. False) (\<lambda>_. True)"

lemma pool_upd:
  "pool st szs a \<Longrightarrow> (\<And>s. slot_ok s \<Longrightarrow> sizes s = szs ! i \<Longrightarrow> slot_ok (f s) \<and> sizes (f s) = sizes s) \<Longrightarrow>
    pool st szs (upd_slot i f a)"
  using shapes_upd [of szs a i f] by (auto simp: pool_def upd_slot_def)

lemma pool_upd_header: "pool st szs a \<Longrightarrow> pool st szs (upd_slot i (upd_header f) a)"
  by (rule pool_upd) (simp_all add: slot_ok_def sizes_def upd_header_def)

lemma pool_length: "pool st szs a \<Longrightarrow> length (slots a) = length szs"
  by (simp add: pool_def shapes_length)

lemma holding_upd:
  "pool st szs a \<Longrightarrow> i < length szs \<Longrightarrow> h_state (f (header (slots a ! i))) = SLOT_BUSY \<Longrightarrow>
    holding st szs i (upd_slot i (upd_header f) a)"
  using pool_upd_header [of st szs a i f] pool_length [of st szs a]
  by (simp add: holding_def) (simp add: upd_header_def)

lemma holding_upd_req:
  assumes "holding st szs i a" and "i < length szs" and "slot_ok (reqBuffer_update (\<lambda>_. buf) (slots a ! i))"
  shows "holding st szs i (upd_slot i (reqBuffer_update (\<lambda>_. buf)) a)"
  using assms by (auto simp: holding_def pool_def shapes_def list_all_length nth_list_update map_update sizes_def
      list_update_same_conv) (simp_all add: upd_slot_def)

lemma slot_rely_weaken:
  "slot_rely env i r \<Longrightarrow> (\<And>s s'. r s s' \<Longrightarrow> r' s s') \<Longrightarrow> slot_rely env i r'"
  unfolding slot_rely_def by blast

text \<open>The copy of the caller's bytes, at the start or, for a negative size, at the end.\<close>

lemma fill_window:
  assumes "slot_ok s" and "absSize sz \<le> maxReqSize s" and "length d = unat (absSize sz)"
  defines "off \<equiv> if 0 \<le>s sz then 0 else unat (maxReqSize s - absSize sz)"
  obtains tail where "off \<le> length (reqBuffer s)"
    "CopySmall (unat (absSize sz)) d (drop off (reqBuffer s)) = Some tail"
    "slot_ok (reqBuffer_update (\<lambda>_. take off (reqBuffer s) @ tail) s)"
    "request_bytes sz (reqBuffer_update (\<lambda>_. take off (reqBuffer s) @ tail) s) = d"
proof
  let ?n = "unat (absSize sz)" and ?buf = "reqBuffer s" and ?mx = "unat (maxReqSize s)"
  let ?tail = "d @ drop (off + ?n) ?buf"
  have n: "?n \<le> ?mx" "length ?buf = ?mx"
    using assms(1,2) by (simp_all add: slot_ok_def word_le_nat_alt)
  have off: "off + ?n \<le> ?mx" "\<not> 0 \<le>s sz \<Longrightarrow> off + ?n = ?mx"
    using n assms(2) by (auto simp: off_def unat_sub)
  show "off \<le> length ?buf"
    using off n by simp
  show "CopySmall ?n d (drop off ?buf) = Some ?tail"
    using off n assms(3) by (simp add: mem_safe add.commute)
  show "slot_ok (reqBuffer_update (\<lambda>_. take off ?buf @ ?tail) s)"
    using assms(1,3) off n by (simp add: slot_ok_def)
  have "unat (clamp_resp sz (maxReqSize s)) = ?n"
    using assms(2) by (auto simp: clamp_resp_def Let_def)
  then show "request_bytes sz (reqBuffer_update (\<lambda>_. take off ?buf @ ?tail) s) = d"
    using assms(3) off n by (auto simp: request_bytes_def resp_window_def Let_def off_def)
qed

text \<open>
  All that the acquisition needs of the others: they leave the sizes of the buffers alone. They
  may take, use, steal, reclaim and free every slot at every moment.
\<close>

locale shaped_pool =
  fixes env :: env
  assumes shaped: "slot_rely env i shape_rely"
begin

lemma pool_poll:
  assumes "pool st szs a"
  shows "pool st szs (poll env ms a)"
proof -
  let ?b = "interference env (tick a) ms a"
  have len: "length (slots ?b) = length (slots a)" "config ?b = config a"
    using slot_rely.keeps_slots [OF shaped] slot_rely.keeps_stride [OF shaped]
      slot_rely.keeps_numSlots [OF shaped] by simp_all
  have "slot_ok (slots ?b ! i) \<and> sizes (slots ?b ! i) = sizes (slots a ! i)" if "i < length (slots a)" for i
    using slot_rely.within_rely [OF shaped that, of "tick a" ms] assms that
    by (auto simp: shape_rely_def pool_def shapes_def list_all_length sizes_def)
  then show ?thesis
    using assms len by (auto simp: pool_def shapes_def poll_def list_all_length intro: nth_equalityI)
qed

lemma p_load: "triple (pool st szs) (load env i f) (\<lambda>_. pool st szs)"
  by (simp add: triple_def wp_load pool_poll)

lemma p_store: "triple (pool st szs) (store env i (upd_header f)) (\<lambda>_. pool st szs)"
  by (simp add: triple_def wp_store pool_poll pool_upd_header)

lemma p_cas_gen: "triple (pool st szs) (cas_gen env i x y) (\<lambda>_. pool st szs)"
  by (simp add: triple_def wp_def cas_gen_def Let_def pool_poll pool_upd_header)

lemma p_cas_state: "triple (pool st szs) (cas_state env i x y) (\<lambda>_. pool st szs)"
  by (simp add: triple_def wp_def cas_state_def Let_def pool_poll pool_upd_header)

lemma p_gets: "triple (pool st szs) (gets f) (\<lambda>_. pool st szs)"
  by (rule triple_gets)

lemma p_claim_state:
  assumes "i < length szs"
  shows "triple (pool st szs) (cas_state env i x SLOT_BUSY)
    (\<lambda>ok a. if ok then holding st szs i a else pool st szs a)"
  using holding_upd [OF pool_poll assms] pool_poll by (simp add: triple_def wp_def cas_state_def Let_def)

lemma p_stamp: "triple (holding st szs i) (stamp_lease env i) (\<lambda>_. just_claimed env st szs i)"
proof -
  have "just_claimed env st szs i (upd_slot i (upd_header (h_lease_update f)) (poll env 0 a))" if "holding st szs i a" for f a
    using that pool_upd_header [OF pool_poll, of st szs a i "h_lease_update f"]
    by (auto simp: just_claimed_def holding_def poll_def upd_slot_def)
  then show ?thesis
    unfolding stamp_lease_def
    by (intro triple_bind [where Q = "\<lambda>_. holding st szs i", OF triple_gets]) (simp_all add: triple_def wp_store)
qed

lemma p_claimed:
  "triple (\<lambda>a. if ok then holding st szs i a else pool st szs a)
    (if ok then stamp_lease env i \<bind> (\<lambda>_. ret True) else ret False)
    (\<lambda>ok a. if ok then just_claimed env st szs i a else pool st szs a)"
  by (cases ok) (auto intro!: triple_ret triple_bind [OF p_stamp])

lemma p_tryClaimSlot:
  assumes "i < length szs"
  shows "triple (pool st szs) (tryClaimSlot env i) (\<lambda>ok a. if ok then just_claimed env st szs i a else pool st szs a)"
  unfolding tryClaimSlot_def
  by (intro triple_bind [OF p_load] triple_bind [OF p_store] triple_bind [OF p_cas_gen]
      triple_bind [OF p_claim_state [OF assms]] triple_if p_claimed triple_ret) auto

lemma p_reclaim: "triple (pool st szs) (TryReclaimAbandonedSlot env j age) (\<lambda>_. pool st szs)"
  unfolding TryReclaimAbandonedSlot_def Let_def
  by (intro triple_bind [OF p_gets] triple_bind [OF p_load] triple_bind [OF p_cas_gen] p_cas_state triple_if triple_ret)

lemma p_reclaim_sweep: "triple (pool st szs) (reclaim_sweep k env i thresh) (\<lambda>_. pool st szs)"
  by (induction k arbitrary: i) (auto intro: triple_ret triple_bind [OF p_reclaim])

lemma p_specific_loop:
  assumes "i < length szs"
  shows "triple (pool st szs) (specific_loop fuel env i t retries start)
    (case_outcome (\<lambda>ok a. if ok then just_claimed env st szs i a else pool st szs a) (\<lambda>_. False) (\<lambda>_. True))"
proof (induction fuel arbitrary: retries start)
  case (Suc fuel)
  have rest: "triple (pool st szs) (if retries + 1 > 1000 then
       (if t \<noteq> INFINITE then steady_now env \<bind> (\<lambda>now. let started = (case start of None \<Rightarrow> now | Some t \<Rightarrow> t) in
          if elapsed_ms started now \<ge> unat t then ret (Ret False)
          else specific_loop fuel env i t 0 (Some started))
        else specific_loop fuel env i t 0 start)
     else specific_loop fuel env i t (retries + 1) start)
     (case_outcome (\<lambda>ok a. if ok then just_claimed env st szs i a else pool st szs a) (\<lambda>_. False) (\<lambda>_. True))"
    unfolding Let_def by (intro triple_if triple_bind [OF p_gets] triple_ret Suc.IH) simp
  show ?case
    unfolding specific_loop.simps
    by (rule triple_bind [OF p_tryClaimSlot [OF assms]]) (use rest in \<open>auto intro: triple_ret\<close>)
qed (simp add: triple_ret)

lemma p_acquire_loop:
  assumes "unat (snd st) \<le> length szs" and "length szs < 2 ^ 31" and "idx < snd st"
  shows "triple (pool st szs) (acquire_loop fuel env idx) (acquired_slot env st szs)"
  using assms(3)
proof (induction fuel arbitrary: idx)
  case (Suc fuel)
  have idx: "unat idx < length szs" "unat idx < unat (snd st)" "idx < 2 ^ 31"
    using Suc.prems assms by (auto simp: word_less_nat_alt)
  have sint: "sint idx = int (unat idx)"
    using idx(3) by (simp add: sint_small)
  have win: "triple (just_claimed env st szs (unat idx)) (modify (cachedSlotIdx_update (\<lambda>_. idx)) \<bind> (\<lambda>_. ret (Ret (sint idx))))
      (acquired_slot env st szs)"
    using idx assms by (intro triple_bind [where Q = "\<lambda>_. just_claimed env st szs (unat idx)"] triple_modify triple_ret)
      (auto simp: sint just_claimed_def pool_def shapes_def)
  have total: "triple (pool st szs) (gets numSlots) (\<lambda>x a. x = snd st \<and> pool st szs a)"
    by (rule triple_gets) (auto simp: pool_def)
  have sweep: "triple (pool st szs) (if thresh > 0 then reclaim_sweep k env 0 thresh else ret ()) (\<lambda>_. pool st szs)" for thresh k
    by (intro triple_if p_reclaim_sweep triple_ret)
  have more: "idx + 1 < snd st" if "\<not> snd st \<le> idx + 1"
    using that by simp
  have zero: "0 < snd st"
    using Suc.prems by (metis word_gt_0 word_not_simps(1))
  have lose: "triple (pool st szs) (gets numSlots \<bind> (\<lambda>total. if idx + 1 \<ge> total then
       gets autoReclaimTimeoutNs \<bind> (\<lambda>thresh.
         (if thresh > 0 then reclaim_sweep (unat total) env 0 thresh else ret ()) \<bind> (\<lambda>_. acquire_loop fuel env 0))
       else acquire_loop fuel env (idx + 1))) (acquired_slot env st szs)"
    by (rule triple_bind_value [OF total], intro triple_if triple_bind [OF p_gets] triple_bind [OF sweep] Suc.IH zero more)
  show ?case
    unfolding acquire_loop.simps
    by (rule triple_bind [OF p_tryClaimSlot [OF idx(1)]]) (use win lose in auto)
qed (simp add: triple_ret)

lemma p_AcquireSlot:
  assumes "unat (snd st) \<le> length szs" and "length szs < 2 ^ 31" and "snd st \<noteq> 0"
  shows "triple (pool st szs) (AcquireSlot fuel env) (acquired_slot env st szs)"
proof -
  have total: "triple (pool st szs) (gets numSlots) (\<lambda>x a. x = snd st \<and> pool st szs a)"
    by (rule triple_gets) (auto simp: pool_def)
  have fetch: "triple (pool st szs) (fetch_next env) (\<lambda>_. pool st szs)"
    using pool_poll by (auto simp: triple_def wp_def fetch_next_def Let_def pool_def shapes_def)
  have nz: "nxt mod snd st < snd st" for nxt
    using assms(3) by (simp add: word_mod_less_divisor word_gt_0)
  have slow: "triple (pool st szs) (fetch_next env \<bind> (\<lambda>nxt. if snd st = 0 then ret Trap
      else acquire_loop fuel env (nxt mod snd st))) (acquired_slot env st szs)"
    by (rule triple_bind [OF fetch])
      (simp add: assms(3) p_acquire_loop [OF assms(1,2) nz])
  have cached: "triple (pool st szs) (if c < snd st then tryClaimSlot env (unat c) else ret False)
      (\<lambda>ok a. if ok then c < snd st \<and> just_claimed env st szs (unat c) a else pool st szs a)" for c
  proof (cases "c < snd st")
    case True
    then have "unat c < length szs"
      using assms(1) by (simp add: word_less_nat_alt)
    show ?thesis
      unfolding if_P [OF True]
      by (rule triple_weaken [OF p_tryClaimSlot [OF \<open>unat c < length szs\<close>]]) (use True in \<open>simp_all split: if_splits\<close>)
  qed (simp add: triple_ret)
  have take: "triple (\<lambda>a. if ok then c < snd st \<and> just_claimed env st szs (unat c) a else pool st szs a)
      (if ok then ret (Ret (sint c)) else fetch_next env \<bind> (\<lambda>nxt. if snd st = 0 then ret Trap
         else acquire_loop fuel env (nxt mod snd st))) (acquired_slot env st szs)" for ok c
  proof (cases ok)
    case True
    have "sint c = int (unat c) \<and> unat c < unat (snd st) \<and> unat (snd st) < 2 ^ 31" if "c < snd st"
      using that assms(1,2) sint_small [of c] by (simp add: word_less_nat_alt)
    then show ?thesis
      using True by (auto intro!: triple_ret)
  qed (simp add: slow)
  show ?thesis
    unfolding AcquireSlot_def
    by (rule triple_bind [OF p_gets], rule triple_if, rule triple_ret, simp, rule triple_bind [OF p_gets],
        rule triple_bind_value [OF total], rule triple_bind [OF cached], rule take)
qed

lemma p_AcquireSpecificSlot:
  assumes "unat (snd st) \<le> length szs" and "unat (snd st) < 2 ^ 31"
  shows "triple (pool st szs) (AcquireSpecificSlot fuel env idx t)
    (\<lambda>r a. acquired_slot env st szs r a \<and> (\<forall>j. r = Ret j \<longrightarrow> j = idx \<or> j = - 1))"
proof -
  have sint: "sint (snd st) = int (unat (snd st))"
    using assms(2) by (intro sint_small) (simp add: word_less_nat_alt)
  have loop: "triple (pool st szs) (obind (specific_loop fuel env (nat idx) t' 0 None)
      (\<lambda>claimed. ret (Ret (if claimed then idx else - 1))))
      (\<lambda>r a. acquired_slot env st szs r a \<and> (\<forall>j. r = Ret j \<longrightarrow> j = idx \<or> j = - 1))"
    if "0 \<le> idx" "idx < int (unat (snd st))" for t'
    using that assms nat_less_iff [of idx "unat (snd st)"]
    by (intro triple_obind [where Q = "\<lambda>ok a. if ok then just_claimed env st szs (nat idx) a else pool st szs a",
          OF triple_weaken [OF p_specific_loop]]) (auto intro!: triple_ret split: outcome.splits)
  have valid: "triple (pool st szs) (gets (\<lambda>a. host_slot a idx))
      (\<lambda>x a. x = (0 \<le> idx \<and> idx < int (unat (snd st))) \<and> pool st szs a)"
    by (rule triple_gets) (use sint in \<open>auto simp: pool_def host_slot_def\<close>)
  show ?thesis
    unfolding AcquireSpecificSlot_def
    by (rule triple_bind [OF p_gets], rule triple_bind_value [OF valid], intro triple_if triple_bind [OF p_gets] loop)
      (auto intro!: triple_ret)
qed

end

text \<open>
  What a send with a copy ends in, on a slot whose request buffer has \<open>mq\<close> bytes: bad
  arguments are refused and free the slot, everything else is a remote call on the bytes.
\<close>

definition send_result ::
  "handler \<Rightarrow> u32 \<Rightarrow> byte list option \<Rightarrow> i32 \<Rightarrow> MsgType \<Rightarrow> byte list \<Rightarrow>
   (int result \<times> byte list) outcome \<Rightarrow> slot \<Rightarrow> bool" where
  "send_result g mq data sz mt out r s' =
     (if sz \<noteq> 0 \<and> data = None then r = Ret (Inl InvalidArgs, out) \<and> state_of s' = SLOT_FREE
      else if absSize sz > mq then r = Ret (Inl BufferTooSmall, out) \<and> state_of s' = SLOT_FREE
      else case g mt (if sz = 0 then [] else the data) of (ty, reply, _) \<Rightarrow> rpc_outcome True ty reply out r s')"

text \<open>
  The slot the caller owns: nobody but the guest that answers it touches the transaction.
\<close>

locale owned_slot = shaped_pool +
  fixes g :: handler and j :: nat
  assumes guest: "slot_rely env j (guest_rely g)"
begin

lemma holding_poll:
  assumes "holding st szs j a" and "j < length szs"
  shows "holding st szs j (poll env ms a)"
proof -
  have "core (slots (interference env (tick a) ms a) ! j) = core (slots a ! j)"
    using slot_rely.within_rely [OF guest, of a "tick a" ms] assms pool_length [of st szs a]
    by (auto simp: guest_rely_def host_owned_def holding_def)
  then have "state_of (slots (poll env ms a) ! j) = state_of (slots a ! j)"
    unfolding poll_def by (metis alloc.select_convs(1) alloc.surjective alloc.update_convs(11) core_fields(1))
  then show ?thesis
    using assms(1) pool_poll by (auto simp: holding_def)
qed

lemma w_send:
  assumes "holding st szs (nat idx) a" and "0 \<le> idx" and "nat idx < unat (snd st)" and "unat (snd st) < 2 ^ 31"
    and "unat (snd st) \<le> length szs" and "absSize sz \<le> maxReqSize (slots a ! nat idx)"
    and "request_bytes sz (slots a ! nat idx) = d"
    and "\<And>ty reply e. g mt d = (ty, reply, e) \<Longrightarrow> length reply \<le> unat (maxRespSize (slots a ! nat idx))"
    and slot: "nat idx = j"
  shows "wp (SendAcquired fuel env idx sz mt out t)
    (\<lambda>r b. case g mt d of (ty, reply, _) \<Rightarrow> rpc_outcome True ty reply out r (slots b ! nat idx)) a"
proof -
  obtain ty reply e where g: "g mt d = (ty, reply, e)"
    by (cases "g mt d")
  have pool: "shapes szs a" "numSlots a = snd st"
    using assms(1) by (auto simp: holding_def pool_def)
  have i: "nat idx < length (slots a)" and ok: "slot_ok (slots a ! nat idx)"
    using assms(3,5) shapes_slot [OF pool(1)] shapes_length [OF pool(1)] by auto
  have hs: "host_slot a idx"
    using assms(2-4) pool(2) by (simp add: host_slot_def sint_small word_less_nat_alt nat_less_iff)
  have "wp (SendAcquired fuel env idx sz mt out t) (\<lambda>r b. rpc_outcome True ty reply out r (slots b ! nat idx)) a"
    by (rule wp_SendAcquired_remote_call [OF guest [folded slot] hs i refl ok _ assms(6)])
      (use assms(1,7,8) g in \<open>auto simp: holding_def\<close>)
  then show ?thesis
    using g by simp
qed

lemma p_fill:
  assumes idx: "0 \<le> idx" "nat idx < unat (snd st)" "unat (snd st) < 2 ^ 31"
    and "unat (snd st) \<le> length szs" and sz: "szs ! nat idx = (mq, mr)"
    and data: "\<And>d. data = Some d \<Longrightarrow> length d = unat (absSize sz)" and slot: "nat idx = j"
  shows "triple (holding st szs (nat idx)) (fill_request env idx data sz) (\<lambda>r b. case r of
      Ret None \<Rightarrow> holding st szs (nat idx) b \<and> absSize sz \<le> mq \<and> (sz = 0 \<or> data \<noteq> None) \<and>
        request_bytes sz (slots b ! nat idx) = (if sz = 0 then [] else the data)
    | Ret (Some e) \<Rightarrow> state_of (slots b ! nat idx) = SLOT_FREE \<and> sz \<noteq> 0 \<and>
        (if data = None then e = InvalidArgs else e = BufferTooSmall \<and> absSize sz > mq)
    | _ \<Rightarrow> False)"
  unfolding triple_def
proof (intro allI impI)
  fix a
  assume a: "holding st szs (nat idx) a"
  let ?i = "nat idx" and ?b = "poll env 0 a"
  have i: "?i < length szs"
    using idx(2) assms(4) by simp
  have b: "holding st szs ?i ?b"
    by (rule holding_poll [folded slot, OF a i])
  have shape: "slot_ok (slots c ! ?i)" "sizes (slots c ! ?i) = (mq, mr)" if "holding st szs ?i c" for c
    using that shapes_slot [OF _ i, of c] sz by (auto simp: holding_def pool_def sizes_def)
  have hs: "host_slot a idx"
    using a idx by (auto simp: holding_def pool_def host_slot_def sint_small word_less_nat_alt nat_less_iff)
  have free: "state_of (slots (upd_slot ?i (upd_header (h_state_update (\<lambda>_. SLOT_FREE))) ?b) ! ?i) = SLOT_FREE"
    using b i pool_length [of st szs ?b] by (simp add: holding_def) (simp add: upd_header_def)
  note fill = fill_request_def wp_rules wp_store wp_load GetMaxReqSize_def Let_def
  consider "sz = 0" | "sz \<noteq> 0" "data = None" | d where "sz \<noteq> 0" "data = Some d" "absSize sz > mq"
    | d where "sz \<noteq> 0" "data = Some d" "absSize sz \<le> mq"
    by (cases "sz = 0"; cases data; cases "absSize sz \<le> mq") (auto simp: not_le)
  then show "wp (fill_request env idx data sz) (\<lambda>r b. case r of
      Ret None \<Rightarrow> holding st szs (nat idx) b \<and> absSize sz \<le> mq \<and> (sz = 0 \<or> data \<noteq> None) \<and>
        request_bytes sz (slots b ! nat idx) = (if sz = 0 then [] else the data)
    | Ret (Some e) \<Rightarrow> state_of (slots b ! nat idx) = SLOT_FREE \<and> sz \<noteq> 0 \<and>
        (if data = None then e = InvalidArgs else e = BufferTooSmall \<and> absSize sz > mq)
    | _ \<Rightarrow> False) a"
  proof cases
    case 1
    then show ?thesis
      using a by (simp add: fill request_bytes_def resp_window_def absSize_def clamp_resp_def)
  next
    case 2
    then show ?thesis
      using free by (simp add: fill)
  next
    case 3
    then show ?thesis
      using free hs shape(2) [OF a] by (simp add: fill sizes_def)
  next
    case (4 d)
    let ?off = "if 0 \<le>s sz then 0 else unat (mq - absSize sz)" and ?s = "slots ?b ! ?i"
    obtain tail where copy: "?off \<le> length (reqBuffer ?s)"
        "CopySmall (unat (absSize sz)) d (drop ?off (reqBuffer ?s)) = Some tail"
      and ok: "slot_ok (reqBuffer_update (\<lambda>_. take ?off (reqBuffer ?s) @ tail) ?s)"
        "request_bytes sz (reqBuffer_update (\<lambda>_. take ?off (reqBuffer ?s) @ tail) ?s) = d"
      using fill_window [of ?s sz d] shape [OF b] 4(3) data [OF 4(2)] by (auto simp: sizes_def)
    have "holding st szs ?i (upd_slot ?i (reqBuffer_update (\<lambda>_. take ?off (reqBuffer ?s) @ tail)) ?b)"
      by (rule holding_upd_req [OF b i ok(1)])
    moreover have "?i < length (slots ?b)"
      using b i pool_length [of st szs ?b] by (simp add: holding_def)
    ultimately show ?thesis
      using hs shape(2) [OF a] 4 copy ok(2) leD [OF 4(3)] by (cases "0 \<le>s sz") (simp_all add: fill sizes_def)
  qed
qed

lemma p_transact:
  assumes "0 \<le> idx" and "nat idx < unat (snd st)" and "unat (snd st) < 2 ^ 31"
    and "unat (snd st) \<le> length szs" and sz: "szs ! nat idx = (mq, mr)"
    and data: "\<And>d. data = Some d \<Longrightarrow> length d = unat (absSize sz)"
    and fits: "\<And>d ty reply e. g mt d = (ty, reply, e) \<Longrightarrow> length reply \<le> unat mr" and slot: "nat idx = j"
  shows "triple (holding st szs (nat idx))
    (obind (fill_request env idx data sz) (\<lambda>e. case e of Some err \<Rightarrow> ret (Ret (Inl err, out))
       | None \<Rightarrow> SendAcquired fuel env idx sz mt out t))
    (\<lambda>r b. send_result g mq data sz mt out r (slots b ! nat idx))"
proof -
  have shape: "maxReqSize (slots b ! nat idx) = mq" "maxRespSize (slots b ! nat idx) = mr"
    if "holding st szs (nat idx) b" for b
    using that shapes_slot [of szs b "nat idx"] assms(2,4) sz by (auto simp: holding_def pool_def)
  have send: "wp (SendAcquired fuel env idx sz mt out t) (\<lambda>r b. send_result g mq data sz mt out r (slots b ! nat idx)) b"
    if b: "holding st szs (nat idx) b" and "absSize sz \<le> mq" "sz = 0 \<or> data \<noteq> None"
      and d: "request_bytes sz (slots b ! nat idx) = (if sz = 0 then [] else the data)" for b
    using w_send [OF b assms(1-4) _ d _ slot, of mt fuel out t] shape [OF b] fits that(2,3)
    by (auto simp: send_result_def elim!: wp_mono)
  let ?Q = "\<lambda>e b. case e of
      None \<Rightarrow> holding st szs (nat idx) b \<and> absSize sz \<le> mq \<and> (sz = 0 \<or> data \<noteq> None) \<and>
        request_bytes sz (slots b ! nat idx) = (if sz = 0 then [] else the data)
    | Some e \<Rightarrow> state_of (slots b ! nat idx) = SLOT_FREE \<and> sz \<noteq> 0 \<and>
        (if data = None then e = InvalidArgs else e = BufferTooSmall \<and> absSize sz > mq)"
  have run: "triple (?Q e) (case e of Some err \<Rightarrow> ret (Ret (Inl err, out)) | None \<Rightarrow> SendAcquired fuel env idx sz mt out t)
      (\<lambda>r b. send_result g mq data sz mt out r (slots b ! nat idx))" for e
  proof (cases e)
    case None
    show ?thesis
      unfolding None option.case triple_def using send by blast
  next
    case (Some err)
    show ?thesis
      unfolding Some option.case by (rule triple_ret) (auto simp: send_result_def split: if_splits)
  qed
  show ?thesis
    by (rule triple_obind [where Q = ?Q, OF triple_weaken [OF p_fill [OF assms(1-5) data slot]] run])
      (auto split: outcome.splits option.splits)
qed

end

section \<open>From the claim on\<close>

text \<open>
  A run that starts at tick \<open>T\<close> or later sees only what the environment does from \<open>T\<close> on, so
  it may be moved to an environment that is idle before.
\<close>

definition env_from :: "nat \<Rightarrow> env \<Rightarrow> env" where
  "env_from T env = env\<lparr>interference := (\<lambda>k ms a. if T \<le> k then interference env k ms a else a)\<rparr>"

definition same_from :: "nat \<Rightarrow> (alloc, 'a) state \<Rightarrow> (alloc, 'a) state \<Rightarrow> bool" where
  "same_from T m n = (\<forall>a. T \<le> tick a \<longrightarrow> run_state n a = run_state m a \<and> T \<le> tick (snd (run_state m a)))"

named_theorems from_tick \<open>operations that see only the later interference\<close>

lemma poll_env_from: "T \<le> tick a \<Longrightarrow> poll (env_from T env) ms a = poll env ms a"
  by (simp add: poll_def env_from_def)

lemma tick_after_poll: "T \<le> tick a \<Longrightarrow> T \<le> tick (poll env ms a)"
  by (simp add: poll_def)

lemma from_bind [from_tick]:
  "same_from T m m' \<Longrightarrow> (\<And>x. same_from T (f x) (f' x)) \<Longrightarrow> same_from T (m \<bind> f) (m' \<bind> f')"
  by (force simp: same_from_def split: prod.splits)

lemma from_obind [from_tick]:
  "same_from T m m' \<Longrightarrow> (\<And>x. same_from T (f x) (f' x)) \<Longrightarrow> same_from T (obind m f) (obind m' f')"
  by (force simp: same_from_def obind_def split: prod.splits outcome.splits)

lemma from_if [from_tick]:
  "same_from T m m' \<Longrightarrow> same_from T n n' \<Longrightarrow> same_from T (if b then m else n) (if b then m' else n')"
  by simp

lemma from_case_option [from_tick]:
  "same_from T m m' \<Longrightarrow> (\<And>x. same_from T (f x) (f' x)) \<Longrightarrow> same_from T (case_option m f v) (case_option m' f' v)"
  by (cases v) simp_all

lemma from_ret [from_tick]: "same_from T (ret x) (ret x)"
  by (simp add: same_from_def)

lemma from_gets [from_tick]: "same_from T (gets f) (gets f)"
  by (simp add: same_from_def)

lemma from_upd_slot [from_tick]: "same_from T (modify (upd_slot i f)) (modify (upd_slot i f))"
  by (simp add: same_from_def upd_slot_def)

lemma from_steady_now [from_tick]: "same_from T (steady_now env) (steady_now (env_from T env))"
  by (simp add: same_from_def env_from_def)

lemma from_load [from_tick]: "same_from T (load env i f) (load (env_from T env) i f)"
  by (simp add: same_from_def load_def poll_env_from tick_after_poll Let_def)

lemma from_store [from_tick]: "same_from T (store env i f) (store (env_from T env) i f)"
  by (simp add: same_from_def store_def poll_env_from tick_after_poll upd_slot_def)

lemma from_signal [from_tick]: "same_from T (signal env h) (signal (env_from T env) h)"
  by (simp add: same_from_def signal_def poll_env_from tick_after_poll)

lemma from_wait_event [from_tick]: "same_from T (wait_event env h ms) (wait_event (env_from T env) h ms)"
  by (simp add: same_from_def wait_event_def poll_env_from tick_after_poll Let_def split: prod.splits)

lemma from_checkReady [from_tick]: "same_from T (checkReady env i) (checkReady (env_from T env) i)"
  unfolding checkReady_def by (intro from_tick)

lemma from_spin [from_tick]: "same_from T c c' \<Longrightarrow> same_from T (spin n c) (spin n c')"
  by (induction n) (auto intro!: from_tick)

lemma from_resp_sleep_loop [from_tick]:
  "same_from T (resp_sleep_loop fuel env i t start) (resp_sleep_loop fuel (env_from T env) i t start)"
  by (induction fuel) (simp_all only: resp_sleep_loop.simps Let_def, (intro from_tick | assumption)+)

lemma from_resp_sleepAction [from_tick]:
  "same_from T (resp_sleepAction fuel env i t) (resp_sleepAction fuel (env_from T env) i t)"
  unfolding resp_sleepAction_def by (intro from_tick)

lemma from_WaitResponse [from_tick]: "same_from T (WaitResponse fuel env i t) (WaitResponse fuel (env_from T env) i t)"
  unfolding WaitResponse_def publish_request_def WaitForRespReady_def Wait_def FinishWait_def by (intro from_tick)

lemma from_SendAcquired [from_tick]:
  "same_from T (SendAcquired fuel env idx sz mt out t) (SendAcquired fuel (env_from T env) idx sz mt out t)"
  unfolding SendAcquired_def write_request_def consume_response_def Let_def by (intro from_tick)

lemma from_fill_request [from_tick]:
  "same_from T (fill_request env idx data sz) (fill_request (env_from T env) idx data sz)"
  unfolding fill_request_def GetMaxReqSize_def Let_def by (intro from_tick)

text \<open>The transaction on the slot that has been acquired, shared by \<open>Send\<close> and \<open>SendToSlot\<close>.\<close>

abbreviation transact ::
  "nat \<Rightarrow> env \<Rightarrow> byte list option \<Rightarrow> i32 \<Rightarrow> MsgType \<Rightarrow> byte list \<Rightarrow> u32 \<Rightarrow> int \<Rightarrow>
   (alloc, (int result \<times> byte list) outcome) state" where
  "transact fuel env data sz mt out t idx \<equiv>
     obind (fill_request env idx data sz) (\<lambda>e. case e of
         Some err \<Rightarrow> ret (Ret (Inl err, out))
       | None \<Rightarrow> SendAcquired fuel env idx sz mt out t)"

lemma transact_env_from:
  "T \<le> tick a \<Longrightarrow> wp (transact fuel (env_from T env) data sz mt out t idx) Q a \<Longrightarrow> wp (transact fuel env data sz mt out t idx) Q a"
proof -
  have "same_from T (transact fuel env data sz mt out t idx) (transact fuel (env_from T env) data sz mt out t idx)"
    by (intro from_tick)
  then show "T \<le> tick a \<Longrightarrow> wp (transact fuel (env_from T env) data sz mt out t idx) Q a \<Longrightarrow>
      wp (transact fuel env data sz mt out t idx) Q a"
    by (simp add: same_from_def wp_def)
qed

text \<open>From tick \<open>T\<close> on the others treat slot \<open>i\<close> as the property of the thread that claimed it.\<close>

definition yields_slot :: "env \<Rightarrow> handler \<Rightarrow> nat \<Rightarrow> nat \<Rightarrow> bool" where
  "yields_slot env g i T = (\<forall>k ms a. T \<le> k \<longrightarrow> i < length (slots a) \<longrightarrow>
     guest_rely g (slots a ! i) (slots (interference env k ms a) ! i))"

text \<open>What a call ends in, given what the acquisition returned.\<close>

definition call_result ::
  "handler \<Rightarrow> u32 \<Rightarrow> byte list option \<Rightarrow> i32 \<Rightarrow> MsgType \<Rightarrow> byte list \<Rightarrow> int outcome \<Rightarrow>
   (int result \<times> byte list) outcome \<times> alloc \<Rightarrow> bool" where
  "call_result g mq data sz mt out acq rb = (case acq of
     Ret j \<Rightarrow> if j < 0 then fst rb = Ret (Inl ResourceExhausted, out)
       else send_result g mq data sz mt out (fst rb) (slots (snd rb) ! nat j)
   | Trap \<Rightarrow> False
   | NoFuel \<Rightarrow> fst rb = NoFuel)"

context shaped_pool
begin

lemma shaped_from: "shaped_pool (env_from T env)"
proof
  fix i k ms a
  show "length (slots (interference (env_from T env) k ms a)) = length (slots a)"
    "msgSeqStride (interference (env_from T env) k ms a) = msgSeqStride a"
    "numSlots (interference (env_from T env) k ms a) = numSlots a"
    using slot_rely.keeps_slots [OF shaped] slot_rely.keeps_stride [OF shaped] slot_rely.keeps_numSlots [OF shaped]
    by (simp_all add: env_from_def)
  show "shape_rely (slots a ! i) (slots (interference (env_from T env) k ms a) ! i)" if "i < length (slots a)"
    using slot_rely.within_rely [OF shaped that, of k ms] by (simp add: env_from_def shape_rely_def)
qed

lemma owned_from:
  assumes "yields_slot env g i T"
  shows "owned_slot (env_from T env) g i"
proof (rule owned_slot.intro [OF shaped_from], unfold_locales)
  fix k ms a
  show "length (slots (interference (env_from T env) k ms a)) = length (slots a)"
    "msgSeqStride (interference (env_from T env) k ms a) = msgSeqStride a"
    "numSlots (interference (env_from T env) k ms a) = numSlots a"
    using slot_rely.keeps_slots [OF shaped] slot_rely.keeps_stride [OF shaped] slot_rely.keeps_numSlots [OF shaped]
    by (simp_all add: env_from_def)
  show "guest_rely g (slots a ! i) (slots (interference (env_from T env) k ms a) ! i)" if "i < length (slots a)"
    using assms that by (simp add: env_from_def yields_slot_def guest_rely_def)
qed

text \<open>A claim that is respected is still held when the acquisition returns.\<close>

lemma claimed_holding:
  assumes "just_claimed env st szs i a" and "yields_slot env g i (tick a - 1)" and "i < length szs"
  shows "holding st szs i a"
proof -
  obtain c f where c: "holding st szs i c" "tick a = Suc (tick c)"
      "slots a = slots (upd_slot i (upd_header (h_lease_update f)) (poll env 0 c))" and a: "pool st szs a"
    using assms(1) by (auto simp: just_claimed_def)
  have "poll (env_from (tick c) env) 0 c = poll env 0 c"
    by (rule poll_env_from) simp
  then have "holding st szs i (poll env 0 c)"
    using owned_slot.holding_poll [OF owned_from c(1) assms(3), of g "tick c" 0] assms(2) c(2) by simp
  then show ?thesis
    using a c(3) pool_length [of st szs "poll env 0 c"] assms(3)
    by (simp add: holding_def) (simp add: upd_slot_def upd_header_def)
qed

lemma host_send_owned:
  assumes acq: "triple (pool st szs) m (acquired_slot env st szs)" and a: "pool st szs a"
    and "unat (snd st) \<le> length szs" and "szs = replicate n (mq, mr)"
    and data: "\<And>d. data = Some d \<Longrightarrow> length d = unat (absSize sz)"
    and fits: "\<And>d ty reply e. g mt d = (ty, reply, e) \<Longrightarrow> length reply \<le> unat mr"
    and owns: "\<And>j b. run_state m a = (Ret j, b) \<Longrightarrow> 0 \<le> j \<Longrightarrow> yields_slot env g (nat j) (tick b - 1)"
  shows "call_result g mq data sz mt out (fst (run_state m a)) (run_state (obind m (\<lambda>idx.
       if idx < 0 then ret (Ret (Inl ResourceExhausted, out)) else transact fuel env data sz mt out t idx)) a)"
proof -
  obtain x b where run: "run_state m a = (x, b)"
    by (cases "run_state m a")
  have got: "acquired_slot env st szs x b"
    by (rule triple_run [OF acq a run])
  have key: "wp (transact fuel env data sz mt out t j) (\<lambda>r c. send_result g mq data sz mt out r (slots c ! nat j)) b"
    if x: "x = Ret j" "0 \<le> j" for j
  proof -
    have j: "nat j < unat (snd st)" "unat (snd st) < 2 ^ 31" "just_claimed env st szs (nat j) b"
      using got x by (simp_all)
    have own: "yields_slot env g (nat j) (tick b - 1)"
      using owns run x by simp
    have hold: "holding st szs (nat j) b"
      by (rule claimed_holding [OF j(3) own]) (use j(1) assms(3) in simp)
    have "szs ! nat j = (mq, mr)"
      using j(1) assms(3,4) by simp
    then have "wp (transact fuel (env_from (tick b - 1) env) data sz mt out t j)
        (\<lambda>r c. send_result g mq data sz mt out r (slots c ! nat j)) b"
      by (intro triple_wp [OF owned_slot.p_transact [OF owned_from [OF own] x(2) j(1,2) assms(3)] hold])
        (use data fits in auto)
    then show ?thesis
      by (rule transact_env_from [rotated]) simp
  qed
  show ?thesis
    using run got key
    by (cases x) (auto simp: call_result_def obind_def wp_def split: prod.splits)
qed

end

text \<open>
  C1. Sending is a remote procedure call, acquisition included. Other host threads, guests and
  reclaimers may take, use, steal and free every slot at every moment as long as they leave the
  sizes of the buffers alone; once the caller's compare and swap has won a slot they leave that
  slot to the caller and to a guest that answers with a handler \<open>g\<close> whose replies fit. Then
  \<open>SendToSlot\<close> and \<open>Send\<close> return the reply of \<open>g\<close> to exactly the caller's bytes and message type
  and free the slot, for either sign of the size; \<open>SYSTEM_ERROR\<close> is reported as
  \<open>InternalError\<close>; NULL data and too large data are refused and the slot is freed; the only
  other end of the transaction is a timeout. When no slot was won the result is
  \<open>ResourceExhausted\<close>. No access leaves a buffer. The respect for the slot that was won is a
  hypothesis, and the protocol does not give it in every run: a second claimer that read
  \<open>activeWait\<close> before the owner set it can steal the slot of a live transaction, and a
  reclaimer whose clock runs ahead can free it.
\<close>

theorem host_send_is_remote_call:
  assumes "shaped_pool env" and "list_all slot_ok (slots a)" and "map sizes (slots a) = replicate n (mq, mr)"
    and "0 < unat (numSlots a)" and "unat (numSlots a) \<le> n" and "n < 2 ^ 31"
    and "\<And>d. data = Some d \<Longrightarrow> length d = unat (absSize sz)"
    and "\<And>d ty reply e. g mt d = (ty, reply, e) \<Longrightarrow> length reply \<le> unat mr"
    and "\<And>j b. run_state (AcquireSpecificSlot fuel env (sint slotIdx) t) a = (Ret j, b) \<Longrightarrow> 0 \<le> j \<Longrightarrow>
      yields_slot env g (nat j) (tick b - 1)"
    and "\<And>j b. run_state (AcquireSlot fuel env) a = (Ret j, b) \<Longrightarrow> 0 \<le> j \<Longrightarrow> yields_slot env g (nat j) (tick b - 1)"
  shows "fst (run_state (AcquireSpecificSlot fuel env (sint slotIdx) t) a) \<in> {Ret (sint slotIdx), Ret (- 1), NoFuel} \<and>
    call_result g mq data sz mt out (fst (run_state (AcquireSpecificSlot fuel env (sint slotIdx) t) a))
      (run_state (SendToSlot fuel env slotIdx data sz mt out t) a) \<and>
    call_result g mq data sz mt out (fst (run_state (AcquireSlot fuel env) a))
      (run_state (host_Send fuel env data sz mt out t) a)"
proof -
  let ?st = "config a" and ?szs = "replicate n (mq, mr)"
  have a: "pool ?st ?szs a"
    using assms(2,3) by (simp add: pool_def shapes_def)
  have n: "unat (snd ?st) \<le> length ?szs" "length ?szs < 2 ^ 31" "snd ?st \<noteq> 0" "unat (snd ?st) < 2 ^ 31"
    using assms(4-6) by auto
  have spec: "triple (pool ?st ?szs) (AcquireSpecificSlot fuel env (sint slotIdx) t)
      (\<lambda>r a. acquired_slot env ?st ?szs r a \<and> (\<forall>j. r = Ret j \<longrightarrow> j = sint slotIdx \<or> j = - 1))"
    by (rule shaped_pool.p_AcquireSpecificSlot [OF assms(1) n(1,4)])
  then have acq: "triple (pool ?st ?szs) (AcquireSpecificSlot fuel env (sint slotIdx) t) (acquired_slot env ?st ?szs)"
    by (rule triple_weaken) (assumption, erule conjunct1)
  have "fst (run_state (AcquireSpecificSlot fuel env (sint slotIdx) t) a) \<in> {Ret (sint slotIdx), Ret (- 1), NoFuel}"
    using triple_run [OF spec a] by (cases "run_state (AcquireSpecificSlot fuel env (sint slotIdx) t) a") (force split: outcome.splits)
  moreover have "call_result g mq data sz mt out (fst (run_state (AcquireSpecificSlot fuel env (sint slotIdx) t) a))
      (run_state (SendToSlot fuel env slotIdx data sz mt out t) a)"
    unfolding SendToSlot_def
    by (rule shaped_pool.host_send_owned [OF assms(1) acq a n(1) refl assms(7-9)])
  moreover have "call_result g mq data sz mt out (fst (run_state (AcquireSlot fuel env) a))
      (run_state (host_Send fuel env data sz mt out t) a)"
    unfolding host_Send_def
    by (rule shaped_pool.host_send_owned [OF assms(1) shaped_pool.p_AcquireSlot [OF assms(1) n(1-3)] a n(1) refl assms(7,8,10)])
  ultimately show ?thesis
    by blast
qed

section \<open>A guest that serves the pool\<close>

text \<open>Every slot in service is answered at once, unless the reply is too long for its buffer.\<close>

definition serve_fitting :: "handler \<Rightarrow> slot \<Rightarrow> slot" where
  "serve_fitting g s =
     (if in_service s \<and> length (fst (snd (g (h_msgType (header s)) (req_window s)))) \<le> unat (maxRespSize s)
      then answer g s else s)"

definition pool_env :: "handler \<Rightarrow> env" where
  "pool_env g = quiet_env\<lparr>interference := (\<lambda>k ms. slots_update (map (serve_fitting g)))\<rparr>"

lemma shape_answer:
  assumes "slot_ok s" and "length (fst (snd (g (h_msgType (header s)) (req_window s)))) \<le> unat (maxRespSize s)"
  shows "shape_rely s (answer g s)"
  using assms by (auto simp: shape_rely_def answer_def slot_ok_def place_response_def upd_header_def split: prod.splits)

lemma serve_fitting_shape: "shape_rely s (serve_fitting g s)"
  using shape_answer [of s g] by (auto simp: serve_fitting_def shape_rely_def)

lemma serve_fitting_guest: "guest_rely g s (serve_fitting g s)"
  by (auto simp: serve_fitting_def guest_rely_def host_owned_def in_service_def)

interpretation pool_guest: owned_slot "pool_env g" g j for g j
  by unfold_locales (simp_all add: pool_env_def serve_fitting_shape serve_fitting_guest)

text \<open>
  Another host thread on the same pool: it takes slot 0 before the caller gets there, keeps
  it while the caller's transaction runs and frees it later; the guest serves all slots.
\<close>

definition competitor :: "nat \<Rightarrow> slot \<Rightarrow> slot" where
  "competitor k s = (if k = 1 \<and> state_of s = SLOT_FREE then upd_header (h_state_update (\<lambda>_. SLOT_BUSY)) s
     else if k = 20 then upd_header (h_state_update (\<lambda>_. SLOT_FREE)) s else s)"

definition rival_env :: "handler \<Rightarrow> env" where
  "rival_env g = quiet_env\<lparr>interference := (\<lambda>k ms. slots_update (\<lambda>ss. case map (serve_fitting g) ss of
     [] \<Rightarrow> [] | s # rest \<Rightarrow> competitor k s # rest))\<rparr>"

definition idle_slot :: slot where
  "idle_slot = upd_header (h_state_update (\<lambda>_. SLOT_FREE)) demo_slot"

definition rival_pool :: alloc where
  "rival_pool = demo_alloc\<lparr>numSlots := 2, slots := [idle_slot, idle_slot], cachedSlotIdx := 0, nextSlot := 1\<rparr>"

definition short_handler :: handler where
  "short_handler mt req = (mt, take 4 (rev req), True)"

lemma rival_shaped: "shaped_pool (rival_env g)"
proof
  fix i k ms a
  show "length (slots (interference (rival_env g) k ms a)) = length (slots a)"
    "msgSeqStride (interference (rival_env g) k ms a) = msgSeqStride a"
    "numSlots (interference (rival_env g) k ms a) = numSlots a"
    by (simp_all add: rival_env_def split: list.splits) (metis length_Cons length_map)
  show "shape_rely (slots a ! i) (slots (interference (rival_env g) k ms a) ! i)" if "i < length (slots a)"
    using that serve_fitting_shape [of _ g]
    by (cases "slots a"; cases i) (auto simp: rival_env_def competitor_def shape_rely_def slot_ok_def upd_header_def)
qed

lemma rival_yields: "i \<noteq> 0 \<Longrightarrow> yields_slot (rival_env g) g i T"
  unfolding yields_slot_def
proof (intro allI impI)
  fix k ms a
  show "i \<noteq> 0 \<Longrightarrow> i < length (slots a) \<Longrightarrow> guest_rely g (slots a ! i) (slots (interference (rival_env g) k ms a) ! i)"
    by (cases "slots a"; cases i) (simp_all add: rival_env_def serve_fitting_guest)
qed

lemma rival_poll:
  "slots a = [s, s'] \<Longrightarrow> \<not> in_service s \<Longrightarrow> \<not> in_service s' \<Longrightarrow>
    poll (rival_env g) ms a = a\<lparr>slots := [competitor (tick a) s, s'], tick := Suc (tick a)\<rparr>"
  by (simp add: poll_def rival_env_def serve_fitting_def)

lemma competitor_idle: "\<not> in_service s \<Longrightarrow> \<not> in_service (competitor k s)"
  by (simp add: upd_header_def competitor_def in_service_def)

lemma rival_beats_caller:
  assumes "slots a = [s, s']" and "tick a = 0" and "state_of s = SLOT_FREE" and "state_of s' = SLOT_FREE"
  shows "run_state (tryClaimSlot (rival_env g) 0) a = (False, a\<lparr>slots := [competitor 1 s, s'], tick := 2\<rparr>)"
proof -
  let ?e = "rival_env g"
  have idle: "\<not> in_service s" "\<not> in_service s'"
    using assms(3,4) by (simp_all add: in_service_def)
  have "competitor 0 s = s"
    by (simp add: competitor_def)
  then have polls: "poll ?e 0 (poll ?e 0 a) = a\<lparr>slots := [competitor 1 s, s'], tick := 2\<rparr>"
    using assms(1,2) idle by (simp add: rival_poll numeral_2_eq_2)
  moreover have "state_of (competitor 1 s) = SLOT_BUSY"
    using assms(3) by (simp add: competitor_def upd_header_def)
  ultimately show ?thesis
    by (simp add: tryClaimSlot_def load_def stealable_def Let_def)
qed

lemma caller_wins_other_slot:
  assumes "slots a = [s, s']" and "\<not> in_service s" and "state_of s' = SLOT_FREE"
  shows "fst (run_state (tryClaimSlot (rival_env g) 1) a)"
proof -
  have "\<not> in_service (upd_header (h_gen_update f) s')" "\<not> in_service s'" for f
    using assms(3) by (simp_all add: in_service_def upd_header_def)
  then show ?thesis
    using assms by (simp add: tryClaimSlot_def load_def store_def cas_state_def rival_poll competitor_idle upd_slot_def Let_def)
      (simp add: upd_header_def case_prod_unfold)
qed

lemma rival_pool_slots:
  "slots rival_pool = [idle_slot, idle_slot]" "tick rival_pool = 0" "state_of idle_slot = SLOT_FREE"
  "numSlots rival_pool = 2" "running rival_pool" "cachedSlotIdx rival_pool = 0" "nextSlot rival_pool = 1"
  by (simp_all add: rival_pool_def demo_alloc_def idle_slot_def upd_header_def)

lemma caller_gets_slot_1:
  "fst (run_state (AcquireSlot 3 (rival_env g)) rival_pool) = Ret 1"
  "fst (run_state (AcquireSpecificSlot 3 (rival_env g) 1 100) rival_pool) = Ret 1"
proof -
  let ?e = "rival_env g"
  let ?b = "rival_pool\<lparr>slots := [competitor 1 idle_slot, idle_slot], tick := 2\<rparr>"
  have idle: "\<not> in_service idle_slot"
    using rival_pool_slots(3) by (simp add: in_service_def)
  have first: "run_state (tryClaimSlot ?e 0) rival_pool = (False, ?b)"
    by (rule rival_beats_caller) (simp_all add: rival_pool_slots)
  have claim: "\<exists>d. run_state (tryClaimSlot ?e 1) c = (True, d)" if "slots c = [s, idle_slot]" "\<not> in_service s" for c s
    using caller_wins_other_slot [OF that rival_pool_slots(3), of g] by (metis (full_types) prod.collapse)
  have loop: "fst (run_state (acquire_loop (Suc 2) ?e 1) c) = Ret 1" if "slots c = [s, idle_slot]" "\<not> in_service s" for c s
    unfolding acquire_loop.simps using claim [OF that] by auto
  have "poll ?e 0 ?b = ?b\<lparr>slots := [competitor 2 (competitor 1 idle_slot), idle_slot], tick := 3\<rparr>"
    using idle by (simp add: rival_poll competitor_idle)
  then have turn: "run_state (fetch_next ?e) ?b =
      (1, ?b\<lparr>slots := [competitor 2 (competitor 1 idle_slot), idle_slot], tick := 3, nextSlot := 2\<rparr>)"
    by (simp add: fetch_next_def rival_pool_slots Let_def)
  have "fst (run_state (AcquireSlot (Suc 2) ?e) rival_pool) = Ret 1"
    unfolding AcquireSlot_def using first turn idle
    by (simp add: rival_pool_slots loop [simplified] competitor_idle)
  then show "fst (run_state (AcquireSlot 3 ?e) rival_pool) = Ret 1"
    by simp
  have "fst (run_state (AcquireSpecificSlot (Suc 2) ?e 1 100) rival_pool) = Ret 1"
    unfolding AcquireSpecificSlot_def specific_loop.simps using claim [of rival_pool, OF rival_pool_slots(1) idle]
    by (auto simp: rival_pool_slots host_slot_def obind_def)
  then show "fst (run_state (AcquireSpecificSlot 3 ?e 1 100) rival_pool) = Ret 1"
    by simp
qed

text \<open>The competitor wins slot 0 under the caller's eyes; the call runs on slot 1.\<close>

theorem host_send_is_remote_call_witness:
  "fst (run_state (AcquireSlot 3 (rival_env short_handler)) rival_pool) = Ret 1 \<and>
   (case run_state (host_Send 3 (rival_env short_handler) (Some [7, 8]) (- 2) NORMAL [] 100) rival_pool of (r, b) \<Rightarrow>
     rpc_outcome True NORMAL [8, 7] [] r (slots b ! 1)) \<and>
   (case run_state (SendToSlot 3 (rival_env short_handler) 1 (Some [7, 8]) (- 2) NORMAL [] 100) rival_pool of (r, b) \<Rightarrow>
     rpc_outcome True NORMAL [8, 7] [] r (slots b ! 1))"
proof -
  let ?e = "rival_env short_handler"
  have two: "absSize (- 2) = 2"
    by (simp add: absSize_def sless_0)
  have "replicate 2 x = [x, x]" for x :: "u32 \<times> u32"
    by (simp add: numeral_2_eq_2)
  then have pool: "list_all slot_ok (slots rival_pool)" "map sizes (slots rival_pool) = replicate 2 (4, 4)"
    by (simp_all add: rival_pool_slots idle_slot_def demo_slot_def slot_ok_def upd_header_def sizes_def)
  have own: "yields_slot ?e short_handler (nat j) (tick b - 1)"
    if "run_state (AcquireSpecificSlot 3 ?e (sint (1 :: u32)) 100) rival_pool = (Ret j, b) \<or>
      run_state (AcquireSlot 3 ?e) rival_pool = (Ret j, b)" for j b
    using caller_gets_slot_1 [of short_handler] that by (intro rival_yields) auto
  have "call_result short_handler 4 (Some [7, 8]) (- 2) NORMAL [] (fst (run_state (AcquireSpecificSlot 3 ?e (sint (1 :: u32)) 100) rival_pool))
      (run_state (SendToSlot 3 ?e 1 (Some [7, 8]) (- 2) NORMAL [] 100) rival_pool) \<and>
    call_result short_handler 4 (Some [7, 8]) (- 2) NORMAL [] (fst (run_state (AcquireSlot 3 ?e) rival_pool))
      (run_state (host_Send 3 ?e (Some [7, 8]) (- 2) NORMAL [] 100) rival_pool)"
    using host_send_is_remote_call [OF rival_shaped [of short_handler] pool, of "Some [7, 8]" "- 2" short_handler NORMAL 3 1 100 "[]"]
      own by (auto simp: two short_handler_def rival_pool_slots)
  then show ?thesis
    using caller_gets_slot_1 [of short_handler]
    by (auto simp: call_result_def send_result_def short_handler_def two split: prod.splits)
qed

section \<open>The response in place\<close>

text \<open>
  C33. The response window of a \<open>ZeroCopySlot\<close>. While the peer leaves the response size
  alone, \<open>GetRespBuffer\<close> and \<open>GetRespSize\<close> describe a window inside the response buffer, for
  every response size, \<open>INT32_MIN\<close> included; it is the window the copying send paths return.
\<close>

theorem zero_copy_window_in_bounds:
  assumes "wrapper_IsValid h z" and "i = nat (z_slotIdx z)" and "mx = maxRespSize (slots a ! i)" and "mx < 2 ^ 31"
    and "rs = h_respSize (header (slots a ! i))"
    and "\<And>k ms b. h_respSize (header (slots (interference env k ms b) ! i)) = h_respSize (header (slots b ! i))"
    and "\<And>k ms b. maxRespSize (slots (interference env k ms b) ! i) = maxRespSize (slots b ! i)"
    and "length buf = unat mx"
  shows "case run_state (zc_GetRespBuffer env h z) a of (Some off, b) \<Rightarrow>
      (case run_state (zc_GetRespSize env h z) b of (n, c) \<Rightarrow>
        0 \<le> n \<and> off + nat n \<le> length buf \<and> take (nat n) (drop off buf) = resp_window rs mx buf)
    | (None, b) \<Rightarrow> False"
proof -
  have n: "sint (clamp_resp rs mx) = int (unat (clamp_resp rs mx))"
    using le_less_trans [OF clamp_resp_le assms(4)] by (simp add: sint_small)
  have off: "unat (mx - clamp_resp rs mx) = unat mx - unat (clamp_resp rs mx)"
    using clamp_resp_le [of rs mx] by (simp add: unat_sub)
  have "run_state (zc_GetRespBuffer env h z) a =
      (Some (if 0 \<le>s rs then 0 else unat mx - unat (clamp_resp rs mx)), poll env 0 a)"
    using assms(1,3,5) off
    by (simp add: zc_GetRespBuffer_def load_def poll_def assms(6,7) Let_def flip: assms(2))
  moreover have "fst (run_state (zc_GetRespSize env h z) (poll env 0 a)) = int (unat (clamp_resp rs mx))"
    using assms(1,3,5) n
    by (simp add: zc_GetRespSize_def load_def poll_def assms(6,7) Let_def flip: assms(2))
  ultimately show ?thesis
    using clamp_resp_le_nat [of rs mx] assms(8)
    by (auto simp: resp_window_def Let_def split: prod.splits)
qed

definition demo_wrapper :: slot_wrapper where
  "demo_wrapper = make_wrapper DirectHost 0"

lemma demo_wrapper_valid: "wrapper_IsValid DirectHost demo_wrapper" "z_slotIdx demo_wrapper = 0"
  by (simp_all add: wrapper_IsValid_def alive_def demo_wrapper_def make_wrapper_def DirectHost_def)

theorem zero_copy_window_in_bounds_witness:
  "case run_state (zc_GetRespBuffer quiet_env DirectHost demo_wrapper) demo_alloc of (Some off, b) \<Rightarrow>
      (case run_state (zc_GetRespSize quiet_env DirectHost demo_wrapper) b of (n, c) \<Rightarrow>
        0 \<le> n \<and> off + nat n \<le> length [1, 2, 3, 4 :: byte] \<and>
        take (nat n) (drop off [1, 2, 3, 4]) = resp_window 0 4 [1, 2, 3, 4 :: byte])
    | (None, b) \<Rightarrow> False"
proof -
  have "interference quiet_env k ms b = b" for k ms b
    by (simp add: quiet_env_def)
  moreover have "h_respSize (header demo_slot) = 0"
    by (simp add: demo_slot_def)
  ultimately show ?thesis
    by (intro zero_copy_window_in_bounds [of DirectHost demo_wrapper 0]) (simp_all add: demo_wrapper_valid)
qed

text \<open>
  The two accessors read the shared response size independently: a peer that changes it
  between them makes the pair describe bytes behind the end of the response buffer.
\<close>

definition tearing_env :: env where
  "tearing_env = quiet_env\<lparr>interference := (\<lambda>k ms. slots_update (map (upd_header
     (h_respSize_update (\<lambda>_. if k = 0 then - 1 else 4)))))\<rparr>"

lemma zero_copy_window_torn:
  "case run_state (zc_GetRespBuffer tearing_env DirectHost demo_wrapper) demo_alloc of (Some off, b) \<Rightarrow>
      (case run_state (zc_GetRespSize tearing_env DirectHost demo_wrapper) b of (n, c) \<Rightarrow>
        off + nat n = 7 \<and> length (respBuffer (slots b ! 0)) = 4)
    | (None, b) \<Rightarrow> False"
  using demo_wrapper_valid
  by (simp add: zc_GetRespBuffer_def zc_GetRespSize_def load_def poll_def tearing_env_def quiet_env_def
      demo_alloc_def demo_slot_def upd_header_def clamp_resp_def absSize_def sless_0 word_sle_eq Let_def)

end
