(* ===== verification/Shm_Facade.thy ===== *)
theory Shm_Facade
  imports Shm_Host
begin

text \<open>
  The public methods of \<open>DirectHost\<close> (\<open>src/include/shm/DirectHost.h\<close>) that forward to the slot
  allocator and to the guest-call worker, the remaining accessors of the two slot wrappers, and
  the end of a host. A method acts on the host object through the member it forwards to.
\<close>

section \<open>Members of a host\<close>

definition on_allocator :: "(alloc, 'a) state \<Rightarrow> (host, 'a) state" where
  "on_allocator m = State (\<lambda>h. case run_state m (h_alloc h) of (x, a) \<Rightarrow> (x, h\<lparr>h_alloc := a\<rparr>))"

definition on_worker :: "(worker \<times> alloc, 'a) state \<Rightarrow> (host, 'a) state" where
  "on_worker m = State (\<lambda>h. case run_state m (h_worker h, h_alloc h) of (x, w, a) \<Rightarrow> (x, h\<lparr>h_worker := w, h_alloc := a\<rparr>))"

lemma wp_on_allocator: "wp (on_allocator m) Q h = wp m (\<lambda>x a. Q x (h\<lparr>h_alloc := a\<rparr>)) (h_alloc h)"
  by (simp add: wp_def on_allocator_def split: prod.splits)

lemma wp_on_worker: "wp (on_worker m) Q h = wp m (\<lambda>x (w, a). Q x (h\<lparr>h_worker := w, h_alloc := a\<rparr>)) (h_worker h, h_alloc h)"
  by (simp add: wp_def on_worker_def split: prod.splits)

lemma triple_on_allocator:
  assumes "triple P m Q"
  shows "triple (\<lambda>h. P (h_alloc h)) (on_allocator m) (\<lambda>x h. Q x (h_alloc h))"
  using assms by (simp add: triple_def wp_on_allocator)

section \<open>Slots\<close>

definition dh_AcquireSlot :: "nat \<Rightarrow> env \<Rightarrow> (host, int outcome) state" where
  "dh_AcquireSlot fuel env = on_allocator (AcquireSlot fuel env)"

definition dh_TryAcquireSlot :: "env \<Rightarrow> (host, int) state" where
  "dh_TryAcquireSlot env = on_allocator (TryAcquireSlot env)"

definition dh_AcquireSpecificSlot :: "nat \<Rightarrow> env \<Rightarrow> int \<Rightarrow> u32 \<Rightarrow> (host, int outcome) state" where
  "dh_AcquireSpecificSlot fuel env slotIdx timeoutMs = on_allocator (AcquireSpecificSlot fuel env slotIdx timeoutMs)"

definition dh_GetAutoReclaimTimeoutNs :: "(host, u64) state" where
  "dh_GetAutoReclaimTimeoutNs = on_allocator GetAutoReclaimTimeoutNs"

definition dh_TryReclaimAbandonedSlot :: "env \<Rightarrow> int \<Rightarrow> u64 \<Rightarrow> (host, bool) state" where
  "dh_TryReclaimAbandonedSlot env slotIdx maxLeaseAgeNs = on_allocator (TryReclaimAbandonedSlot env slotIdx maxLeaseAgeNs)"

text \<open>The buffer of a slot is the index of the slot.\<close>

definition dh_GetReqBuffer :: "int \<Rightarrow> (host, nat option) state" where
  "dh_GetReqBuffer slotIdx = on_allocator (GetReqBuffer slotIdx)"

definition dh_GetMaxReqSize :: "int \<Rightarrow> (host, int) state" where
  "dh_GetMaxReqSize slotIdx = on_allocator (GetMaxReqSize slotIdx)"

definition dh_SignalSlot :: "env \<Rightarrow> int \<Rightarrow> (host, unit) state" where
  "dh_SignalSlot env slotIdx = on_allocator (SignalSlot env slotIdx)"

definition dh_WaitForSlotEvent :: "env \<Rightarrow> int \<Rightarrow> u32 \<Rightarrow> (host, bool) state" where
  "dh_WaitForSlotEvent env slotIdx timeoutMs = on_allocator (WaitForSlotEvent env slotIdx timeoutMs)"

definition dh_SendAcquiredAsync :: "env \<Rightarrow> int \<Rightarrow> i32 \<Rightarrow> MsgType \<Rightarrow> (host, result_void) state" where
  "dh_SendAcquiredAsync env slotIdx sz msgType = on_allocator (SendAcquiredAsync env slotIdx sz msgType)"

definition dh_WaitForSlot :: "nat \<Rightarrow> env \<Rightarrow> int \<Rightarrow> byte list \<Rightarrow> u32 \<Rightarrow> (host, (int result \<times> byte list) outcome) state" where
  "dh_WaitForSlot fuel env slotIdx outResp timeoutMs = on_allocator (WaitForSlot fuel env slotIdx outResp timeoutMs)"

definition dh_SendAcquired ::
  "nat \<Rightarrow> env \<Rightarrow> int \<Rightarrow> i32 \<Rightarrow> MsgType \<Rightarrow> byte list \<Rightarrow> u32 \<Rightarrow> (host, (int result \<times> byte list) outcome) state" where
  "dh_SendAcquired fuel env slotIdx sz msgType outResp timeoutMs =
     on_allocator (SendAcquired fuel env slotIdx sz msgType outResp timeoutMs)"

section \<open>Guest calls\<close>

definition dh_Start :: "(host, bool) state" where
  "dh_Start = on_worker Start"

definition dh_Stop :: "env \<Rightarrow> (host, bool) state" where
  "dh_Stop env = on_worker (Stop env)"

definition dh_ProcessGuestCalls :: "call_handler \<Rightarrow> env \<Rightarrow> int \<Rightarrow> (host, int outcome) state" where
  "dh_ProcessGuestCalls handler env limit = on_allocator (ProcessGuestCalls handler env limit)"

definition WaitForGuestCall :: "env \<Rightarrow> u32 \<Rightarrow> (host, bool outcome) state" where
  "WaitForGuestCall env timeoutMs = on_worker (WaitForRequest env timeoutMs)"

definition WakeGuestCallWaiter :: "env \<Rightarrow> (host, unit) state" where
  "WakeGuestCallWaiter env = on_allocator (WakeWaiter env)"

section \<open>Slot wrappers and the end of a host\<close>

definition wrapper_GetReqBuffer :: "host \<Rightarrow> slot_wrapper \<Rightarrow> nat option" where
  "wrapper_GetReqBuffer h z = (if \<not> wrapper_IsValid h z then None else Some (nat (z_slotIdx z)))"

definition HeldSlot :: slot_wrapper where
  "HeldSlot = \<lparr>z_host = False, z_slotIdx = - 1, z_session = None\<rparr>"

definition held_wrapper :: "host option \<Rightarrow> int \<Rightarrow> slot_wrapper" where
  "held_wrapper h idx = \<lparr>z_host = (h \<noteq> None), z_slotIdx = idx,
     z_session = (case h of None \<Rightarrow> None | Some h \<Rightarrow> sharedState h)\<rparr>"

definition held_move :: "slot_wrapper \<Rightarrow> slot_wrapper \<times> slot_wrapper" where
  "held_move z = (z, HeldSlot)"

definition held_IsValid :: "host \<Rightarrow> slot_wrapper \<Rightarrow> bool" where
  "held_IsValid h z = (alive h z \<and> z_host z \<and> z_slotIdx z \<ge> 0)"

definition held_Index :: "slot_wrapper \<Rightarrow> int" where
  "held_Index z = z_slotIdx z"

definition held_GetReqBuffer :: "host \<Rightarrow> slot_wrapper \<Rightarrow> nat option" where
  "held_GetReqBuffer h z = (if \<not> held_IsValid h z then None else Some (nat (z_slotIdx z)))"

definition held_GetMaxReqSize :: "host \<Rightarrow> slot_wrapper \<Rightarrow> (alloc, int) state" where
  "held_GetMaxReqSize h z =
     (if \<not> held_IsValid h z then ret 0 else gets (\<lambda>a. sint (maxReqSize (slots a ! nat (z_slotIdx z)))))"

definition held_destroy :: "env \<Rightarrow> host \<Rightarrow> slot_wrapper \<Rightarrow> (alloc, slot_wrapper) state" where
  "held_destroy env h z = held_Release env h z"

definition destroy_host :: "'os win32 \<Rightarrow> env \<Rightarrow> registry \<Rightarrow> 'os \<Rightarrow> host \<Rightarrow> host \<times> registry \<times> 'os" where
  "destroy_host w env reg os h = Shutdown w env reg os h"

end
