(* ===== verification/Shm_Stream_Sender.thy ===== *)
theory Shm_Stream_Sender
  imports Shm_Facade Shm_Reassembler
begin

text \<open>
  \<open>StreamSender\<close> of \<open>src/include/shm/Stream.h\<close>: a buffer is announced by a \<open>STREAM_START\<close>
  message and sent as \<open>STREAM_CHUNK\<close> messages through a pipeline of slots. The sender uses
  the host through seven methods; they are the fields of \<open>host_api\<close>, and \<open>direct_api\<close> is the
  host of the library. The sender is run with a record of the calls it makes.
\<close>

section \<open>The host as the sender sees it\<close>

record 's host_api =
  api_AcquireSlot :: "('s, int outcome) state"
  api_AcquireSpecificSlot :: "int \<Rightarrow> u32 \<Rightarrow> ('s, int outcome) state"
  api_GetMaxReqSize :: "int \<Rightarrow> ('s, int) state"
  api_write :: "int \<Rightarrow> byte list \<Rightarrow> ('s, unit outcome) state"
  api_SendAcquired :: "int \<Rightarrow> i32 \<Rightarrow> MsgType \<Rightarrow> u32 \<Rightarrow> ('s, int result outcome) state"
  api_SendAcquiredAsync :: "int \<Rightarrow> i32 \<Rightarrow> MsgType \<Rightarrow> ('s, result_void) state"
  api_WaitForSlot :: "int \<Rightarrow> u32 \<Rightarrow> ('s, int result outcome) state"

text \<open>\<open>memcpy\<close> to the start of the request buffer of a slot; a NULL buffer or a copy that
  leaves the buffer is undefined.\<close>

definition memcpy_request :: "env \<Rightarrow> nat \<Rightarrow> byte list \<Rightarrow> (alloc, unit outcome) state" where
  "memcpy_request env i bytes = do {
     buf \<leftarrow> load env i reqBuffer;
     case mem_write 0 bytes buf of
       None \<Rightarrow> ret Trap
     | Some buf' \<Rightarrow> do {
         modify (upd_slot i (reqBuffer_update (\<lambda>_. buf')));
         ret (Ret ()) } }"

definition write_request_buffer :: "env \<Rightarrow> int \<Rightarrow> byte list \<Rightarrow> (host, unit outcome) state" where
  "write_request_buffer env slotIdx bytes = do {
     p \<leftarrow> dh_GetReqBuffer slotIdx;
     case p of None \<Rightarrow> ret Trap | Some i \<Rightarrow> on_allocator (memcpy_request env i bytes) }"

text \<open>The response vector of the sender is discarded.\<close>

definition drop_response :: "(host, (int result \<times> byte list) outcome) state \<Rightarrow> (host, int result outcome) state" where
  "drop_response m = obind m (\<lambda>(res, _). ret (Ret res))"

definition direct_api :: "nat \<Rightarrow> env \<Rightarrow> host host_api" where
  "direct_api fuel env = \<lparr>
     api_AcquireSlot = dh_AcquireSlot fuel env,
     api_AcquireSpecificSlot = dh_AcquireSpecificSlot fuel env,
     api_GetMaxReqSize = dh_GetMaxReqSize,
     api_write = write_request_buffer env,
     api_SendAcquired = (\<lambda>slotIdx sz mt t. drop_response (dh_SendAcquired fuel env slotIdx sz mt [] t)),
     api_SendAcquiredAsync = dh_SendAcquiredAsync env,
     api_WaitForSlot = (\<lambda>slotIdx t. drop_response (dh_WaitForSlot fuel env slotIdx [] t))\<rparr>"

section \<open>The calls of the sender\<close>

text \<open>The calls that matter to the protocol; the flag tells that the call returned no error.\<close>

datatype api_call =
  Wrote int "byte list"
| Called int i32 MsgType bool
| Sent int i32 MsgType bool
| Collected int u32 bool

type_synonym 's traced = "'s \<times> api_call list"

definition traced :: "('a \<Rightarrow> api_call list) \<Rightarrow> ('s, 'a) state \<Rightarrow> ('s traced, 'a) state" where
  "traced ev m = State (\<lambda>(s, tr). case run_state m s of (x, s') \<Rightarrow> (x, (s', tr @ ev x)))"

abbreviation silent :: "('s, 'a) state \<Rightarrow> ('s traced, 'a) state" where
  "silent \<equiv> traced (\<lambda>_. [])"

abbreviation on_return :: "('a \<Rightarrow> api_call) \<Rightarrow> 'a outcome \<Rightarrow> api_call list" where
  "on_return f x \<equiv> (case x of Ret v \<Rightarrow> [f v] | _ \<Rightarrow> [])"

definition do_write :: "'s host_api \<Rightarrow> int \<Rightarrow> byte list \<Rightarrow> ('s traced, unit outcome) state" where
  "do_write api slotIdx bytes = traced (on_return (\<lambda>_. Wrote slotIdx bytes)) (api_write api slotIdx bytes)"

definition do_call :: "'s host_api \<Rightarrow> int \<Rightarrow> i32 \<Rightarrow> MsgType \<Rightarrow> ('s traced, int result outcome) state" where
  "do_call api slotIdx sz mt = traced (on_return (\<lambda>res. Called slotIdx sz mt (\<not> HasError res)))
     (api_SendAcquired api slotIdx sz mt USE_DEFAULT_TIMEOUT)"

definition do_send :: "'s host_api \<Rightarrow> int \<Rightarrow> i32 \<Rightarrow> MsgType \<Rightarrow> ('s traced, result_void) state" where
  "do_send api slotIdx sz mt = traced (\<lambda>res. [Sent slotIdx sz mt (\<not> void_HasError res)])
     (api_SendAcquiredAsync api slotIdx sz mt)"

definition do_wait :: "'s host_api \<Rightarrow> int \<Rightarrow> u32 \<Rightarrow> ('s traced, int result outcome) state" where
  "do_wait api slotIdx t = traced (on_return (\<lambda>res. Collected slotIdx t (\<not> HasError res))) (api_WaitForSlot api slotIdx t)"

section \<open>Sending a stream\<close>

record stream_sender =
  maxInFlight :: int
  baseSlot :: int

definition StreamSender :: "int \<Rightarrow> int \<Rightarrow> stream_sender" where
  "StreamSender inFlight base = \<lparr>maxInFlight = inFlight, baseSlot = base\<rparr>"

text \<open>The lambda \<open>acquireSlot\<close>: the slot or a negative number, and the next \<open>rr\<close>. The
  remainder by zero and the overflow of the signed sum are undefined.\<close>

definition acquireSlot :: "'s host_api \<Rightarrow> stream_sender \<Rightarrow> u32 \<Rightarrow> ('s traced, (int \<times> u32) outcome) state" where
  "acquireSlot api self rr =
     (if baseSlot self < 0 then obind (silent (api_AcquireSlot api)) (\<lambda>idx. ret (Ret (idx, rr)))
      else if (word_of_int (maxInFlight self) :: u32) = 0 then ret Trap
      else let idx = baseSlot self + sint (rr mod word_of_int (maxInFlight self)) in
        if idx \<ge> 2 ^ 31 then ret Trap
        else obind (silent (api_AcquireSpecificSlot api idx USE_DEFAULT_TIMEOUT)) (\<lambda>got.
          ret (Ret (got, if got \<ge> 0 then rr + 1 else rr))))"

definition make_stream_header :: "u64 \<Rightarrow> u64 \<Rightarrow> u32 \<Rightarrow> u32 \<Rightarrow> StreamHeader" where
  "make_stream_header streamId sz totalChunks appMsgType = \<lparr>sh_streamId = streamId, sh_totalSize = sz,
     sh_totalChunks = totalChunks, sh_appMsgType = appMsgType\<rparr>"

definition total_chunks :: "u64 \<Rightarrow> int \<Rightarrow> u32" where
  "total_chunks sz maxPayload =
     (if sz = 0 then 0 else ucast ((sz + word_of_int maxPayload - 1) div word_of_int maxPayload))"

text \<open>The synchronous \<open>STREAM_START\<close>; the result is an error, or the next \<open>rr\<close>.\<close>

definition send_start ::
  "'s host_api \<Rightarrow> stream_sender \<Rightarrow> u64 \<Rightarrow> u64 \<Rightarrow> u32 \<Rightarrow> ('s traced, (error + u32) outcome) state" where
  "send_start api self sz streamId appMsgType =
     obind (acquireSlot api self 0) (\<lambda>(slotIdx, rr).
       if slotIdx < 0 then ret (Ret (Inl ResourceExhausted))
       else do {
         maxReq \<leftarrow> silent (api_GetMaxReqSize api slotIdx);
         let chunkOverhead = int sizeof_ChunkHeader;
         if maxReq \<le> chunkOverhead then do {
           _ \<leftarrow> do_send api slotIdx 0 SYSTEM_ERROR;
           obind (do_wait api slotIdx USE_DEFAULT_TIMEOUT) (\<lambda>_. ret (Ret (Inl BufferTooSmall)))
         } else do {
           let maxPayload = maxReq - chunkOverhead;
           let hdr = make_stream_header streamId sz (total_chunks sz maxPayload) appMsgType;
           obind (do_write api slotIdx (StreamHeader_bytes hdr)) (\<lambda>_.
           obind (do_call api slotIdx (word_of_nat sizeof_StreamHeader) STREAM_START) (\<lambda>res.
             ret (Ret (if HasError res then Inl (GetError res) else Inr rr)))) } })"

text \<open>The clean-up after an error: every slot still pending is waited for briefly.\<close>

fun drain_pending :: "'s host_api \<Rightarrow> int list \<Rightarrow> ('s traced, unit outcome) state" where
  "drain_pending api [] = ret (Ret ())"
| "drain_pending api (s # rest) = obind (do_wait api s 1) (\<lambda>_. drain_pending api rest)"

text \<open>The variables of the pipeline: \<open>remaining\<close>, \<open>chunkIndex\<close>, \<open>pendingSlots\<close> and \<open>rr\<close>; the
  pointer into the data is at \<open>size - remaining\<close>.\<close>

record pipe =
  remaining :: u64
  chunkIndex :: u32
  pendingSlots :: "int list"
  pipe_rr :: u32

definition make_chunk_header :: "u64 \<Rightarrow> u64 \<Rightarrow> pipe \<Rightarrow> u32 \<Rightarrow> ChunkHeader" where
  "make_chunk_header streamId sz p currentChunkSize = \<lparr>ch_streamId = streamId, ch_chunkIndex = chunkIndex p,
     ch_payloadSize = currentChunkSize, ch_dstOffset = ucast (sz - remaining p), ch_padding = 0\<rparr>"

definition chunk_size :: "u64 \<Rightarrow> int \<Rightarrow> u32" where
  "chunk_size rest maxPayload = (if rest > word_of_int maxPayload then word_of_int maxPayload else ucast rest)"

text \<open>One chunk on an acquired slot: written, sent and entered into the queue.\<close>

definition send_chunk ::
  "'s host_api \<Rightarrow> byte list \<Rightarrow> u64 \<Rightarrow> u64 \<Rightarrow> int \<Rightarrow> pipe \<Rightarrow> ('s traced, (error + pipe) outcome) state" where
  "send_chunk api data sz streamId slotIdx p = do {
     maxReq \<leftarrow> silent (api_GetMaxReqSize api slotIdx);
     let cur = chunk_size (remaining p) (maxReq - int sizeof_ChunkHeader);
     case mem_read (unat (sz - remaining p)) (unat cur) data of
       None \<Rightarrow> ret Trap
     | Some payload \<Rightarrow>
         obind (do_write api slotIdx (ChunkHeader_bytes (make_chunk_header streamId sz p cur) @ payload)) (\<lambda>_. do {
           res \<leftarrow> do_send api slotIdx (word_of_nat sizeof_ChunkHeader + cur) STREAM_CHUNK;
           if void_HasError res
           then obind (drain_pending api (pendingSlots p)) (\<lambda>_. ret (Ret (Inl (void_GetError res))))
           else ret (Ret (Inr (p\<lparr>pendingSlots := pendingSlots p @ [slotIdx],
                  remaining := remaining p - ucast cur, chunkIndex := chunkIndex p + 1\<rparr>))) }) }"

text \<open>The inner loop. The first argument is the room left in the pipeline.\<close>

fun fill_pipeline ::
  "nat \<Rightarrow> 's host_api \<Rightarrow> stream_sender \<Rightarrow> byte list \<Rightarrow> u64 \<Rightarrow> u64 \<Rightarrow> pipe \<Rightarrow> ('s traced, (error + pipe) outcome) state" where
  "fill_pipeline room api self data sz streamId p =
     (if remaining p > 0 \<and> 0 < room then
        obind (acquireSlot api self (pipe_rr p)) (\<lambda>(slotIdx, rr).
          if slotIdx < 0 then ret (Ret (Inr (p\<lparr>pipe_rr := rr\<rparr>)))
          else obind (send_chunk api data sz streamId slotIdx (p\<lparr>pipe_rr := rr\<rparr>)) (\<lambda>r. case r of
              Inl e \<Rightarrow> ret (Ret (Inl e))
            | Inr p' \<Rightarrow> fill_pipeline (room - 1) api self data sz streamId p'))
      else ret (Ret (Inr p)))"

declare fill_pipeline.simps [simp del]

text \<open>The outer loop, for at most \<open>fuel\<close> rounds.\<close>

fun send_loop ::
  "nat \<Rightarrow> 's host_api \<Rightarrow> stream_sender \<Rightarrow> byte list \<Rightarrow> u64 \<Rightarrow> u64 \<Rightarrow> pipe \<Rightarrow> ('s traced, result_void outcome) state" where
  "send_loop 0 api self data sz streamId p = ret NoFuel"
| "send_loop (Suc fuel) api self data sz streamId p =
     (if remaining p > 0 \<or> pendingSlots p \<noteq> [] then
        obind (fill_pipeline (nat (maxInFlight self - int (length (pendingSlots p)))) api self data sz streamId p)
          (\<lambda>r. case r of
            Inl e \<Rightarrow> ret (Ret (Failure e))
          | Inr p \<Rightarrow>
              (case pendingSlots p of
                 [] \<Rightarrow> send_loop fuel api self data sz streamId p
               | s # rest \<Rightarrow> obind (do_wait api s USE_DEFAULT_TIMEOUT) (\<lambda>res.
                   if HasError res
                   then obind (drain_pending api rest) (\<lambda>_. ret (Ret (Failure (GetError res))))
                   else send_loop fuel api self data sz streamId (p\<lparr>pendingSlots := rest\<rparr>))))
      else ret (Ret Success))"

definition stream_Send ::
  "nat \<Rightarrow> 's host_api option \<Rightarrow> stream_sender \<Rightarrow> byte list option \<Rightarrow> u64 \<Rightarrow> u64 \<Rightarrow> u32 \<Rightarrow>
   ('s traced, result_void outcome) state" where
  "stream_Send fuel host self data sz streamId appMsgType = (case (host, data) of
     (Some api, Some d) \<Rightarrow>
       (if sz > kMaxStreamSize then ret (Ret (Failure InvalidArgs))
        else obind (send_start api self sz streamId appMsgType) (\<lambda>r. case r of
            Inl e \<Rightarrow> ret (Ret (Failure e))
          | Inr rr \<Rightarrow> send_loop fuel api self d sz streamId
              \<lparr>remaining = sz, chunkIndex = 0, pendingSlots = [], pipe_rr = rr\<rparr>))
   | _ \<Rightarrow> ret (Ret (Failure InvalidArgs)))"

end
