(* ===== verification/Shm_Stream_Pipeline.thy ===== *)
theory Shm_Stream_Pipeline
  imports Shm_Stream_Sender Shm_Reassembler_Complete Shm_Slot_Rely
begin

text \<open>
  What \<open>StreamSender::Send\<close> says to its peer. The abstract sender cuts the buffer into equal
  parts and keeps a bounded queue of slots in flight; the locale \<open>stream_host\<close> is what the
  sender needs from a host, and over every such host the calls of \<open>Send\<close> are those of the
  abstract sender.
\<close>

section \<open>The parts of a stream\<close>

function split_parts :: "nat \<Rightarrow> byte list \<Rightarrow> byte list list" where
  "split_parts n d = (if d = [] \<or> n = 0 then [] else take n d # split_parts n (drop n d))"
  by pat_completeness auto
termination
  by (relation "measure (length \<circ> snd)") auto

declare split_parts.simps [simp del]

lemma split_parts_Nil [simp]: "split_parts n [] = []"
  by (simp add: split_parts.simps)

lemma concat_split_parts: "0 < n \<Longrightarrow> concat (split_parts n d) = d"
proof (induction n d rule: split_parts.induct)
  case (1 n d)
  then show ?case
    by (subst split_parts.simps) auto
qed

lemma length_split_parts: "0 < n \<Longrightarrow> length (split_parts n d) = (length d + n - 1) div n"
proof (induction n d rule: split_parts.induct)
  case (1 n d)
  show ?case
  proof (cases "d = []")
    case True
    then show ?thesis using 1(2) by simp
  next
    case False
    then have "length (split_parts n d) = Suc ((length d - n + n - 1) div n)"
      using 1 by (subst split_parts.simps) auto
    also have "\<dots> = (length d + n - 1) div n"
    proof (cases "n \<le> length d")
      case True
      then have "length d + n - 1 = (length d - n + n - 1) + n"
        using 1(2) by simp
      then show ?thesis
        using 1(2) by (metis add.commute div_add_self2 neq0_conv plus_1_eq_Suc)
    next
      case less: False
      obtain m where "length d = Suc m"
        using False by (cases d) auto
      then have "(length d + n - 1) div n = 1"
        using less 1(2) by (intro div_nat_eqI) auto
      then show ?thesis
        using less 1(2) by simp
    qed
    finally show ?thesis .
  qed
qed

lemma nth_split_parts:
  "0 < n \<Longrightarrow> k < length (split_parts n d) \<Longrightarrow> split_parts n d ! k = take n (drop (k * n) d) \<and> k * n < length d"
proof (induction n d arbitrary: k rule: split_parts.induct)
  case (1 n d)
  have ne: "d \<noteq> []"
    using 1(3) by auto
  then have eq: "split_parts n d = take n d # split_parts n (drop n d)"
    using 1(2) by (subst split_parts.simps) simp
  show ?case
  proof (cases k)
    case 0
    then show ?thesis using ne 1(2) by (simp add: eq)
  next
    case (Suc j)
    then show ?thesis
      using 1(1) [of j] 1(2,3) ne by (auto simp: eq add.commute)
  qed
qed

lemma offs_split_parts:
  "0 < n \<Longrightarrow> k \<le> length (split_parts n d) \<Longrightarrow> offs (split_parts n d) k = min (k * n) (length d)"
proof (induction k)
  case (Suc k)
  then show ?case
    using nth_split_parts [of n k d] by (simp add: offs_Suc) linarith
qed simp

section \<open>The abstract sender\<close>

definition start_calls :: "u64 \<Rightarrow> u32 \<Rightarrow> byte list list \<Rightarrow> int \<Rightarrow> bool \<Rightarrow> api_call list" where
  "start_calls i tag ps s ok =
     [Wrote s (StreamHeader_bytes (start_header i tag ps)), Called s (word_of_nat sizeof_StreamHeader) STREAM_START ok]"

definition chunk_calls :: "u64 \<Rightarrow> byte list list \<Rightarrow> nat \<Rightarrow> int \<Rightarrow> bool \<Rightarrow> api_call list" where
  "chunk_calls i ps k s ok =
     [Wrote s (chunk_bytes i ps k), Sent s (word_of_nat (length (chunk_bytes i ps k))) STREAM_CHUNK ok]"

text \<open>
  The next chunk is sent on some slot while fewer than \<open>inFlight\<close> slots are pending; the
  oldest pending slot is collected.
\<close>

inductive pipeline :: "int \<Rightarrow> u64 \<Rightarrow> byte list list \<Rightarrow> nat \<Rightarrow> int list \<Rightarrow> api_call list \<Rightarrow> bool"
  for inFlight i ps where
  pipe_start: "pipeline inFlight i ps 0 [] []"
| pipe_send: "pipeline inFlight i ps k q tr \<Longrightarrow> k < length ps \<Longrightarrow> int (length q) < inFlight \<Longrightarrow>
    pipeline inFlight i ps (Suc k) (q @ [s]) (tr @ chunk_calls i ps k s True)"
| pipe_collect: "pipeline inFlight i ps k (s # q) tr \<Longrightarrow>
    pipeline inFlight i ps k q (tr @ [Collected s USE_DEFAULT_TIMEOUT True])"

definition abandoned :: "int list \<Rightarrow> bool list \<Rightarrow> api_call list" where
  "abandoned q oks = map2 (\<lambda>s ok. Collected s 1 ok) q oks"

text \<open>How a failed stream ends: a chunk that could not be sent or a slot that could not be
  collected, and then every slot that is still pending.\<close>

definition broken_off :: "u64 \<Rightarrow> byte list list \<Rightarrow> nat \<Rightarrow> int list \<Rightarrow> api_call list \<Rightarrow> bool" where
  "broken_off i ps k q tr = (\<exists>s oks. k < length ps \<and> length oks = length q \<and>
       tr = chunk_calls i ps k s False @ abandoned q oks \<or>
     (\<exists>q'. q = s # q' \<and> length oks = length q' \<and>
       tr = Collected s USE_DEFAULT_TIMEOUT False # abandoned q' oks))"

lemma broken_send:
  "k < length ps \<Longrightarrow> length oks = length q \<Longrightarrow> broken_off i ps k q (chunk_calls i ps k s False @ abandoned q oks)"
  by (auto simp: broken_off_def)

lemma broken_collect:
  "length oks = length q \<Longrightarrow> broken_off i ps k (s # q) (Collected s USE_DEFAULT_TIMEOUT False # abandoned q oks)"
  by (auto simp: broken_off_def)

definition stream_calls ::
  "int \<Rightarrow> u64 \<Rightarrow> u32 \<Rightarrow> byte list list \<Rightarrow> result_void outcome \<Rightarrow> api_call list \<Rightarrow> bool" where
  "stream_calls inFlight i tag ps r tr = (case r of
     Ret res \<Rightarrow>
       (if res = Success
        then \<exists>s tr'. pipeline inFlight i ps (length ps) [] tr' \<and> tr = start_calls i tag ps s True @ tr'
        else tr = [] \<or> (\<exists>s. tr = start_calls i tag ps s False) \<or>
          (\<exists>s k q tr' rest. pipeline inFlight i ps k q tr' \<and> broken_off i ps k q rest \<and>
             tr = start_calls i tag ps s True @ tr' @ rest))
   | Trap \<Rightarrow> False
   | NoFuel \<Rightarrow> True)"

text \<open>What happens when a request buffer has no room for a byte behind a chunk header.\<close>

definition stream_aborted :: "result_void outcome \<Rightarrow> api_call list \<Rightarrow> bool" where
  "stream_aborted r tr = (case r of
     Ret res \<Rightarrow> res = Failure ResourceExhausted \<and> tr = [] \<or>
       res = Failure BufferTooSmall \<and> (\<exists>s a b. tr = [Sent s 0 SYSTEM_ERROR a, Collected s USE_DEFAULT_TIMEOUT b])
   | Trap \<Rightarrow> False | NoFuel \<Rightarrow> True)"

lemma stream_aborted_small: "stream_aborted (Ret (Failure BufferTooSmall)) [Sent s 0 SYSTEM_ERROR a, Collected s USE_DEFAULT_TIMEOUT b]"
  by (simp add: stream_aborted_def)

lemma stream_no_fuel [simp]: "stream_aborted NoFuel tr" "stream_calls inFlight i tag ps NoFuel tr"
  by (simp_all add: stream_aborted_def stream_calls_def)

lemma stream_calls_refused:
  assumes "e \<noteq> Error_None"
  shows "stream_calls inFlight i tag ps (Ret (Failure e)) []" "stream_calls inFlight i tag ps (Ret (Failure e)) (start_calls i tag ps s False)"
  using assms by (auto simp: stream_calls_def)

lemma stream_calls_complete:
  "pipeline inFlight i ps (length ps) [] tr \<Longrightarrow> stream_calls inFlight i tag ps (Ret Success) (start_calls i tag ps s True @ tr)"
  by (auto simp: stream_calls_def)

lemma stream_calls_failed:
  "res \<noteq> Success \<Longrightarrow> pipeline inFlight i ps k q tr \<Longrightarrow> broken_off i ps k q rest \<Longrightarrow>
    stream_calls inFlight i tag ps (Ret res) (start_calls i tag ps s True @ tr @ rest)"
  unfolding stream_calls_def by (simp only: outcome.case if_False) blast

lemma pipeline_bounds: "pipeline inFlight i ps k q tr \<Longrightarrow> k \<le> length ps \<and> length q \<le> k \<and> (q \<noteq> [] \<longrightarrow> int (length q) \<le> inFlight)"
  by (induction rule: pipeline.induct) auto

section \<open>The arithmetic of one chunk\<close>

text \<open>The variables of the loop when \<open>k\<close> chunks have been sent.\<close>

definition pipe_at :: "byte list \<Rightarrow> byte list list \<Rightarrow> nat \<Rightarrow> pipe \<Rightarrow> bool" where
  "pipe_at d ps k p = (k \<le> length ps \<and> unat (remaining p) = length d - offs ps k \<and> chunkIndex p = word_of_nat k)"

definition stream_data :: "nat \<Rightarrow> byte list \<Rightarrow> u64 \<Rightarrow> byte list list \<Rightarrow> bool" where
  "stream_data n d sz ps \<longleftrightarrow> 0 < n \<and> n < 2 ^ 31 \<and> length d \<le> 2 ^ 30 \<and> sz = word_of_nat (length d) \<and> ps = split_parts n d"

lemma stream_dataD:
  assumes "stream_data n d sz ps"
  shows "0 < n" "n < 2 ^ 31" "length d \<le> 2 ^ 30" "sz = word_of_nat (length d)" "ps = split_parts n d"
  using assms by (simp_all add: stream_data_def)

lemma unat_sz: "stream_data n d sz ps \<Longrightarrow> unat sz = length d"
  by (simp add: stream_data_def unat_u64_of_nat)

lemma unat_payload:
  assumes "stream_data n d sz ps"
  shows "unat (word_of_nat n :: u64) = n" "unat (word_of_nat n :: u32) = n"
  using assms by (simp_all add: stream_data_def unat_u64_of_nat unat_u32_of_nat)

lemma part:
  assumes sd: "stream_data n d sz ps" and k: "k < length ps"
  shows "ps ! k = take n (drop (offs ps k) d)" "offs ps k < length d" "length (ps ! k) \<le> n"
    "offs ps k + length (ps ! k) = offs ps (Suc k)" "offs ps (Suc k) \<le> length d"
proof -
  note room = stream_dataD(1) [OF sd] and ps = stream_dataD(5) [OF sd]
  have nth: "ps ! k = take n (drop (k * n) d)" "k * n < length d"
    using nth_split_parts [OF room] k by (simp_all add: ps)
  have o: "offs ps k = k * n"
    using offs_split_parts [OF room, of k d] k nth(2) by (simp add: ps)
  show "ps ! k = take n (drop (offs ps k) d)" "offs ps k < length d" "length (ps ! k) \<le> n"
    "offs ps k + length (ps ! k) = offs ps (Suc k)"
    using nth o k by (simp_all add: offs_Suc)
  show "offs ps (Suc k) \<le> length d"
    using offs_split_parts [OF room, of "Suc k" d] k by (simp add: ps)
qed

lemma offs_end: "stream_data n d sz ps \<Longrightarrow> offs ps (length ps) = length d"
  by (simp add: stream_data_def offs_all concat_split_parts)

lemma more_iff:
  assumes "stream_data n d sz ps" and "pipe_at d ps k p"
  shows "0 < remaining p \<longleftrightarrow> k < length ps"
proof -
  have "0 < remaining p \<longleftrightarrow> offs ps k < length d"
    using assms(2) by (simp add: pipe_at_def word_less_nat_alt)
  then show ?thesis
    using part(2) [OF assms(1), of k] offs_end [OF assms(1)] assms(2) by (cases "k = length ps") (auto simp: pipe_at_def)
qed

lemma cur_chunk:
  assumes sd: "stream_data n d sz ps" and pa: "pipe_at d ps k p" and kl: "k < length ps"
  shows "unat (chunk_size (remaining p) (int n)) = length (ps ! k)"
    "mem_read (unat (sz - remaining p)) (length (ps ! k)) d = Some (ps ! k)"
    "ChunkHeader_bytes (make_chunk_header i sz p (chunk_size (remaining p) (int n))) @ ps ! k = chunk_bytes i ps k"
    "word_of_nat sizeof_ChunkHeader + chunk_size (remaining p) (int n) = word_of_nat (length (chunk_bytes i ps k))"
    "pipe_at d ps (Suc k) (p\<lparr>pendingSlots := q, remaining := remaining p - ucast (chunk_size (remaining p) (int n)),
       chunkIndex := chunkIndex p + 1\<rparr>)"
proof -
  note k = part [OF sd kl] and fits = stream_dataD(3) [OF sd] and unat_sz = unat_sz [OF sd]
    and unat_payload = unat_payload [OF sd]
  have rem: "unat (remaining p) = length d - offs ps k" "chunkIndex p = word_of_nat k"
    using pa by (simp_all add: pipe_at_def)
  have len: "length (ps ! k) = min n (length d - offs ps k)"
    by (subst k(1)) simp
  show cur: "unat (chunk_size (remaining p) (int n)) = length (ps ! k)"
    using rem fits len
    by (simp add: chunk_size_def word_less_nat_alt unat_payload unsigned_ucast_eq take_bit_nat_eq_self)
  have le: "remaining p \<le> sz"
    using rem unat_sz by (simp add: word_le_nat_alt)
  have off: "unat (sz - remaining p) = offs ps k"
    using k(2) rem unat_sz unat_sub [OF le] by simp
  show "mem_read (unat (sz - remaining p)) (length (ps ! k)) d = Some (ps ! k)"
  proof -
    have "take (length (ps ! k)) (drop (offs ps k) d) = ps ! k"
      unfolding len by (simp add: min_def k(1))
    then show ?thesis
      using k(4,5) by (simp add: off mem_safe)
  qed
  have dst: "ucast (sz - remaining p) = (word_of_nat (offs ps k) :: u32)"
    using off k(2) fits by (simp add: word_unat_eq_iff unat_u32_of_nat unsigned_ucast_eq take_bit_nat_eq_self)
  have size: "chunk_size (remaining p) (int n) = word_of_nat (length (ps ! k))"
    using cur len fits by (simp add: word_unat_eq_iff unat_u32_of_nat)
  show "ChunkHeader_bytes (make_chunk_header i sz p (chunk_size (remaining p) (int n))) @ ps ! k = chunk_bytes i ps k"
    by (simp add: chunk_bytes_def chunk_header_def make_chunk_header_def dst size rem)
  show "word_of_nat sizeof_ChunkHeader + chunk_size (remaining p) (int n) = word_of_nat (length (chunk_bytes i ps k))"
    by (simp add: chunk_bytes_def size)
  have "unat (ucast (chunk_size (remaining p) (int n)) :: u64) = length (ps ! k)"
    using cur by simp
  moreover have "length (ps ! k) \<le> unat (remaining p)"
    using rem len by simp
  ultimately have "unat (remaining p - ucast (chunk_size (remaining p) (int n))) = length d - offs ps (Suc k)"
    using rem k(4) by (simp add: unat_sub word_le_nat_alt)
  then show "pipe_at d ps (Suc k) (p\<lparr>pendingSlots := q, remaining := remaining p - ucast (chunk_size (remaining p) (int n)),
       chunkIndex := chunkIndex p + 1\<rparr>)"
    using kl rem by (simp add: pipe_at_def)
qed

lemma start_header_data:
  "stream_data n d sz ps \<Longrightarrow> make_stream_header i sz (word_of_nat (length ps)) tag = start_header i tag ps"
  by (auto simp: make_stream_header_def start_header_def stream_data_def concat_split_parts)

lemma start_chunks:
  assumes sd: "stream_data n d sz ps"
  shows "total_chunks sz (int n) = word_of_nat (length ps)"
proof -
  note room = stream_dataD(1) [OF sd] and i32 = stream_dataD(2) [OF sd] and fits = stream_dataD(3) [OF sd]
    and sz = stream_dataD(4) [OF sd] and ps = stream_dataD(5) [OF sd]
    and unat_sz = unat_sz [OF sd] and unat_payload = unat_payload [OF sd]
  have len: "length ps = (length d + n - 1) div n"
    by (simp add: ps length_split_parts [OF room])
  show ?thesis
  proof (cases "d = []")
    case True
    then show ?thesis
      by (simp add: total_chunks_def sz ps)
  next
    case False
    let ?w = "word_of_nat n :: u64"
    have d: "0 < length d"
      using False by simp
    have sum: "unat (sz + ?w) = length d + n"
      using fits i32 unat_add_lem [of sz ?w] by (simp add: unat_sz unat_payload)
    have "1 \<le> sz + ?w"
      unfolding word_le_nat_alt sum using room by simp
    then have "unat (sz + ?w - 1) = length d + n - 1"
      using sum by (simp add: unat_sub)
    then have quot: "unat ((sz + ?w - 1) div ?w) = length ps"
      unfolding len by (simp add: unat_div unat_payload)
    have "length ps \<le> length d + n"
      unfolding len by (meson diff_le_self div_le_dividend le_trans)
    then have "length ps < 2 ^ 32"
      using fits i32 by simp
    moreover have "sz \<noteq> 0"
      using d unat_sz by auto
    ultimately show ?thesis
      using quot by (simp add: total_chunks_def word_unat_eq_iff unat_u32_of_nat unsigned_ucast_eq take_bit_nat_eq_self)
  qed
qed

text \<open>A slot range the rotation stays inside of, for \<open>int\<close> members.\<close>

definition rotation_ok :: "stream_sender \<Rightarrow> bool" where
  "rotation_ok self = (maxInFlight self < 2 ^ 31 \<and>
     (baseSlot self < 0 \<or> 0 < maxInFlight self \<and> baseSlot self + maxInFlight self \<le> 2 ^ 31))"

lemma rotation_in_range:
  assumes "rotation_ok self" and "0 \<le> baseSlot self"
  shows "(word_of_int (maxInFlight self) :: u32) \<noteq> 0" "baseSlot self + sint ((rr :: u32) mod word_of_int (maxInFlight self)) < 2 ^ 31"
proof -
  let ?m = "word_of_int (maxInFlight self) :: u32"
  have m: "0 < maxInFlight self" "maxInFlight self < 2 ^ 31" "baseSlot self + maxInFlight self \<le> 2 ^ 31"
    using assms by (auto simp: rotation_ok_def)
  then have u: "uint ?m = maxInFlight self"
    by (simp add: uint_word_of_int)
  then show "?m \<noteq> 0"
    using m by auto
  have less: "uint (rr mod ?m) < maxInFlight self"
    using m u by (simp add: uint_mod)
  then have "sint (rr mod ?m) = uint (rr mod ?m)"
    using m by (simp add: sint_i32)
  then show "baseSlot self + sint (rr mod ?m) < 2 ^ 31"
    using m less by simp
qed

section \<open>What the sender needs from a host\<close>

lemma triple_ex: "(\<And>k. triple (P k) m Q) \<Longrightarrow> triple (\<lambda>s. \<exists>k. P k s) m Q"
  by (auto simp: triple_def)

lemma triple_obind_total:
  assumes "triple P m (case_outcome Q (\<lambda>_. False) (\<lambda>_. True))" and "\<And>x. triple (Q x) (f x) R" and "\<And>s. R NoFuel s"
  shows "triple P (obind m f) R"
  by (rule triple_obind [OF triple_weaken [OF assms(1)] assms(2)]) (use assms(3) in \<open>auto split: outcome.splits\<close>)

locale stream_host =
  fixes api :: "'s host_api" and inv :: "'s \<Rightarrow> bool" and owned :: "int \<Rightarrow> bool" and cap :: int
  assumes acquire: "triple inv (api_AcquireSlot api)
      (case_outcome (\<lambda>j s. (0 \<le> j \<longrightarrow> owned j) \<and> inv s) (\<lambda>_. False) (\<lambda>_. True))"
    and acquire_specific: "triple inv (api_AcquireSpecificSlot api j t)
      (case_outcome (\<lambda>j s. (0 \<le> j \<longrightarrow> owned j) \<and> inv s) (\<lambda>_. False) (\<lambda>_. True))"
    and capacity: "owned j \<Longrightarrow> triple inv (api_GetMaxReqSize api j) (\<lambda>r s. r = cap \<and> inv s)"
    and cap_i32: "cap < 2 ^ 31"
    and writes: "owned j \<Longrightarrow> int (length bs) \<le> cap \<Longrightarrow> triple inv (api_write api j bs) (\<lambda>r s. r = Ret () \<and> inv s)"
    and calls: "owned j \<Longrightarrow> triple inv (api_SendAcquired api j n mt t) (\<lambda>r s. (r \<noteq> Trap \<and> r \<noteq> Ret (Inl Error_None)) \<and> inv s)"
    and sends: "owned j \<Longrightarrow> triple inv (api_SendAcquiredAsync api j n mt) (\<lambda>r s. True \<and> inv s)"
    and waits: "owned j \<Longrightarrow> triple inv (api_WaitForSlot api j t) (\<lambda>r s. (r \<noteq> Trap \<and> r \<noteq> Ret (Inl Error_None)) \<and> inv s)"
begin

definition on :: "api_call list \<Rightarrow> 's traced \<Rightarrow> bool" where
  "on tr st = (inv (fst st) \<and> snd st = tr)"

lemma t_traced:
  "triple inv m (\<lambda>r s. A r \<and> inv s) \<Longrightarrow> triple (on tr) (traced ev m) (\<lambda>r st. A r \<and> on (tr @ ev r) st)"
  by (auto simp: triple_def wp_def traced_def on_def split: prod.splits)

lemma t_silent: "triple inv m (\<lambda>r s. A r \<and> inv s) \<Longrightarrow> triple (on tr) (silent m) (\<lambda>r st. A r \<and> on tr st)"
  using t_traced [where ev = "\<lambda>_. []"] by simp

lemma t_first_slot:
  assumes self: "rotation_ok self"
  shows "triple (on tr) (acquireSlot api self rr)
    (case_outcome (\<lambda>x st. (0 \<le> fst x \<longrightarrow> owned (fst x)) \<and> on tr st) (\<lambda>_. False) (\<lambda>_. True))"
proof -
  have got: "triple (on tr) (obind (silent m) (\<lambda>got. ret (Ret (got, f got))))
      (case_outcome (\<lambda>x st. (0 \<le> fst x \<longrightarrow> owned (fst x)) \<and> on tr st) (\<lambda>_. False) (\<lambda>_. True))"
    if "triple inv m (case_outcome (\<lambda>j s. (0 \<le> j \<longrightarrow> owned j) \<and> inv s) (\<lambda>_. False) (\<lambda>_. True))"
    for m :: "('s, int outcome) state" and f :: "int \<Rightarrow> u32"
  proof (rule triple_obind_total)
    show "triple (on tr) (silent m) (case_outcome (\<lambda>j st. (0 \<le> j \<longrightarrow> owned j) \<and> on tr st) (\<lambda>_. False) (\<lambda>_. True))"
      using that unfolding triple_def wp_def traced_def on_def by (auto split: prod.splits outcome.splits; fastforce)
  qed (auto intro!: triple_ret)
  have "(word_of_int (maxInFlight self) :: u32) \<noteq> 0" "\<not> baseSlot self + sint (rr mod word_of_int (maxInFlight self)) \<ge> 2 ^ 31"
    if "\<not> baseSlot self < 0"
    using rotation_in_range(1) [OF self] rotation_in_range(2) [OF self, of rr] that by auto
  then show ?thesis
    unfolding acquireSlot_def Let_def
    by (intro triple_if got acquire acquire_specific) auto
qed

lemma t_do_write:
  "owned j \<Longrightarrow> int (length bs) \<le> cap \<Longrightarrow>
    triple (on tr) (do_write api j bs) (\<lambda>r st. r = Ret () \<and> on (tr @ [Wrote j bs]) st)"
  unfolding do_write_def by (rule triple_weaken [OF t_traced [OF writes]]) auto

lemma t_do_send:
  "owned j \<Longrightarrow> triple (on tr) (do_send api j n mt) (\<lambda>r st. on (tr @ [Sent j n mt (\<not> void_HasError r)]) st)"
  unfolding do_send_def by (rule triple_weaken [OF t_traced [OF sends]]) auto

abbreviation settled_call :: "(bool \<Rightarrow> api_call) \<Rightarrow> api_call list \<Rightarrow> int result outcome \<Rightarrow> 's traced \<Rightarrow> bool" where
  "settled_call f tr r st \<equiv> (case r of
     Ret res \<Rightarrow> res \<noteq> Inl Error_None \<and> on (tr @ [f (\<not> HasError res)]) st | Trap \<Rightarrow> False | NoFuel \<Rightarrow> True)"

lemma t_do_call: "owned j \<Longrightarrow> triple (on tr) (do_call api j n mt) (settled_call (Called j n mt) tr)"
  unfolding do_call_def by (rule triple_weaken [OF t_traced [OF calls]]) (auto split: outcome.splits)

lemma t_do_wait: "owned j \<Longrightarrow> triple (on tr) (do_wait api j t) (settled_call (Collected j t) tr)"
  unfolding do_wait_def by (rule triple_weaken [OF t_traced [OF waits]]) (auto split: outcome.splits)

lemma t_drain:
  "list_all owned q \<Longrightarrow> triple (on tr) (drain_pending api q) (\<lambda>r st. case r of
     Ret _ \<Rightarrow> (\<exists>oks. length oks = length q \<and> on (tr @ abandoned q oks) st) | Trap \<Rightarrow> False | NoFuel \<Rightarrow> True)"
proof (induction q arbitrary: tr)
  case Nil
  show ?case
    by (auto intro!: triple_ret simp: abandoned_def)
next
  case (Cons s q)
  have "triple (on (tr @ [Collected s 1 ok])) (drain_pending api q) (\<lambda>r st. case r of
     Ret _ \<Rightarrow> (\<exists>oks. length oks = length (s # q) \<and> on (tr @ abandoned (s # q) oks) st) | Trap \<Rightarrow> False | NoFuel \<Rightarrow> True)" for ok
  proof (rule triple_weaken [OF Cons.IH])
    fix r st
    assume "case r of Ret _ \<Rightarrow> (\<exists>oks. length oks = length q \<and> on ((tr @ [Collected s 1 ok]) @ abandoned q oks) st)
      | Trap \<Rightarrow> False | NoFuel \<Rightarrow> True"
    then show "case r of Ret _ \<Rightarrow> (\<exists>oks. length oks = length (s # q) \<and> on (tr @ abandoned (s # q) oks) st)
      | Trap \<Rightarrow> False | NoFuel \<Rightarrow> True"
      by (cases r) (auto simp: abandoned_def intro: exI [of _ "ok # oks" for oks])
  qed (use Cons.prems in auto)
  then have rest: "triple (\<lambda>st. res \<noteq> Inl Error_None \<and> on (tr @ [Collected s 1 (\<not> HasError res)]) st) (drain_pending api q)
     (\<lambda>r st. case r of Ret _ \<Rightarrow> (\<exists>oks. length oks = length (s # q) \<and> on (tr @ abandoned (s # q) oks) st)
       | Trap \<Rightarrow> False | NoFuel \<Rightarrow> True)" for res :: "int result"
    by (rule triple_weaken) auto
  show ?case
    unfolding drain_pending.simps
    by (rule triple_obind [OF triple_weaken [OF t_do_wait] rest]) (use Cons.prems in \<open>auto split: outcome.splits\<close>)
qed

lemma t_send_chunk:
  assumes sd: "stream_data n d sz ps" and cap: "cap = int n + int sizeof_ChunkHeader"
    and own: "owned s" "list_all owned (pendingSlots p)" and pa: "pipe_at d ps k p" and k: "k < length ps"
  shows "triple (on tr) (send_chunk api d sz i s p) (\<lambda>r st. case r of
     Ret (Inl e) \<Rightarrow> e \<noteq> Error_None \<and> (\<exists>oks. length oks = length (pendingSlots p) \<and>
       on (tr @ chunk_calls i ps k s False @ abandoned (pendingSlots p) oks) st)
   | Ret (Inr p') \<Rightarrow> pipe_at d ps (Suc k) p' \<and> pendingSlots p' = pendingSlots p @ [s] \<and> on (tr @ chunk_calls i ps k s True) st
   | Trap \<Rightarrow> False | NoFuel \<Rightarrow> True)" (is "triple _ _ ?R")
proof -
  note c = cur_chunk [OF sd pa k]
  let ?cur = "chunk_size (remaining p) (int n)" and ?w = "Wrote s (chunk_bytes i ps k)"
  have len: "int (length (chunk_bytes i ps k)) \<le> cap"
    using part(3) [OF sd k] by (simp add: cap chunk_bytes_def)
  have drain: "triple (on (tr @ chunk_calls i ps k s False)) (obind (drain_pending api (pendingSlots p)) (\<lambda>_. ret (Ret (Inl e)))) ?R"
    if "e \<noteq> Error_None" for e
    by (rule triple_obind [where Q = "\<lambda>_ st. \<exists>oks. length oks = length (pendingSlots p) \<and>
         on (tr @ chunk_calls i ps k s False @ abandoned (pendingSlots p) oks) st"])
      (use that in \<open>auto intro!: triple_ret triple_weaken [OF t_drain [OF own(2)]] split: outcome.splits\<close>)
  have sent: "triple (on ((tr @ [?w]) @ [Sent s (word_of_nat (length (chunk_bytes i ps k))) STREAM_CHUNK (\<not> void_HasError res)]))
      (if void_HasError res
       then obind (drain_pending api (pendingSlots p)) (\<lambda>_. ret (Ret (Inl (void_GetError res))))
       else ret (Ret (Inr (p\<lparr>pendingSlots := pendingSlots p @ [s], remaining := remaining p - ucast ?cur,
         chunkIndex := chunkIndex p + 1\<rparr>)))) ?R" for res
    using drain [of "void_GetError res"] c(5)
    by (cases "void_HasError res") (auto intro!: triple_ret simp: chunk_calls_def void_HasError_def void_GetError_def)
  have wrote: "triple (on tr) (do_write api s (chunk_bytes i ps k)) (case_outcome (\<lambda>_. on (tr @ [?w])) (?R Trap) (?R NoFuel))"
    by (rule triple_weaken [OF t_do_write [OF own(1) len]]) auto
  show ?thesis
    unfolding send_chunk_def Let_def
  proof (rule triple_bind_value [OF t_silent [OF capacity [OF own(1)]]], simp only: cap add_diff_cancel_right' c(1-3) c(4) [of i] option.case)
    show "triple (on tr) (obind (do_write api s (chunk_bytes i ps k)) (\<lambda>_. State_Monad.bind
        (do_send api s (word_of_nat (length (chunk_bytes i ps k))) STREAM_CHUNK) (\<lambda>res.
        if void_HasError res
        then obind (drain_pending api (pendingSlots p)) (\<lambda>_. ret (Ret (Inl (void_GetError res))))
        else ret (Ret (Inr (p\<lparr>pendingSlots := pendingSlots p @ [s], remaining := remaining p - ucast ?cur,
          chunkIndex := chunkIndex p + 1\<rparr>)))))) ?R"
      by (rule triple_obind [OF wrote], rule triple_bind [OF t_do_send [OF own(1)]], rule sent)
  qed
qed

text \<open>The loop after \<open>k\<close> chunks, and how it fails; \<open>tr0\<close> is what was called before it.\<close>

definition running :: "int \<Rightarrow> u64 \<Rightarrow> byte list list \<Rightarrow> byte list \<Rightarrow> api_call list \<Rightarrow> nat \<Rightarrow> pipe \<Rightarrow> 's traced \<Rightarrow> bool" where
  "running inFlight i ps d tr0 k p st = (pipe_at d ps k p \<and> list_all owned (pendingSlots p) \<and>
     (\<exists>tr. pipeline inFlight i ps k (pendingSlots p) tr \<and> on (tr0 @ tr) st))"

definition failed :: "int \<Rightarrow> u64 \<Rightarrow> byte list list \<Rightarrow> api_call list \<Rightarrow> 's traced \<Rightarrow> bool" where
  "failed inFlight i ps tr0 st = (\<exists>k q tr rest. pipeline inFlight i ps k q tr \<and> broken_off i ps k q rest \<and> on (tr0 @ tr @ rest) st)"

lemma running_next:
  assumes sd: "stream_data n d sz ps" and cap: "cap = int n + int sizeof_ChunkHeader" and s: "owned s"
    and k: "k < length ps" and room: "int (length (pendingSlots p)) < inFlight"
  shows "triple (running inFlight i ps d tr0 k p) (send_chunk api d sz i s p) (\<lambda>r st. case r of
     Ret (Inl e) \<Rightarrow> e \<noteq> Error_None \<and> failed inFlight i ps tr0 st
   | Ret (Inr p') \<Rightarrow> pendingSlots p' = pendingSlots p @ [s] \<and> running inFlight i ps d tr0 (Suc k) p' st
   | Trap \<Rightarrow> False | NoFuel \<Rightarrow> True)" (is "triple ?P ?m ?Q")
proof (rule triple_pre)
  fix st
  assume "running inFlight i ps d tr0 k p st"
  then obtain tr where r: "pipe_at d ps k p" "list_all owned (pendingSlots p)"
      "pipeline inFlight i ps k (pendingSlots p) tr" "on (tr0 @ tr) st"
    by (auto simp: running_def)
  have going: "running inFlight i ps d tr0 (Suc k) p' st'"
    if "pipe_at d ps (Suc k) p'" "pendingSlots p' = pendingSlots p @ [s]" "on ((tr0 @ tr) @ chunk_calls i ps k s True) st'" for p' st'
    using that s r(2) pipe_send [OF r(3) k room, of s] by (auto simp: running_def)
  have fail: "failed inFlight i ps tr0 st'" if "length oks = length (pendingSlots p)"
      "on ((tr0 @ tr) @ chunk_calls i ps k s False @ abandoned (pendingSlots p) oks) st'" for oks st'
    using that k r(3) broken_send unfolding failed_def append_assoc by blast
  show "triple ((=) st) ?m ?Q"
    by (rule triple_weaken [OF t_send_chunk [OF sd cap s r(2,1) k, of "tr0 @ tr"]])
      (use r(4) going fail in \<open>auto split: outcome.splits sum.splits\<close>)
qed

lemma running_rr [simp]: "running inFlight i ps d tr0 k (p\<lparr>pipe_rr := rr\<rparr>) = running inFlight i ps d tr0 k p"
  by (rule ext) (simp add: running_def pipe_at_def)

lemma running_more: "stream_data n d sz ps \<Longrightarrow> 0 < remaining p \<Longrightarrow> running inFlight i ps d tr0 k p st \<Longrightarrow> k < length ps"
  using more_iff by (auto simp: running_def)

lemma t_acquire_running:
  assumes "rotation_ok self"
  shows "triple (running inFlight i ps d tr0 k p) (acquireSlot api self rr)
    (case_outcome (\<lambda>x st. (0 \<le> fst x \<longrightarrow> owned (fst x)) \<and> running inFlight i ps d tr0 k p st) (\<lambda>_. False) (\<lambda>_. True))"
proof (rule triple_pre)
  fix st
  assume "running inFlight i ps d tr0 k p st"
  then obtain tr where r: "pipe_at d ps k p" "list_all owned (pendingSlots p)"
      "pipeline inFlight i ps k (pendingSlots p) tr" "on (tr0 @ tr) st"
    by (auto simp: running_def)
  show "triple ((=) st) (acquireSlot api self rr)
    (case_outcome (\<lambda>x st. (0 \<le> fst x \<longrightarrow> owned (fst x)) \<and> running inFlight i ps d tr0 k p st) (\<lambda>_. False) (\<lambda>_. True))"
    by (rule triple_weaken [OF t_first_slot [OF assms, of "tr0 @ tr" rr]])
      (use r in \<open>auto simp: running_def split: outcome.splits\<close>)
qed

text \<open>What the inner loop leaves behind.\<close>

abbreviation filled :: "int \<Rightarrow> u64 \<Rightarrow> byte list list \<Rightarrow> byte list \<Rightarrow> api_call list \<Rightarrow> (error + pipe) outcome \<Rightarrow> 's traced \<Rightarrow> bool" where
  "filled inFlight i ps d tr0 r st \<equiv> (case r of
     Ret (Inl e) \<Rightarrow> e \<noteq> Error_None \<and> failed inFlight i ps tr0 st
   | Ret (Inr p') \<Rightarrow> (\<exists>k'. running inFlight i ps d tr0 k' p' st) | Trap \<Rightarrow> False | NoFuel \<Rightarrow> True)"

lemma t_fill_step:
  assumes sd: "stream_data n d sz ps" and cap: "cap = int n + int sizeof_ChunkHeader"
    and room: "int (length (pendingSlots p)) < inFlight" and more: "0 < remaining p" and s: "owned s"
    and rest: "\<And>p'. pendingSlots p' = pendingSlots p @ [s] \<Longrightarrow>
      triple (running inFlight i ps d tr0 (Suc k) p') (f p') (filled inFlight i ps d tr0)"
  shows "triple (running inFlight i ps d tr0 k p)
    (obind (send_chunk api d sz i s (p\<lparr>pipe_rr := rr\<rparr>)) (\<lambda>r. case r of Inl e \<Rightarrow> ret (Ret (Inl e)) | Inr p' \<Rightarrow> f p'))
    (filled inFlight i ps d tr0)"
proof (rule triple_obind_total)
  let ?Q = "\<lambda>r st. case r of Inl e \<Rightarrow> e \<noteq> Error_None \<and> failed inFlight i ps tr0 st
     | Inr p' \<Rightarrow> pendingSlots p' = pendingSlots p @ [s] \<and> running inFlight i ps d tr0 (Suc k) p' st"
  have "triple (\<lambda>st. k < length ps \<and> running inFlight i ps d tr0 k (p\<lparr>pipe_rr := rr\<rparr>) st)
      (send_chunk api d sz i s (p\<lparr>pipe_rr := rr\<rparr>)) (case_outcome ?Q (\<lambda>_. False) (\<lambda>_. True))"
    by (rule triple_pure, rule triple_weaken [OF running_next [OF sd cap]])
      (use s room in \<open>auto split: outcome.splits sum.splits\<close>)
  then show "triple (running inFlight i ps d tr0 k p) (send_chunk api d sz i s (p\<lparr>pipe_rr := rr\<rparr>))
      (case_outcome ?Q (\<lambda>_. False) (\<lambda>_. True))"
    by (rule triple_weaken) (use running_more [OF sd more] in auto)
  show "triple (?Q r) (case r of Inl e \<Rightarrow> ret (Ret (Inl e)) | Inr p' \<Rightarrow> f p') (filled inFlight i ps d tr0)" for r
    by (cases r) (auto intro!: triple_ret triple_pure rest)
qed simp

lemma t_fill:
  assumes sd: "stream_data n d sz ps" and cap: "cap = int n + int sizeof_ChunkHeader" and self: "rotation_ok self"
  shows "0 < room \<longrightarrow> int room + int (length (pendingSlots p)) \<le> inFlight \<Longrightarrow>
    triple (running inFlight i ps d tr0 k p) (fill_pipeline room api self d sz i p) (filled inFlight i ps d tr0)"
proof (induction room arbitrary: k p)
  case 0
  show ?case
    by (subst fill_pipeline.simps) (auto intro!: triple_ret)
next
  case (Suc room)
  show ?case
  proof (cases "0 < remaining p")
    case False
    then show ?thesis
      by (subst fill_pipeline.simps) (auto intro!: triple_ret)
  next
    case True
    have step: "triple (\<lambda>st. (0 \<le> fst x \<longrightarrow> owned (fst x)) \<and> running inFlight i ps d tr0 k p st)
        (case x of (s, rr) \<Rightarrow> if s < 0 then ret (Ret (Inr (p\<lparr>pipe_rr := rr\<rparr>)))
         else obind (send_chunk api d sz i s (p\<lparr>pipe_rr := rr\<rparr>)) (\<lambda>r. case r of
              Inl e \<Rightarrow> ret (Ret (Inl e)) | Inr p' \<Rightarrow> fill_pipeline room api self d sz i p'))
        (filled inFlight i ps d tr0)" for x
      using Suc.prems True
      by (cases x, simp only: prod.case fst_conv, intro triple_pure triple_if t_fill_step [OF sd cap] Suc.IH)
        (auto intro!: triple_ret)
    have "triple (running inFlight i ps d tr0 k p) (obind (acquireSlot api self (pipe_rr p)) (\<lambda>(s, rr).
        if s < 0 then ret (Ret (Inr (p\<lparr>pipe_rr := rr\<rparr>)))
        else obind (send_chunk api d sz i s (p\<lparr>pipe_rr := rr\<rparr>)) (\<lambda>r. case r of
              Inl e \<Rightarrow> ret (Ret (Inl e)) | Inr p' \<Rightarrow> fill_pipeline room api self d sz i p')))
        (filled inFlight i ps d tr0)"
      by (rule triple_obind_total [OF t_acquire_running [OF self] step]) simp
    then show ?thesis
      using True by (simp only: fill_pipeline.simps [of "Suc room"] diff_Suc_1 zero_less_Suc simp_thms if_True)
  qed
qed

abbreviation collected :: "int \<Rightarrow> u64 \<Rightarrow> byte list list \<Rightarrow> byte list \<Rightarrow> api_call list \<Rightarrow> nat \<Rightarrow> pipe \<Rightarrow> int result \<Rightarrow> 's traced \<Rightarrow> bool" where
  "collected inFlight i ps d tr0 k p res st \<equiv>
     (case res of
        Inl e \<Rightarrow> e \<noteq> Error_None \<and> (\<exists>tr. pipeline inFlight i ps k (pendingSlots p) tr \<and>
          on (tr0 @ tr @ [Collected (hd (pendingSlots p)) USE_DEFAULT_TIMEOUT False]) st)
      | Inr _ \<Rightarrow> running inFlight i ps d tr0 k (p\<lparr>pendingSlots := tl (pendingSlots p)\<rparr>) st)"

lemma t_collect:
  assumes q: "pendingSlots p = s # rest"
  shows "triple (running inFlight i ps d tr0 k p) (do_wait api s USE_DEFAULT_TIMEOUT)
    (case_outcome (collected inFlight i ps d tr0 k p) (\<lambda>_. False) (\<lambda>_. True))"
proof (rule triple_pre)
  fix st
  assume "running inFlight i ps d tr0 k p st"
  then obtain tr where r: "pipe_at d ps k p" "owned s" "list_all owned rest"
      "pipeline inFlight i ps k (s # rest) tr" "on (tr0 @ tr) st"
    by (auto simp: running_def q)
  have ok: "running inFlight i ps d tr0 k (p\<lparr>pendingSlots := rest\<rparr>) st'"
    if "on ((tr0 @ tr) @ [Collected s USE_DEFAULT_TIMEOUT True]) st'" for st'
    using that r pipe_collect [OF r(4)] by (auto simp: running_def pipe_at_def)
  have bad: "\<exists>tr. pipeline inFlight i ps k (s # rest) tr \<and> on (tr0 @ tr @ [Collected s USE_DEFAULT_TIMEOUT False]) st'"
    if "on ((tr0 @ tr) @ [Collected s USE_DEFAULT_TIMEOUT False]) st'" for st'
    using that r(4) unfolding append_assoc by blast
  have "collected inFlight i ps d tr0 k p res st'"
    if "res \<noteq> Inl Error_None" "on ((tr0 @ tr) @ [Collected s USE_DEFAULT_TIMEOUT (\<not> HasError res)]) st'" for res :: "int result" and st'
    using that ok bad by (cases res) (simp_all add: q)
  then show "triple ((=) st) (do_wait api s USE_DEFAULT_TIMEOUT)
      (case_outcome (collected inFlight i ps d tr0 k p) (\<lambda>_. False) (\<lambda>_. True))"
    by (intro triple_weaken [OF t_do_wait [OF r(2), of "tr0 @ tr" USE_DEFAULT_TIMEOUT]])
      (use r(5) in \<open>auto split: outcome.splits\<close>)
qed

abbreviation finished :: "int \<Rightarrow> u64 \<Rightarrow> byte list list \<Rightarrow> api_call list \<Rightarrow> result_void outcome \<Rightarrow> 's traced \<Rightarrow> bool" where
  "finished inFlight i ps tr0 r st \<equiv> (case r of
     Ret res \<Rightarrow> if res = Success then \<exists>tr. pipeline inFlight i ps (length ps) [] tr \<and> on (tr0 @ tr) st else failed inFlight i ps tr0 st
   | Trap \<Rightarrow> False | NoFuel \<Rightarrow> True)"

lemma t_settle:
  assumes q: "pendingSlots p = s # rest"
    and loop: "triple (running inFlight i ps d tr0 k (p\<lparr>pendingSlots := rest\<rparr>)) f (finished inFlight i ps tr0)"
  shows "triple (running inFlight i ps d tr0 k p)
    (obind (do_wait api s USE_DEFAULT_TIMEOUT) (\<lambda>res.
       if HasError res then obind (drain_pending api rest) (\<lambda>_. ret (Ret (Failure (GetError res)))) else f))
    (finished inFlight i ps tr0)"
proof (rule triple_pre)
  fix st
  assume st: "running inFlight i ps d tr0 k p st"
  then have own: "list_all owned rest"
    by (simp add: running_def q)
  have "triple (collected inFlight i ps d tr0 k p (Inl e))
      (obind (drain_pending api rest) (\<lambda>_. ret (Ret (Failure e)))) (finished inFlight i ps tr0)" for e
  proof (rule triple_pre)
    fix st'
    assume "collected inFlight i ps d tr0 k p (Inl e) st'"
    then obtain tr where tr: "e \<noteq> Error_None" "pipeline inFlight i ps k (s # rest) tr"
        "on (tr0 @ tr @ [Collected s USE_DEFAULT_TIMEOUT False]) st'"
      by (auto simp: q)
    let ?Q = "\<lambda>(_ :: unit) st. \<exists>oks. length oks = length rest \<and>
      on ((tr0 @ tr @ [Collected s USE_DEFAULT_TIMEOUT False]) @ abandoned rest oks) st"
    have "failed inFlight i ps tr0 st" if "?Q () st" for st
      using that tr(2) broken_collect unfolding failed_def append_assoc append_Cons append_Nil by blast
    then show "triple ((=) st') (obind (drain_pending api rest) (\<lambda>_. ret (Ret (Failure e)))) (finished inFlight i ps tr0)"
      by (intro triple_obind_total [where Q = ?Q] triple_ret triple_weaken [OF t_drain [OF own]])
        (use tr in \<open>auto simp: Failure_def Success_def split: outcome.splits\<close>)
  qed
  then have body: "triple (collected inFlight i ps d tr0 k p res)
      (if HasError res then obind (drain_pending api rest) (\<lambda>_. ret (Ret (Failure (GetError res)))) else f)
      (finished inFlight i ps tr0)" for res :: "int result"
    using loop by (cases res) (simp_all add: q)
  show "triple ((=) st) (obind (do_wait api s USE_DEFAULT_TIMEOUT) (\<lambda>res.
       if HasError res then obind (drain_pending api rest) (\<lambda>_. ret (Ret (Failure (GetError res)))) else f))
    (finished inFlight i ps tr0)"
    by (rule triple_obind_total [OF triple_weaken [OF t_collect [OF q]] body]) (use st in auto)
qed

lemma t_loop:
  assumes sd: "stream_data n d sz ps" and cap: "cap = int n + int sizeof_ChunkHeader" and self: "rotation_ok self"
  shows "triple (running (maxInFlight self) i ps d tr0 k p) (send_loop fuel api self d sz i p) (finished (maxInFlight self) i ps tr0)"
proof (induction fuel arbitrary: k p)
  case 0
  show ?case
    by (auto intro!: triple_ret)
next
  case (Suc fuel)
  let ?F = "maxInFlight self"
  have collect: "triple (running ?F i ps d tr0 k' p')
      (case pendingSlots p' of
         [] \<Rightarrow> send_loop fuel api self d sz i p'
       | s # rest \<Rightarrow> obind (do_wait api s USE_DEFAULT_TIMEOUT) (\<lambda>res.
           if HasError res then obind (drain_pending api rest) (\<lambda>_. ret (Ret (Failure (GetError res))))
           else send_loop fuel api self d sz i (p'\<lparr>pendingSlots := rest\<rparr>)))
      (finished ?F i ps tr0)" for k' p'
    using Suc.IH [of k' p'] t_settle [OF _ Suc.IH] by (cases "pendingSlots p'") simp_all
  have round: "triple (case r of Inl e \<Rightarrow> \<lambda>st. e \<noteq> Error_None \<and> failed ?F i ps tr0 st
        | Inr p' \<Rightarrow> \<lambda>st. \<exists>k'. running ?F i ps d tr0 k' p' st)
      (case r of Inl e \<Rightarrow> ret (Ret (Failure e)) | Inr p' \<Rightarrow> (case pendingSlots p' of
         [] \<Rightarrow> send_loop fuel api self d sz i p'
       | s # rest \<Rightarrow> obind (do_wait api s USE_DEFAULT_TIMEOUT) (\<lambda>res.
           if HasError res then obind (drain_pending api rest) (\<lambda>_. ret (Ret (Failure (GetError res))))
           else send_loop fuel api self d sz i (p'\<lparr>pendingSlots := rest\<rparr>))))
      (finished ?F i ps tr0)" for r
  proof (cases r)
    case (Inl e)
    then show ?thesis
      by (auto intro!: triple_ret simp: Failure_def Success_def)
  next
    case (Inr p')
    then show ?thesis
      by (simp only: sum.case) (rule triple_ex, rule collect)
  qed
  have fill: "triple (running ?F i ps d tr0 k p)
      (fill_pipeline (nat (?F - int (length (pendingSlots p)))) api self d sz i p)
      (case_outcome (case_sum (\<lambda>e st. e \<noteq> Error_None \<and> failed ?F i ps tr0 st)
        (\<lambda>p' st. \<exists>k'. running ?F i ps d tr0 k' p' st)) (\<lambda>_. False) (\<lambda>_. True))"
    by (rule triple_weaken [OF t_fill [OF sd cap self]]) (auto split: outcome.splits sum.splits)
  have stop: "finished ?F i ps tr0 (Ret Success) st"
    if "\<not> (0 < remaining p \<or> pendingSlots p \<noteq> [])" "running ?F i ps d tr0 k p st" for st
  proof -
    have "k = length ps"
      using that more_iff [OF sd, of k p] by (auto simp: running_def pipe_at_def)
    then show ?thesis
      using that by (auto simp: running_def)
  qed
  show ?case
    unfolding send_loop.simps
    by (intro triple_if triple_ret triple_obind_total [OF fill round] stop) auto
qed

lemma t_with_slot:
  assumes "rotation_ok self" and body: "\<And>s rr. owned s \<Longrightarrow> triple (on []) (f s rr) R"
    and none: "\<And>st. on [] st \<Longrightarrow> R (Ret (Inl ResourceExhausted)) st" and fuel: "\<And>st. R NoFuel st"
  shows "triple (on []) (obind (acquireSlot api self 0) (\<lambda>(s, rr).
    if s < 0 then ret (Ret (Inl ResourceExhausted)) else f s rr)) R"
proof (rule triple_obind_total [OF t_first_slot [OF assms(1)]])
  fix x :: "int \<times> u32"
  obtain s rr where x: "x = (s, rr)"
    by (cases x)
  show "triple (\<lambda>st. (0 \<le> fst x \<longrightarrow> owned (fst x)) \<and> on [] st)
      (case x of (s, rr) \<Rightarrow> if s < 0 then ret (Ret (Inl ResourceExhausted)) else f s rr) R"
    unfolding x prod.case fst_conv
    by (rule triple_pure, rule triple_if) (auto intro!: triple_ret none body)
qed (rule fuel)

abbreviation started :: "u64 \<Rightarrow> u32 \<Rightarrow> byte list list \<Rightarrow> error + u32 \<Rightarrow> 's traced \<Rightarrow> bool" where
  "started i tag ps r st \<equiv> (case r of
     Inl e \<Rightarrow> e \<noteq> Error_None \<and> (on [] st \<or> (\<exists>s. on (start_calls i tag ps s False) st))
   | Inr rr \<Rightarrow> (\<exists>s. on (start_calls i tag ps s True) st))"

lemma t_start:
  assumes sd: "stream_data n d sz ps" and cap: "cap = int n + int sizeof_ChunkHeader" and self: "rotation_ok self"
  shows "triple (on []) (send_start api self sz i tag) (case_outcome (started i tag ps) (\<lambda>_. False) (\<lambda>_. True))"
proof -
  let ?R = "case_outcome (started i tag ps) (\<lambda>_. False) (\<lambda>_. True)"
  let ?h = "StreamHeader_bytes (start_header i tag ps)"
  have small: "(cap \<le> int sizeof_ChunkHeader) = False"
    using stream_dataD(1) [OF sd] by (simp add: cap)
  have len: "int (length ?h) \<le> cap"
    using stream_dataD(1) [OF sd] by (simp add: cap)
  have reply: "triple (\<lambda>st. res \<noteq> Inl Error_None \<and>
        on ([Wrote s ?h] @ [Called s (word_of_nat sizeof_StreamHeader) STREAM_START (\<not> HasError res)]) st)
      (ret (Ret (if HasError res then Inl (GetError res) else Inr rr))) ?R" for s rr and res :: "int result"
    by (cases res) (auto intro!: triple_ret simp: start_calls_def)
  have call: "triple (on [Wrote s ?h]) (do_call api s (word_of_nat sizeof_StreamHeader) STREAM_START)
      (case_outcome (\<lambda>res st. res \<noteq> Inl Error_None \<and>
        on ([Wrote s ?h] @ [Called s (word_of_nat sizeof_StreamHeader) STREAM_START (\<not> HasError res)]) st) (\<lambda>_. False) (\<lambda>_. True))"
    if "owned s" for s
    by (rule triple_weaken [OF t_do_call [OF that]]) (auto split: outcome.splits)
  have wrote: "triple (on []) (do_write api s ?h) (case_outcome (\<lambda>_. on [Wrote s ?h]) (\<lambda>_. False) (\<lambda>_. True))" if "owned s" for s
    by (rule triple_weaken [OF t_do_write [OF that len]]) auto
  have body: "triple (on []) (State_Monad.bind (silent (api_GetMaxReqSize api s)) (\<lambda>maxReq.
      if maxReq \<le> int sizeof_ChunkHeader then f else
        obind (do_write api s (StreamHeader_bytes (make_stream_header i sz (total_chunks sz (maxReq - int sizeof_ChunkHeader)) tag))) (\<lambda>_.
        obind (do_call api s (word_of_nat sizeof_StreamHeader) STREAM_START) (\<lambda>res.
          ret (Ret (if HasError res then Inl (GetError res) else Inr rr)))))) ?R" if "owned s" for s f rr
    by (rule triple_bind_value [OF t_silent [OF capacity [OF that]]])
      (simp only: small if_False, simp only: cap add_diff_cancel_right' start_chunks [OF sd] start_header_data [OF sd],
        rule triple_obind_total [OF wrote [OF that] triple_obind_total [OF call [OF that] reply]], simp_all)
  show ?thesis
    unfolding send_start_def Let_def
    by (rule t_with_slot [OF self body]) (auto)
qed

lemma t_start_small:
  assumes small: "cap \<le> int sizeof_ChunkHeader" and self: "rotation_ok self"
  shows "triple (on []) (send_start api self sz i tag) (case_outcome (\<lambda>r st. case r of
     Inl e \<Rightarrow> \<exists>tr. stream_aborted (Ret (Failure e)) tr \<and> on tr st | Inr _ \<Rightarrow> False) (\<lambda>_. False) (\<lambda>_. True))"
proof -
  let ?Q = "\<lambda>r st. case r of Inl e \<Rightarrow> \<exists>tr. stream_aborted (Ret (Failure e)) tr \<and> on tr st | Inr _ \<Rightarrow> False"
  let ?R = "case_outcome ?Q (\<lambda>_. False) (\<lambda>_. True)"
  have abort: "triple (on ([] @ [Sent s 0 SYSTEM_ERROR (\<not> void_HasError res)]))
      (obind (do_wait api s USE_DEFAULT_TIMEOUT) (\<lambda>_. ret (Ret (Inl BufferTooSmall)))) ?R" if "owned s" for s res
  proof (rule triple_obind_total)
    show "triple (on ([] @ [Sent s 0 SYSTEM_ERROR (\<not> void_HasError res)])) (do_wait api s USE_DEFAULT_TIMEOUT)
        (case_outcome (\<lambda>_ st. \<exists>b. on [Sent s 0 SYSTEM_ERROR (\<not> void_HasError res), Collected s USE_DEFAULT_TIMEOUT b] st)
          (\<lambda>_. False) (\<lambda>_. True))"
      by (rule triple_weaken [OF t_do_wait [OF that]]) (auto split: outcome.splits)
    show "triple (\<lambda>st. \<exists>b. on [Sent s 0 SYSTEM_ERROR (\<not> void_HasError res), Collected s USE_DEFAULT_TIMEOUT b] st)
        (ret (Ret (Inl BufferTooSmall))) ?R"
      by (rule triple_ret, simp only: outcome.case sum.case) (use stream_aborted_small in blast)
  qed simp
  have body: "triple (on []) (State_Monad.bind (silent (api_GetMaxReqSize api s)) (\<lambda>maxReq.
      if maxReq \<le> int sizeof_ChunkHeader then State_Monad.bind (do_send api s 0 SYSTEM_ERROR) (\<lambda>_.
        obind (do_wait api s USE_DEFAULT_TIMEOUT) (\<lambda>_. ret (Ret (Inl BufferTooSmall)))) else f maxReq)) ?R" if "owned s" for s f
    by (rule triple_bind_value [OF t_silent [OF capacity [OF that]]])
      (simp only: small if_True, rule triple_bind [OF t_do_send [OF that] abort [OF that]])
  show ?thesis
    unfolding send_start_def Let_def
    by (rule t_with_slot [OF self body]) (auto simp: stream_aborted_def)
qed

lemma stream_send_small:
  assumes small: "cap \<le> int sizeof_ChunkHeader" and self: "rotation_ok self" and fits: "sz \<le> kMaxStreamSize"
  shows "triple (on []) (stream_Send fuel (Some api) self (Some d) sz i tag)
    (\<lambda>r st. r = NoFuel \<or> (\<exists>tr. stream_aborted r tr \<and> on tr st))" (is "triple _ _ ?R")
proof -
  have "triple (\<lambda>st. case r of Inl e \<Rightarrow> \<exists>tr. stream_aborted (Ret (Failure e)) tr \<and> on tr st | Inr _ \<Rightarrow> False)
      (case r of Inl e \<Rightarrow> ret (Ret (Failure e)) | Inr rr \<Rightarrow> f rr) ?R" for r :: "error + u32" and f
    by (cases r) (auto intro!: triple_ret simp: triple_def [of "\<lambda>_. False"])
  moreover
  have "(sz > kMaxStreamSize) = False"
    using fits by simp
  ultimately show ?thesis
    unfolding stream_Send_def prod.case option.case
    by (simp only: if_False) (intro triple_obind_total [OF t_start_small [OF small self]], auto)
qed

lemma running_start:
  assumes "stream_data n d sz ps" and "on tr0 st"
  shows "running inFlight i ps d tr0 0 \<lparr>remaining = sz, chunkIndex = 0, pendingSlots = [], pipe_rr = rr\<rparr> st"
  using assms unat_sz [OF assms(1)] pipe_start [of inFlight i ps]
  by (auto simp: running_def pipe_at_def intro!: exI [of _ "[]"])

lemma finished_calls:
  assumes "finished inFlight i ps (start_calls i tag ps s True) r st"
  shows "r = NoFuel \<or> (\<exists>tr. stream_calls inFlight i tag ps r tr \<and> on tr st)"
proof (cases r)
  case (Ret res)
  show ?thesis
    using assms unfolding Ret outcome.case failed_def
    by (cases "res = Success") (auto simp only: if_True if_False refl intro: stream_calls_complete stream_calls_failed)
qed (use assms in simp_all)

lemma stream_send_calls:
  assumes sd: "stream_data n d sz ps" and cap: "cap = int n + int sizeof_ChunkHeader" and self: "rotation_ok self"
  shows "triple (on []) (stream_Send fuel (Some api) self (Some d) sz i tag)
    (\<lambda>r st. r = NoFuel \<or> (\<exists>tr. stream_calls (maxInFlight self) i tag ps r tr \<and> on tr st))" (is "triple _ _ ?R")
proof -
  let ?p = "\<lambda>rr. \<lparr>remaining = sz, chunkIndex = 0, pendingSlots = [], pipe_rr = rr\<rparr>"
  have "(sz > kMaxStreamSize) = False"
    using stream_dataD(3) [OF sd] unat_sz [OF sd] by (simp add: word_less_nat_alt kMaxStreamSize_def)
  moreover have "triple (started i tag ps r) (case r of
      Inl e \<Rightarrow> ret (Ret (Failure e)) | Inr rr \<Rightarrow> send_loop fuel api self d sz i (?p rr)) ?R" for r
  proof (cases r)
    case (Inl e)
    show ?thesis
      unfolding Inl sum.case by (rule triple_ret) (use stream_calls_refused in blast)
  next
    case (Inr rr)
    have "triple (on (start_calls i tag ps s True)) (send_loop fuel api self d sz i (?p rr)) ?R" for s
      by (rule triple_weaken [OF t_loop [OF sd cap self, of i "start_calls i tag ps s True" 0 "?p rr"]
            running_start [OF sd] finished_calls])
    then show ?thesis
      using Inr by (simp only: sum.case) (rule triple_ex)
  qed
  ultimately show ?thesis
    unfolding stream_Send_def prod.case option.case
    by (simp only: if_False) (intro triple_obind_total [OF t_start [OF sd cap self]], auto)
qed

lemma stream_send_run:
  assumes s: "inv s" and self: "rotation_ok self" and d: "length d \<le> 2 ^ 30"
  shows "case run_state (stream_Send fuel (Some api) self (Some d) (word_of_nat (length d)) i tag) (s, []) of (r, (s', tr)) \<Rightarrow>
    (if cap \<le> int sizeof_ChunkHeader then stream_aborted r tr
     else stream_calls (maxInFlight self) i tag (split_parts (nat (cap - int sizeof_ChunkHeader)) d) r tr) \<and>
    (r = NoFuel \<or> inv s')"
proof -
  let ?n = "nat (cap - int sizeof_ChunkHeader)" and ?sz = "word_of_nat (length d) :: u64"
  let ?run = "run_state (stream_Send fuel (Some api) self (Some d) ?sz i tag) (s, [])"
  obtain r s' tr where run: "?run = (r, (s', tr))"
    by (metis surj_pair)
  have start: "on [] (s, [])"
    using s by (simp add: on_def)
  show ?thesis
  proof (cases "cap \<le> int sizeof_ChunkHeader")
    case True
    have "unat ?sz \<le> 2 ^ 30"
      using d by (simp add: unat_u64_of_nat)
    then have "?sz \<le> kMaxStreamSize"
      by (simp add: word_le_nat_alt kMaxStreamSize_def)
    from stream_send_small [OF True self this, of fuel d i tag] start have "r = NoFuel \<or> stream_aborted r tr \<and> inv s'"
      by (auto simp: triple_def wp_def run on_def)
    then show ?thesis
      using True by (auto simp: run)
  next
    case False
    have "stream_data ?n d ?sz (split_parts ?n d)"
      using False cap_i32 d by (simp add: stream_data_def)
    moreover have "cap = int ?n + int sizeof_ChunkHeader"
      using False by simp
    ultimately have "r = NoFuel \<or> stream_calls (maxInFlight self) i tag (split_parts ?n d) r tr \<and> inv s'"
      using stream_send_calls [of ?n d ?sz "split_parts ?n d" self fuel i tag] self start
      by (auto simp: triple_def wp_def run on_def)
    then show ?thesis
      using False by (auto simp: run)
  qed
qed

end

section \<open>Without room in the pipeline\<close>

text \<open>With no slot allowed in flight the loop makes no call and never ends.\<close>

lemma send_loop_spins:
  assumes "maxInFlight self \<le> 0" and "0 < remaining p" and "pendingSlots p = []"
  shows "run_state (send_loop fuel api self d sz i p) st = (NoFuel, st)"
proof (induction fuel)
  case (Suc fuel)
  have "run_state (fill_pipeline 0 api self d sz i p) st = (Ret (Inr p), st)"
    by (subst fill_pipeline.simps) simp
  then show ?case
    using assms Suc.IH by (simp add: obind_def)
qed simp

end
