(* ===== verification/Shm_Stream_Prompt.thy ===== *)
theory Shm_Stream_Prompt
  imports Shm_Stream_Pipeline
begin

text \<open>
  \<open>StreamSender::Send\<close> ends. Against a host that has a slot for every acquisition and whose
  peer accepts every message, each round of the loop collects one chunk, so that a buffer of
  \<open>m\<close> parts is sent in \<open>m + 1\<close> rounds.
\<close>

section \<open>Calls that return\<close>

lemma triple_obind_ret:
  assumes "triple P m (\<lambda>r s. \<exists>x. r = Ret x \<and> Q x s)" and "\<And>x. triple (Q x) (f x) R"
  shows "triple P (obind m f) R"
  by (rule triple_obind [OF triple_weaken [OF assms(1)] assms(2)]) auto

section \<open>A host that serves\<close>

text \<open>
  \<open>flight q\<close>: the slots \<open>q\<close> carry requests and the others are free; \<open>held j q\<close>: the sender holds
  slot \<open>j\<close> besides.
\<close>

locale prompt_host =
  fixes api :: "'s host_api" and flight :: "int list \<Rightarrow> 's \<Rightarrow> bool" and held :: "int \<Rightarrow> int list \<Rightarrow> 's \<Rightarrow> bool"
    and cap :: int and total :: nat
  assumes acquire: "length q < total \<Longrightarrow>
      triple (flight q) (api_AcquireSlot api) (\<lambda>r s. \<exists>j. r = Ret j \<and> 0 \<le> j \<and> held j q s)"
    and capacity: "triple (held j q) (api_GetMaxReqSize api j) (\<lambda>r s. r = cap \<and> held j q s)"
    and cap_i32: "cap < 2 ^ 31"
    and writes: "int (length bs) \<le> cap \<Longrightarrow> triple (held j q) (api_write api j bs) (\<lambda>r s. r = Ret () \<and> held j q s)"
    and calls: "int n \<le> cap \<Longrightarrow> triple (held j q) (api_SendAcquired api j (word_of_nat n) STREAM_START USE_DEFAULT_TIMEOUT)
      (\<lambda>r s. (\<exists>v. r = Ret (Inr v)) \<and> flight q s)"
    and sends: "int n \<le> cap \<Longrightarrow> triple (held j q) (api_SendAcquiredAsync api j (word_of_nat n) STREAM_CHUNK)
      (\<lambda>r s. r = Success \<and> flight (q @ [j]) s)"
    and waits: "triple (flight (j # q)) (api_WaitForSlot api j USE_DEFAULT_TIMEOUT)
      (\<lambda>r s. (\<exists>v. r = Ret (Inr v)) \<and> flight q s)"
begin

lemma t_traced: "triple P m (\<lambda>r s. A r \<and> Q r s) \<Longrightarrow> triple (\<lambda>st. P (fst st)) (traced ev m) (\<lambda>r st. A r \<and> Q r (fst st))"
  by (auto simp: triple_def wp_def traced_def split: prod.splits)

lemma t_acquireSlot:
  assumes "baseSlot self < 0" and "length q < total"
  shows "triple (\<lambda>st. flight q (fst st)) (acquireSlot api self rr) (\<lambda>r st. \<exists>x. r = Ret x \<and> 0 \<le> fst x \<and> held (fst x) q (fst st))"
proof -
  have "triple (\<lambda>st. flight q (fst st)) (silent (api_AcquireSlot api)) (\<lambda>r st. \<exists>j. r = Ret j \<and> 0 \<le> j \<and> held j q (fst st))"
    using t_traced [where A = "\<lambda>_. True" and ev = "\<lambda>_. []"] acquire [OF assms(2)] by simp
  then show ?thesis
    unfolding acquireSlot_def using assms(1)
    by (simp, elim triple_obind_ret) (auto intro!: triple_ret)
qed

lemma t_with_slot:
  "(\<And>s rr. triple (\<lambda>st. held s q (fst st)) (f s rr) R) \<Longrightarrow>
    triple (\<lambda>st. 0 \<le> fst x \<and> held (fst x) q (fst st)) (case x of (s, rr) \<Rightarrow> if s < 0 then m s rr else f s rr) R"
  by (rule triple_pure) (simp add: case_prod_unfold)

lemma t_send_chunk:
  assumes sd: "stream_data n d sz ps" and cap: "cap = int n + int sizeof_ChunkHeader"
    and pa: "pipe_at d ps k p" and k: "k < length ps"
  shows "triple (\<lambda>st. held s (pendingSlots p) (fst st)) (send_chunk api d sz i s p)
    (\<lambda>r st. \<exists>x. r = Ret x \<and> (\<exists>p'. x = Inr p' \<and> pipe_at d ps (Suc k) p' \<and> pendingSlots p' = pendingSlots p @ [s] \<and>
       flight (pendingSlots p') (fst st)))" (is "triple ?H _ ?R")
proof -
  note c = cur_chunk [OF sd pa k]
  let ?bs = "chunk_bytes i ps k"
  have len: "int (length ?bs) \<le> cap"
    using part(3) [OF sd k] by (simp add: cap chunk_bytes_def)
  have capacity: "triple ?H (silent (api_GetMaxReqSize api s)) (\<lambda>r st. r = cap \<and> ?H st)"
    by (rule t_traced [OF capacity])
  have wrote: "triple ?H (do_write api s ?bs) (\<lambda>r st. \<exists>x. r = Ret x \<and> ?H st)"
    unfolding do_write_def by (rule triple_weaken [OF t_traced [OF writes [OF len]]]) auto
  have sent: "triple ?H (do_send api s (word_of_nat (length ?bs)) STREAM_CHUNK)
      (\<lambda>r st. r = Success \<and> flight (pendingSlots p @ [s]) (fst st))"
    unfolding do_send_def by (rule t_traced [OF sends [OF len]])
  have "triple ?H (obind (do_write api s ?bs) (\<lambda>_. State_Monad.bind (do_send api s (word_of_nat (length ?bs)) STREAM_CHUNK) (\<lambda>res.
        if void_HasError res
        then obind (drain_pending api (pendingSlots p)) (\<lambda>_. ret (Ret (Inl (void_GetError res))))
        else ret (Ret (Inr (p\<lparr>pendingSlots := pendingSlots p @ [s], remaining := remaining p - ucast (chunk_size (remaining p) (int n)),
          chunkIndex := chunkIndex p + 1\<rparr>)))))) ?R"
    by (rule triple_obind_ret [OF wrote], rule triple_bind_value [OF sent])
      (use c(5) in \<open>auto intro!: triple_ret simp: void_HasError_def\<close>)
  then show ?thesis
    unfolding send_chunk_def Let_def
    by (intro triple_bind_value [OF capacity]) (simp only: cap add_diff_cancel_right' c(1-3) c(4) [of i] option.case)
qed

text \<open>Filling moves chunks into the pipeline and leaves it non-empty, unless all are sent.\<close>

lemma t_fill:
  assumes sd: "stream_data n d sz ps" and cap: "cap = int n + int sizeof_ChunkHeader" and self: "baseSlot self < 0"
  shows "pipe_at d ps k p \<Longrightarrow> length (pendingSlots p) + room \<le> total \<Longrightarrow>
    triple (\<lambda>st. flight (pendingSlots p) (fst st)) (fill_pipeline room api self d sz i p)
      (\<lambda>r st. \<exists>x. r = Ret x \<and> (\<exists>p' k'. x = Inr p' \<and> pipe_at d ps k' p' \<and> k' + length (pendingSlots p) = k + length (pendingSlots p') \<and>
         length (pendingSlots p') \<le> length (pendingSlots p) + room \<and> (k' = length ps \<or> length (pendingSlots p') = length (pendingSlots p) + room) \<and>
         flight (pendingSlots p') (fst st)))"
proof (induction room arbitrary: p k)
  case 0
  show ?case
    by (subst fill_pipeline.simps) (use 0 in \<open>auto intro!: triple_ret\<close>)
next
  case (Suc room)
  have pa: "pipe_at d ps k (p\<lparr>pipe_rr := rr\<rparr>)" for rr
    using Suc.prems(1) by (simp add: pipe_at_def)
  show ?case (is "triple ?F _ ?R")
  proof (cases "k < length ps")
    case False
    then have "\<not> 0 < remaining p" "k = length ps"
      using more_iff [OF sd Suc.prems(1)] Suc.prems(1) by (simp_all add: pipe_at_def)
    then show ?thesis
      by (subst fill_pipeline.simps) (use Suc.prems in \<open>auto intro!: triple_ret\<close>)
  next
    case True
    then have more: "(0 < remaining p \<and> 0 < Suc room) = True"
      using more_iff [OF sd Suc.prems(1)] by simp
    have rest: "triple (\<lambda>st. \<exists>p'. x = Inr p' \<and> pipe_at d ps (Suc k) p' \<and> pendingSlots p' = pendingSlots p @ [s] \<and> flight (pendingSlots p') (fst st))
        (case x of Inl e \<Rightarrow> ret (Ret (Inl e)) | Inr p' \<Rightarrow> fill_pipeline (Suc room - 1) api self d sz i p') ?R" for x s
    proof (intro triple_ex triple_pure)
      fix p'
      assume p': "x = Inr p'" "pipe_at d ps (Suc k) p'" "pendingSlots p' = pendingSlots p @ [s]"
      have "triple (\<lambda>st. flight (pendingSlots p') (fst st)) (fill_pipeline room api self d sz i p') ?R"
        by (rule triple_weaken [OF Suc.IH [OF p'(2)]]) (use p'(3) Suc.prems(2) in \<open>auto simp: algebra_simps\<close>)
      then show "triple (\<lambda>st. flight (pendingSlots p') (fst st))
          (case x of Inl e \<Rightarrow> ret (Ret (Inl e)) | Inr p' \<Rightarrow> fill_pipeline (Suc room - 1) api self d sz i p') ?R"
        by (simp only: p'(1) sum.case diff_Suc_1)
    qed
    have "triple (\<lambda>st. held s (pendingSlots p) (fst st)) (obind (send_chunk api d sz i s (p\<lparr>pipe_rr := rr\<rparr>)) (\<lambda>r. case r of
            Inl e \<Rightarrow> ret (Ret (Inl e)) | Inr p' \<Rightarrow> fill_pipeline (Suc room - 1) api self d sz i p')) ?R" for s rr
      by (rule triple_obind_ret [OF _ rest]) (use t_send_chunk [OF sd cap pa True, of s rr i] in simp)
    then have "triple (\<lambda>st. 0 \<le> fst x \<and> held (fst x) (pendingSlots p) (fst st)) (case x of (s, rr) \<Rightarrow>
        if s < 0 then ret (Ret (Inr (p\<lparr>pipe_rr := rr\<rparr>)))
        else obind (send_chunk api d sz i s (p\<lparr>pipe_rr := rr\<rparr>)) (\<lambda>r. case r of
            Inl e \<Rightarrow> ret (Ret (Inl e)) | Inr p' \<Rightarrow> fill_pipeline (Suc room - 1) api self d sz i p')) ?R" for x
      by (rule t_with_slot)
    then show ?thesis
      by (subst fill_pipeline.simps, simp only: more if_True)
        (rule triple_obind_ret [OF t_acquireSlot [OF self]], use Suc.prems in simp_all)
  qed
qed

lemma t_loop:
  assumes sd: "stream_data n d sz ps" and cap: "cap = int n + int sizeof_ChunkHeader" and self: "baseSlot self < 0"
    and room: "0 < maxInFlight self" "maxInFlight self \<le> int total"
  shows "pipe_at d ps k p \<Longrightarrow> int (length (pendingSlots p)) \<le> maxInFlight self \<Longrightarrow> length ps - k + length (pendingSlots p) < fuel \<Longrightarrow>
    triple (\<lambda>st. flight (pendingSlots p) (fst st)) (send_loop fuel api self d sz i p) (\<lambda>r st. r = Ret Success \<and> flight [] (fst st))"
proof (induction fuel arbitrary: p k)
  case (Suc fuel)
  let ?room = "nat (maxInFlight self - int (length (pendingSlots p)))"
  show ?case (is "triple ?F _ ?R")
  proof (cases "0 < remaining p \<or> pendingSlots p \<noteq> []")
    case False
    then show ?thesis
      by (auto intro!: triple_ret)
  next
    case True
    have loop: "triple (\<lambda>st. \<exists>p' k'. x = Inr p' \<and> pipe_at d ps k' p' \<and> k' + length (pendingSlots p) = k + length (pendingSlots p') \<and>
         length (pendingSlots p') \<le> length (pendingSlots p) + ?room \<and> (k' = length ps \<or> length (pendingSlots p') = length (pendingSlots p) + ?room) \<and>
         flight (pendingSlots p') (fst st))
        (case x of Inl e \<Rightarrow> ret (Ret (Failure e)) | Inr p \<Rightarrow> (case pendingSlots p of
             [] \<Rightarrow> send_loop fuel api self d sz i p
           | s # rest \<Rightarrow> obind (do_wait api s USE_DEFAULT_TIMEOUT) (\<lambda>res.
               if HasError res then obind (drain_pending api rest) (\<lambda>_. ret (Ret (Failure (GetError res))))
               else send_loop fuel api self d sz i (p\<lparr>pendingSlots := rest\<rparr>)))) ?R" for x
    proof (intro triple_ex triple_pure)
      fix p' k'
      assume p': "x = Inr p'" "pipe_at d ps k' p'" "k' + length (pendingSlots p) = k + length (pendingSlots p')"
        "length (pendingSlots p') \<le> length (pendingSlots p) + ?room"
        "k' = length ps \<or> length (pendingSlots p') = length (pendingSlots p) + ?room"
      have k: "k \<le> length ps" "k' \<le> length ps" "0 < remaining p \<longleftrightarrow> k < length ps"
        using Suc.prems(1) p'(2) more_iff [OF sd Suc.prems(1)] by (simp_all add: pipe_at_def)
      have "pendingSlots p' \<noteq> []"
        using True p'(3,5) k room Suc.prems(2) by (auto simp: Suc_le_eq)
      then obtain s rest where q: "pendingSlots p' = s # rest"
        by (cases "pendingSlots p'") auto
      have wait: "triple (\<lambda>st. flight (s # rest) (fst st)) (do_wait api s USE_DEFAULT_TIMEOUT)
          (\<lambda>r st. \<exists>y. r = Ret y \<and> (\<exists>v. y = Inr v) \<and> flight rest (fst st))"
        unfolding do_wait_def by (rule triple_weaken [OF t_traced [OF waits]]) auto
      have "pipe_at d ps k' (p'\<lparr>pendingSlots := rest\<rparr>)"
        using p'(2) by (simp add: pipe_at_def)
      then have "triple (\<lambda>st. flight rest (fst st)) (send_loop fuel api self d sz i (p'\<lparr>pendingSlots := rest\<rparr>)) ?R"
        using Suc.IH [of k' "p'\<lparr>pendingSlots := rest\<rparr>"] p'(3,4) q k Suc.prems(2,3) by simp
      then have "triple (\<lambda>st. (\<exists>v. y = Inr v) \<and> flight rest (fst st)) (if HasError y
          then obind (drain_pending api rest) (\<lambda>_. ret (Ret (Failure (GetError y))))
          else send_loop fuel api self d sz i (p'\<lparr>pendingSlots := rest\<rparr>)) ?R" for y :: "int result"
        by (intro triple_pure) auto
      then show "triple (\<lambda>st. flight (pendingSlots p') (fst st)) (case x of Inl e \<Rightarrow> ret (Ret (Failure e)) | Inr p \<Rightarrow> (case pendingSlots p of
             [] \<Rightarrow> send_loop fuel api self d sz i p
           | s # rest \<Rightarrow> obind (do_wait api s USE_DEFAULT_TIMEOUT) (\<lambda>res.
               if HasError res then obind (drain_pending api rest) (\<lambda>_. ret (Ret (Failure (GetError res))))
               else send_loop fuel api self d sz i (p\<lparr>pendingSlots := rest\<rparr>)))) ?R"
        unfolding p'(1) sum.case q list.case by (rule triple_obind_ret [OF wait])
    qed
    have "length (pendingSlots p) + ?room \<le> total"
      using room Suc.prems(2) by simp
    then show ?thesis
      unfolding send_loop.simps using True
      by (simp only: if_True) (rule triple_obind_ret [OF t_fill [OF sd cap self Suc.prems(1)] loop])
  qed
qed simp

lemma t_start:
  assumes sd: "stream_data n d sz ps" and cap: "cap = int n + int sizeof_ChunkHeader" and self: "baseSlot self < 0" and "0 < total"
  shows "triple (\<lambda>st. flight [] (fst st)) (send_start api self sz i tag) (\<lambda>r st. \<exists>x. r = Ret x \<and> (\<exists>rr. x = Inr rr) \<and> flight [] (fst st))"
    (is "triple _ _ ?R")
proof -
  let ?h = "StreamHeader_bytes (start_header i tag ps)" and ?H = "\<lambda>s st. held s [] (fst st)"
  have small: "(cap \<le> int sizeof_ChunkHeader) = False" "int (length ?h) \<le> cap" "int sizeof_StreamHeader \<le> cap"
    using stream_dataD(1) [OF sd] by (simp_all add: cap)
  have wrote: "triple (?H s) (do_write api s ?h) (\<lambda>r st. \<exists>x. r = Ret x \<and> ?H s st)" for s
    unfolding do_write_def by (rule triple_weaken [OF t_traced [OF writes [OF small(2)]]]) auto
  have called: "triple (?H s) (do_call api s (word_of_nat sizeof_StreamHeader) STREAM_START)
      (\<lambda>r st. \<exists>y. r = Ret y \<and> (\<exists>v. y = Inr v) \<and> flight [] (fst st))" for s
    unfolding do_call_def by (rule triple_weaken [OF t_traced [OF calls [OF small(3)]]]) auto
  have reply: "triple (\<lambda>st. (\<exists>v. res = Inr v) \<and> flight [] (fst st))
      (ret (Ret (if HasError res then Inl (GetError res) else Inr rr))) ?R" for rr :: u32 and res :: "int result"
    by (auto intro!: triple_ret)
  have body: "triple (?H s) (State_Monad.bind (silent (api_GetMaxReqSize api s)) (\<lambda>maxReq.
      if maxReq \<le> int sizeof_ChunkHeader then f else
        obind (do_write api s (StreamHeader_bytes (make_stream_header i sz (total_chunks sz (maxReq - int sizeof_ChunkHeader)) tag))) (\<lambda>_.
        obind (do_call api s (word_of_nat sizeof_StreamHeader) STREAM_START) (\<lambda>res.
          ret (Ret (if HasError res then Inl (GetError res) else Inr rr)))))) ?R" for s f rr
    by (rule triple_bind_value [OF t_traced [OF capacity]])
      (simp only: small if_False, simp only: cap add_diff_cancel_right' start_chunks [OF sd] start_header_data [OF sd],
        rule triple_obind_ret [OF wrote triple_obind_ret [OF called reply]])
  show ?thesis
    unfolding send_start_def Let_def
    by (rule triple_obind_ret [OF t_acquireSlot [OF self]], use assms(4) in simp)
      (rule t_with_slot [OF body])
qed

lemma stream_send_succeeds:
  assumes "int sizeof_ChunkHeader < cap" and "baseSlot self < 0" and "0 < maxInFlight self" and "maxInFlight self \<le> int total"
    and "length d \<le> 2 ^ 30" and "length (split_parts (nat (cap - int sizeof_ChunkHeader)) d) < fuel"
  shows "triple (\<lambda>st. flight [] (fst st)) (stream_Send fuel (Some api) self (Some d) (word_of_nat (length d)) i tag)
    (\<lambda>r st. r = Ret Success \<and> flight [] (fst st))" (is "triple _ _ ?R")
proof -
  let ?n = "nat (cap - int sizeof_ChunkHeader)" and ?sz = "word_of_nat (length d) :: u64"
  have sd: "stream_data ?n d ?sz (split_parts ?n d)" and cap: "cap = int ?n + int sizeof_ChunkHeader"
    using assms(1,5) cap_i32 by (simp_all add: stream_data_def)
  have sz: "(?sz > kMaxStreamSize) = False"
    using unat_sz [OF sd] assms(5) by (simp add: kMaxStreamSize_def word_less_nat_alt not_less)
  let ?p = "\<lambda>rr. \<lparr>remaining = ?sz, chunkIndex = 0, pendingSlots = [], pipe_rr = rr\<rparr>"
  have "pipe_at d (split_parts ?n d) 0 (?p rr)" for rr
    using unat_sz [OF sd] by (simp add: pipe_at_def offs_def)
  then have "triple (\<lambda>st. flight [] (fst st)) (send_loop fuel api self d ?sz i (?p rr)) ?R" for rr
    using t_loop [OF sd cap assms(2-4), of 0 "?p rr" fuel i] assms(3,6) by simp
  then have "triple (\<lambda>st. (\<exists>rr. x = Inr rr) \<and> flight [] (fst st)) (case x of
      Inl e \<Rightarrow> ret (Ret (Failure e)) | Inr rr \<Rightarrow> send_loop fuel api self d ?sz i (?p rr)) ?R" for x
    by (intro triple_pure) auto
  moreover have "0 < total"
    using assms(3,4) by simp
  ultimately show ?thesis
    unfolding stream_Send_def prod.case option.case
    by (simp only: sz if_False) (intro triple_obind_ret [OF t_start [OF sd cap assms(2)]])
qed

end

end
