(* ===== verification/Shm_Stream_Direct.thy ===== *)
theory Shm_Stream_Direct
  imports Shm_Stream_Pipeline Shm_Host_Send
begin

text \<open>
  The host of the library is a host for the sender. Whatever the outcome of a call on a slot
  of the pool, the pool keeps its shape and no access leaves a buffer; so \<open>direct_api\<close>
  interprets \<open>stream_host\<close> in every pool whose buffers keep their sizes.
\<close>

section \<open>The send paths keep the pool\<close>

text \<open>No undefined access, and an error is one.\<close>

definition call_ended :: "(int result \<times> byte list) outcome \<Rightarrow> bool" where
  "call_ended r = (case r of Ret v \<Rightarrow> fst v \<noteq> Inl Error_None | Trap \<Rightarrow> False | NoFuel \<Rightarrow> True)"

lemma call_ended_simps [simp]: "call_ended (Ret v) = (fst v \<noteq> Inl Error_None)" "\<not> call_ended Trap" "call_ended NoFuel"
  by (simp_all add: call_ended_def)

context shaped_pool
begin

lemma p_store_any:
  "(\<And>s. slot_ok s \<Longrightarrow> slot_ok (f s) \<and> sizes (f s) = sizes s) \<Longrightarrow> triple (pool st szs) (store env i f) (\<lambda>_. pool st szs)"
  by (simp add: triple_def wp_store pool_poll pool_upd)

lemma p_store_active: "triple (pool st szs) (store env i (activeWait_update f)) (\<lambda>_. pool st szs)"
  by (rule p_store_any) (simp add: slot_ok_def sizes_def)

lemma p_signal: "triple (pool st szs) (signal env h) (\<lambda>_. pool st szs)"
  using pool_poll [of st szs] by (auto simp: triple_def wp_def signal_def pool_def shapes_def)

lemma p_wait_event: "triple (pool st szs) (wait_event env h ms) (\<lambda>_. pool st szs)"
  using pool_poll [of st szs] by (auto simp: triple_def wp_def wait_event_def pool_def shapes_def Let_def split: prod.splits)

lemma p_bump: "triple (pool st szs) (modify (upd_slot i (msgSeq_update f))) (\<lambda>_. pool st szs)"
  by (rule triple_modify, rule pool_upd) (simp_all add: slot_ok_def sizes_def)

lemma p_write_request: "triple (pool st szs) (write_request env i sz mt) (\<lambda>_. pool st szs)"
  unfolding write_request_def
  by (intro triple_bind [OF p_gets] triple_bind [OF p_store] triple_bind [OF p_bump] triple_ret)

lemma p_publish: "triple (pool st szs) (publish_request env i) (\<lambda>_. pool st szs)"
  unfolding publish_request_def
  by (intro triple_bind [OF p_store_active] triple_bind [OF p_store] triple_bind [OF p_load] triple_if
      triple_bind [OF p_gets] p_signal triple_ret)

lemma p_checkReady: "triple (pool st szs) (checkReady env i) (\<lambda>_. pool st szs)"
  unfolding checkReady_def by (intro triple_bind [OF p_load] triple_ret)

lemma p_resp_sleep_loop: "triple (pool st szs) (resp_sleep_loop fuel env i t start) (\<lambda>r a. r \<noteq> Trap \<and> pool st szs a)"
proof (induction fuel)
  case (Suc fuel)
  show ?case
    unfolding resp_sleep_loop.simps Let_def
    by (intro triple_bind [OF p_checkReady] triple_bind [OF p_gets] triple_bind [OF p_wait_event] triple_if triple_ret Suc.IH)
      simp_all
qed (simp add: triple_ret)

lemma p_resp_sleepAction: "triple (pool st szs) (resp_sleepAction fuel env i t) (\<lambda>r a. r \<noteq> Trap \<and> pool st szs a)"
proof -
  have "triple (pool st szs) (obind (resp_sleep_loop fuel env i t start) (\<lambda>_. store env i (upd_header f) \<bind> (\<lambda>_. ret (Ret ()))))
      (\<lambda>r a. r \<noteq> Trap \<and> pool st szs a)" for start f
    by (rule triple_obind [where Q = "\<lambda>_. pool st szs", OF triple_weaken [OF p_resp_sleep_loop]])
      (auto intro!: triple_bind [OF p_store] triple_ret split: outcome.splits)
  then show ?thesis
    unfolding resp_sleepAction_def
    by (intro triple_bind [OF p_store] triple_bind [OF p_checkReady] triple_bind [OF p_gets] triple_if triple_ret) simp_all
qed

lemma p_WaitForRespReady: "triple (pool st szs) (WaitForRespReady fuel env i t) (\<lambda>r a. r \<noteq> Trap \<and> pool st szs a)"
  unfolding triple_def WaitForRespReady_def
proof (intro allI impI, rule wp_mono [OF wp_Wait [where I = "pool st szs" and Q = "\<lambda>_. True"]])
  show "pool st szs a \<Longrightarrow> wp (checkReady env i) (\<lambda>c b. pool st szs b \<and> (c \<longrightarrow> True)) a" for a
    using p_checkReady [of st szs i] by (simp add: triple_def)
  show "pool st szs a \<Longrightarrow> wp (resp_sleepAction fuel env i t) (\<lambda>r b. r \<noteq> Trap \<and> pool st szs b) a" for a
    using p_resp_sleepAction [of st szs fuel i t] by (simp add: triple_def)
  show "pool st szs a \<Longrightarrow> pool st szs (upd_slot i (currentLimit_update f) a)" for f a
    by (rule pool_upd) (simp_all add: slot_ok_def sizes_def)
qed simp_all

lemma p_FinishWait: "triple (pool st szs) (FinishWait env i ready) (\<lambda>_. pool st szs)"
  unfolding FinishWait_def
  by (rule triple_bind [where Q = "\<lambda>_. pool st szs"]) (auto intro!: triple_if p_store triple_ret p_store_active)

lemma p_consume:
  assumes i: "i < length szs"
  shows "triple (pool st szs) (consume_response env i sq release out)
    (\<lambda>r a. call_ended r \<and> pool st szs a)" (is "triple _ _ ?R")
proof -
  have mx: "triple (pool st szs) (own i maxRespSize) (\<lambda>x a. x = snd (szs ! i) \<and> pool st szs a)"
    by (rule triple_gets) (use shapes_slot [OF _ i] in \<open>auto simp: pool_def\<close>)
  have buf: "triple (pool st szs) (load env i respBuffer) (\<lambda>x a. length x = unat (snd (szs ! i)) \<and> pool st szs a)"
    using shapes_slot [OF _ i] pool_poll by (fastforce simp: triple_def wp_load pool_def slot_ok_def)
  have "triple (pool st szs) (case copy_out rs (snd (szs ! i)) b out of None \<Rightarrow> ret Trap
      | Some out' \<Rightarrow> (if release then store_state env i SLOT_FREE else ret ()) \<bind> (\<lambda>_. ret (Ret (Inr (sint (c :: i32)), out')))) ?R"
    if "length b = unat (snd (szs ! i))" for rs b c
    by (simp only: copy_out_in_bounds [OF that] option.case)
      (rule triple_bind [where Q = "\<lambda>_. pool st szs"], auto intro!: triple_if p_store triple_ret)
  then have rest: "triple (\<lambda>a. length b = unat (snd (szs ! i)) \<and> pool st szs a) (case copy_out rs (snd (szs ! i)) b out of None \<Rightarrow> ret Trap
      | Some out' \<Rightarrow> (if release then store_state env i SLOT_FREE else ret ()) \<bind> (\<lambda>_. ret (Ret (Inr (sint (c :: i32)), out')))) ?R" for rs b c
    by (rule triple_pure)
  show ?thesis
    unfolding consume_response_def
    by (rule triple_bind [OF p_load], rule triple_if, intro triple_bind [OF p_store] triple_ret, simp,
        rule triple_bind [OF p_load], rule triple_if, intro triple_bind [OF p_store] triple_ret, simp,
        rule triple_bind [OF p_load], rule triple_bind_value [OF mx], rule triple_bind [OF buf], rule rest)
qed

lemma p_collect:
  assumes i: "i < length szs"
    and rest: "triple (pool st szs) m (\<lambda>r a. call_ended r \<and> pool st szs a)"
  shows "triple (pool st szs) (obind (WaitForRespReady fuel env i t) (\<lambda>ready. FinishWait env i ready \<bind> (\<lambda>_.
      if \<not> ready then ret (Ret (Inl Timeout, out)) else m)))
    (\<lambda>r a. call_ended r \<and> pool st szs a)"
  by (rule triple_obind [where Q = "\<lambda>_. pool st szs", OF triple_weaken [OF p_WaitForRespReady]])
    (auto intro!: triple_bind [OF p_FinishWait] triple_ret rest split: outcome.splits)

lemma p_valid:
  assumes "unat (snd st) \<le> length szs" and "unat (snd st) < 2 ^ 31"
  shows "triple (pool st szs) (gets (\<lambda>a. host_slot a idx)) (\<lambda>x a. (x \<longrightarrow> nat idx < length szs) \<and> pool st szs a)"
proof -
  have "sint (snd st) = int (unat (snd st))"
    using assms(2) by (intro sint_small) (simp add: word_less_nat_alt)
  then show ?thesis
    using of_nat_mono [OF assms(1), where 'a = int] by (intro triple_gets) (auto simp: pool_def host_slot_def nat_less_iff)
qed

lemma p_WaitForSlot:
  assumes "unat (snd st) \<le> length szs" and "unat (snd st) < 2 ^ 31"
  shows "triple (pool st szs) (WaitForSlot fuel env idx out t)
    (\<lambda>r a. call_ended r \<and> pool st szs a)" (is "triple _ _ ?R")
  unfolding WaitForSlot_def Let_def
  by (intro triple_bind [OF p_valid [OF assms]] triple_pure triple_if triple_bind [OF p_gets] triple_bind [OF p_store_active]
      triple_bind [OF p_store] p_collect) (auto intro!: triple_ret p_consume)

lemma p_SendAcquired:
  assumes "unat (snd st) \<le> length szs" and "unat (snd st) < 2 ^ 31"
  shows "triple (pool st szs) (SendAcquired fuel env idx sz mt out t)
    (\<lambda>r a. call_ended r \<and> pool st szs a)" (is "triple _ _ ?R")
proof -
  have wait: "triple (pool st szs) (WaitResponse fuel env i t') (case_outcome (\<lambda>_. pool st szs) (\<lambda>_. False) (pool st szs))" for i t'
    unfolding WaitResponse_def
    by (intro triple_bind [OF p_publish] triple_obind [where Q = "\<lambda>_. pool st szs", OF triple_weaken [OF p_WaitForRespReady]]
        triple_bind [OF p_FinishWait] triple_ret) (auto split: outcome.splits)
  have "triple (pool st szs) (obind (WaitResponse fuel env (nat idx) t') (\<lambda>ready.
      if \<not> ready then ret (Ret (Inl Timeout, out)) else consume_response env (nat idx) sq True out)) ?R"
    if "nat idx < length szs" for t' sq
    by (rule triple_obind [where Q = "\<lambda>_. pool st szs", OF triple_weaken [OF wait]])
      (auto intro!: triple_ret p_consume that split: outcome.splits)
  then show ?thesis
    unfolding SendAcquired_def Let_def
    by (intro triple_bind [OF p_valid [OF assms]] triple_pure triple_if triple_bind [OF p_gets] triple_bind [OF p_write_request]
        triple_bind [OF p_store] triple_ret) auto
qed

lemma p_SendAcquiredAsync: "triple (pool st szs) (SendAcquiredAsync env idx sz mt) (\<lambda>r a. True \<and> pool st szs a)"
  unfolding SendAcquiredAsync_def Let_def
  by (intro triple_bind [OF p_gets] triple_if triple_bind [OF p_write_request] triple_bind [OF p_publish]
      triple_bind [OF p_store] triple_ret) simp_all

end

section \<open>The pool as a host of streams\<close>

text \<open>Slots of equal request buffers, as \<open>Init\<close> makes them.\<close>

definition stream_pool :: "u32 \<Rightarrow> u32 \<Rightarrow> alloc \<Rightarrow> bool" where
  "stream_pool ns mq a = (numSlots a = ns \<and> ns \<noteq> 0 \<and>
     (\<exists>n mr. unat ns \<le> n \<and> n < 2 ^ 31 \<and> shapes (replicate n (mq, mr)) a))"

abbreviation pool_slot :: "u32 \<Rightarrow> int \<Rightarrow> bool" where
  "pool_slot ns j \<equiv> 0 \<le> j \<and> nat j < unat ns"

context shaped_pool
begin

lemma stream_pool_lift:
  assumes "\<And>stride n mr. ns \<noteq> 0 \<Longrightarrow> unat ns \<le> n \<Longrightarrow> n < 2 ^ 31 \<Longrightarrow>
    triple (pool (stride, ns) (replicate n (mq, mr))) m (\<lambda>r a. A r \<and> pool (stride, ns) (replicate n (mq, mr)) a)"
  shows "triple (stream_pool ns mq) m (\<lambda>r a. A r \<and> stream_pool ns mq a)"
proof (rule triple_pre)
  fix a
  assume "stream_pool ns mq a"
  then obtain n mr where n: "ns \<noteq> 0" "unat ns \<le> n" "n < 2 ^ 31" and "pool (msgSeqStride a, ns) (replicate n (mq, mr)) a"
    by (auto simp: stream_pool_def pool_def)
  then show "triple ((=) a) m (\<lambda>r a. A r \<and> stream_pool ns mq a)"
    using assms [OF n, of "msgSeqStride a" mr]
    by (elim triple_weaken) (auto simp: stream_pool_def pool_def)
qed

lemma p_write_buffer:
  assumes j: "pool_slot ns j" and ns: "unat ns \<le> n" "n < 2 ^ 31" and len: "int (length bs) \<le> sint mq"
  shows "triple (pool (stride, ns) (replicate n (mq, mr))) (memcpy_request env (nat j) bs)
    (\<lambda>r a. r = Ret () \<and> pool (stride, ns) (replicate n (mq, mr)) a)"
  unfolding triple_def
proof (intro allI impI)
  let ?szs = "replicate n (mq, mr)"
  fix a
  assume a: "pool (stride, ns) ?szs a"
  let ?b = "poll env 0 a" and ?i = "nat j"
  have b: "pool (stride, ns) ?szs ?b"
    by (rule pool_poll [OF a])
  have i: "?i < n"
    using j ns by simp
  have s: "slot_ok (slots ?b ! ?i)" "maxReqSize (slots ?b ! ?i) = mq"
    using b i shapes_slot [of ?szs ?b ?i] by (simp_all add: pool_def)
  then have eq: "sint mq = int (unat mq)"
    by (intro sint_small) (simp add: slot_ok_def)
  have "length bs \<le> unat mq"
    using len unfolding eq of_nat_le_iff .
  then have fits: "0 + length bs \<le> length (reqBuffer (slots ?b ! ?i))"
    using s by (simp add: slot_ok_def)
  have "pool (stride, ns) ?szs (upd_slot ?i (reqBuffer_update (\<lambda>_. overwrite 0 bs (reqBuffer (slots ?b ! ?i)))) ?b)"
    using fits s i by (intro pool_upd [OF b]) (auto simp: slot_ok_def sizes_def)
  then show "wp (memcpy_request env ?i bs) (\<lambda>r a. r = Ret () \<and> pool (stride, ns) ?szs a) a"
    using fits by (simp add: memcpy_request_def wp_rules wp_load mem_safe)
qed

lemma stream_acquires:
  assumes "\<And>st szs. unat (snd st) \<le> length szs \<Longrightarrow> length szs < 2 ^ 31 \<Longrightarrow> snd st \<noteq> 0 \<Longrightarrow>
    triple (pool st szs) m (acquired_slot env st szs)"
  shows "triple (stream_pool ns mq) m (case_outcome (\<lambda>j a. (0 \<le> j \<longrightarrow> pool_slot ns j) \<and> stream_pool ns mq a) (\<lambda>_. False) (\<lambda>_. True))"
proof (rule triple_pre)
  fix a
  assume "stream_pool ns mq a"
  then obtain n mr where n: "ns \<noteq> 0" "unat ns \<le> n" "n < 2 ^ 31" and a: "pool (msgSeqStride a, ns) (replicate n (mq, mr)) a"
    by (auto simp: stream_pool_def pool_def)
  show "triple ((=) a) m (case_outcome (\<lambda>j a. (0 \<le> j \<longrightarrow> pool_slot ns j) \<and> stream_pool ns mq a) (\<lambda>_. False) (\<lambda>_. True))"
    by (rule triple_weaken [OF assms [of "(msgSeqStride a, ns)" "replicate n (mq, mr)"]])
      (use n a in \<open>auto simp: stream_pool_def pool_def just_claimed_def split: outcome.splits if_splits\<close>)
qed

lemma drop_response_ended:
  assumes "triple P m (\<lambda>r a. call_ended r \<and> P a)"
  shows "triple P (drop_response m) (\<lambda>r a. (r \<noteq> Trap \<and> r \<noteq> Ret (Inl Error_None)) \<and> P a)"
  unfolding drop_response_def case_prod_unfold
  by (rule triple_obind [where Q = "\<lambda>v a. fst v \<noteq> Inl Error_None \<and> P a", OF triple_weaken [OF assms]])
    (auto intro!: triple_ret split: outcome.splits)

lemma stream_pool_slot:
  assumes a: "stream_pool ns mq a" and j: "pool_slot ns j"
  shows "host_slot a j" "maxReqSize (slots a ! nat j) = mq"
proof -
  obtain n mr where n: "unat ns \<le> n" "n < 2 ^ 31" "shapes (replicate n (mq, mr)) a" "numSlots a = ns"
    using a by (auto simp: stream_pool_def)
  then show "maxReqSize (slots a ! nat j) = mq"
    using shapes_slot [OF n(3), of "nat j"] j by simp
  show "host_slot a j"
    using n j by (auto simp: host_slot_def sint_small word_less_nat_alt nat_less_iff)
qed

lemma direct_stream_host: "stream_host (direct_api fuel env) (\<lambda>h. stream_pool ns mq (h_alloc h)) (pool_slot ns) (sint mq)"
proof
  let ?inv = "\<lambda>h. stream_pool ns mq (h_alloc h)"
  let ?got = "\<lambda>inv. case_outcome (\<lambda>j s. (0 \<le> j \<longrightarrow> pool_slot ns j) \<and> inv s) (\<lambda>_. False) (\<lambda>_. True)"
  have acquired: "triple ?inv (on_allocator m) (?got ?inv)" if "triple (stream_pool ns mq) m (?got (stream_pool ns mq))" for m
    by (rule triple_weaken [OF triple_on_allocator [OF that]]) (auto split: outcome.splits)
  show "triple ?inv (api_AcquireSlot (direct_api fuel env)) (?got ?inv)"
    unfolding direct_api_def host_api.simps dh_AcquireSlot_def by (rule acquired [OF stream_acquires [OF p_AcquireSlot]])
  show "triple ?inv (api_AcquireSpecificSlot (direct_api fuel env) j t) (?got ?inv)" for j t
    unfolding direct_api_def host_api.simps dh_AcquireSpecificSlot_def
    by (rule acquired, rule stream_acquires, rule triple_weaken [OF p_AcquireSpecificSlot], assumption, simp, assumption, erule conjunct1)
  show "sint mq < 2 ^ 31"
    using sint_lt [of mq] by simp
  fix j
  assume j: "pool_slot ns j"
  have buffer: "triple ?inv (dh_GetReqBuffer j) (\<lambda>p h. p = Some (nat j) \<and> ?inv h)"
    unfolding dh_GetReqBuffer_def GetReqBuffer_def
    by (rule triple_on_allocator [OF triple_gets]) (simp add: stream_pool_slot [OF _ j])
  show "triple ?inv (api_GetMaxReqSize (direct_api fuel env) j) (\<lambda>r h. r = sint mq \<and> ?inv h)"
    unfolding direct_api_def host_api.simps dh_GetMaxReqSize_def GetMaxReqSize_def
    by (rule triple_on_allocator [OF triple_gets]) (simp add: stream_pool_slot [OF _ j])
  show "triple ?inv (api_write (direct_api fuel env) j bs) (\<lambda>r h. r = Ret () \<and> ?inv h)" if "int (length bs) \<le> sint mq" for bs
    unfolding direct_api_def host_api.simps write_request_buffer_def
    by (rule triple_bind_value [OF buffer], simp only: option.case)
      (rule triple_on_allocator [OF stream_pool_lift [OF p_write_buffer [OF j _ _ that]]])
  show "triple ?inv (api_SendAcquired (direct_api fuel env) j n mt t) (\<lambda>r h. (r \<noteq> Trap \<and> r \<noteq> Ret (Inl Error_None)) \<and> ?inv h)" for n mt t
    unfolding direct_api_def host_api.simps dh_SendAcquired_def
    by (rule drop_response_ended, rule triple_on_allocator, rule stream_pool_lift, rule p_SendAcquired) auto
  show "triple ?inv (api_SendAcquiredAsync (direct_api fuel env) j n mt) (\<lambda>r h. True \<and> ?inv h)" for n mt
    unfolding direct_api_def host_api.simps dh_SendAcquiredAsync_def
    by (rule triple_on_allocator [OF stream_pool_lift [OF p_SendAcquiredAsync]])
  show "triple ?inv (api_WaitForSlot (direct_api fuel env) j t) (\<lambda>r h. (r \<noteq> Trap \<and> r \<noteq> Ret (Inl Error_None)) \<and> ?inv h)" for t
    unfolding direct_api_def host_api.simps dh_WaitForSlot_def
    by (rule drop_response_ended, rule triple_on_allocator, rule stream_pool_lift, rule p_WaitForSlot) auto
qed

end

interpretation stream_host_pool: stream_host "direct_api fuel (pool_env g)" "\<lambda>h. stream_pool ns mq (h_alloc h)" "pool_slot ns" "sint mq" for fuel g ns mq
  by (rule pool_guest.direct_stream_host)

text \<open>
  C4. What a stream says on the wire. For every buffer of at most 1 GiB, every number of slots
  in flight and either way of acquiring them, whatever other threads and the guest do with the
  slots as long as the buffers keep their sizes, \<open>StreamSender::Send\<close> cuts the buffer into equal parts, announces them with one
  \<open>STREAM_START\<close>, sends part after part with its index and its offset, never has more than
  \<open>maxInFlight\<close> slots pending and collects every slot in order; it reports success exactly when
  all parts were sent and collected, and after an error it collects what is pending and stops.
  Buffers without room for a payload byte are refused. No access leaves a buffer or the data.
\<close>

theorem stream_send_follows_protocol:
  assumes "shaped_pool env" and "stream_pool (numSlots (h_alloc h)) mq (h_alloc h)" and "rotation_ok self" and "length d \<le> 2 ^ 30"
  shows "case run_state (stream_Send fuel (Some (direct_api tries env)) self (Some d) (word_of_nat (length d)) i tag) (h, []) of
    (r, (h', tr)) \<Rightarrow>
      (if sint mq \<le> int sizeof_ChunkHeader then stream_aborted r tr
       else stream_calls (maxInFlight self) i tag (split_parts (nat (sint mq - int sizeof_ChunkHeader)) d) r tr) \<and>
      (r = NoFuel \<or> stream_pool (numSlots (h_alloc h)) mq (h_alloc h'))"
  by (rule stream_host.stream_send_run [OF shaped_pool.direct_stream_host [OF assms(1)] assms(2-4)])

text \<open>A pool of one slot with buffers of 32 bytes: a stream of ten bytes in parts of eight.\<close>

definition wide_pool :: alloc where
  "wide_pool = demo_alloc\<lparr>slots := [upd_header (h_state_update (\<lambda>_. SLOT_FREE))
     (demo_slot\<lparr>maxReqSize := 32, maxRespSize := 32, reqBuffer := replicate 32 0, respBuffer := replicate 32 0\<rparr>)]\<rparr>"

definition wide_host :: host where
  "wide_host = DirectHost\<lparr>h_alloc := wide_pool\<rparr>"

theorem stream_send_follows_protocol_witness:
  "case run_state (stream_Send 9 (Some (direct_api 5 (pool_env short_handler))) (StreamSender 1 (- 1)) (Some [1, 2, 3, 4, 5, 6, 7, 8, 9, 10])
      (word_of_nat 10) 7 3) (wide_host, []) of
    (r, (h, tr)) \<Rightarrow> stream_calls 1 7 3 [[1, 2, 3, 4, 5, 6, 7, 8], [9, 10]] r tr \<and> (r = NoFuel \<or> stream_pool 1 32 (h_alloc h))"
proof -
  have "shapes (replicate 1 (32, 32)) wide_pool"
    by (simp add: shapes_def sizes_def wide_pool_def demo_alloc_def demo_slot_def slot_ok_def upd_header_def)
  then have "stream_pool (numSlots wide_pool) 32 wide_pool"
    unfolding stream_pool_def by (intro conjI exI [of _ 1] exI [of _ 32]) (simp_all add: wide_pool_def demo_alloc_def)
  moreover have "rotation_ok (StreamSender 1 (- 1))" "numSlots wide_pool = 1"
    by (simp_all add: rotation_ok_def StreamSender_def wide_pool_def demo_alloc_def)
  moreover have "split_parts 8 [1, 2, 3, 4, 5, 6, 7, 8, 9, 10] = [[1, 2, 3, 4, 5, 6, 7, 8], [9, 10]]"
    by (simp add: split_parts.simps)
  ultimately show ?thesis
    using stream_send_follows_protocol [OF pool_guest.shaped_pool_axioms [of short_handler], of wide_host 32 "StreamSender 1 (- 1)"
        "[1, 2, 3, 4, 5, 6, 7, 8, 9, 10]" 7 3 9 5]
    by (simp add: StreamSender_def wide_host_def)
qed

end
