(* ===== verification/Shm_Stream_Live.thy ===== *)
theory Shm_Stream_Live
  imports Shm_Stream_Prompt Shm_Stream_Direct
begin

text \<open>
  A stream succeeds on the host of the library. The pool belongs to the sender and the guest
  answers every request before the next access of the host and accepts it; then each slot is
  free, held by the sender or in flight, an acquisition finds a free slot, and no call times
  out, whatever the clocks show.
\<close>

section \<open>A prompt guest\<close>

definition prompt_env :: "handler \<Rightarrow> env \<Rightarrow> bool" where
  "prompt_env g env = (\<forall>k ms. interference env k ms = slots_update (map (serve_fitting g)))"

definition accepts :: "handler \<Rightarrow> u32 \<Rightarrow> MsgType \<Rightarrow> bool" where
  "accepts g mr mt = (\<forall>req. fst (g mt req) \<noteq> SYSTEM_ERROR \<and> length (fst (snd (g mt req))) \<le> unat mr)"

locale prompt_pool =
  fixes env :: env and g :: handler and ns mq mr stride :: u32
  assumes prompt: "prompt_env g env" and start: "accepts g mr STREAM_START" and chunk: "accepts g mr STREAM_CHUNK"
begin

definition shaped :: "slot \<Rightarrow> bool" where
  "shaped s = (slot_ok s \<and> maxReqSize s = mq \<and> maxRespSize s = mr)"

text \<open>The phases of a slot; \<open>cs\<close> is the sequence number of its transaction.\<close>

definition free :: "slot \<Rightarrow> bool" where "free s = (state_of s = SLOT_FREE)"

definition busy :: "slot \<Rightarrow> bool" where "busy s = (state_of s = SLOT_BUSY)"

definition numbered :: "u32 \<Rightarrow> slot \<Rightarrow> bool" where
  "numbered cs s = (h_msgSeq (header s) = cs \<and> msgSeq s = cs + stride)"

definition ready :: "u32 \<Rightarrow> slot \<Rightarrow> bool" where
  "ready cs s = (busy s \<and> numbered cs s \<and> (h_msgType (header s) = STREAM_START \<or> h_msgType (header s) = STREAM_CHUNK))"

definition landed :: "u32 \<Rightarrow> slot \<Rightarrow> bool" where
  "landed cs s = (state_of s = SLOT_RESP_READY \<and> activeWait s \<and> numbered cs s \<and> h_msgType (header s) \<noteq> SYSTEM_ERROR)"

definition sent :: "u32 \<Rightarrow> slot \<Rightarrow> bool" where
  "sent cs s = (landed cs s \<or> state_of s = SLOT_REQ_READY \<and> activeWait s \<and> numbered cs s \<and>
     (h_msgType (header s) = STREAM_START \<or> h_msgType (header s) = STREAM_CHUNK))"

definition collected :: "u32 \<Rightarrow> slot \<Rightarrow> bool" where
  "collected cs s = (busy s \<and> numbered cs s \<and> h_msgType (header s) \<noteq> SYSTEM_ERROR)"

lemmas phases = free_def busy_def numbered_def ready_def landed_def collected_def

definition stable :: "(slot \<Rightarrow> bool) \<Rightarrow> bool" where
  "stable P = (\<forall>s. shaped s \<longrightarrow> P s \<longrightarrow> P (serve_fitting g s))"

lemma serve_idle: "\<not> in_service s \<Longrightarrow> serve_fitting g s = s"
  by (simp add: serve_fitting_def)

lemma idle_phases: "free s \<Longrightarrow> \<not> in_service s" "busy s \<Longrightarrow> \<not> in_service s" "landed cs s \<Longrightarrow> \<not> in_service s"
  by (simp_all add: phases in_service_def)

lemma serve_phases [simp]:
  "free s \<Longrightarrow> serve_fitting g s = s" "busy s \<Longrightarrow> serve_fitting g s = s" "landed cs s \<Longrightarrow> serve_fitting g s = s"
  by (simp_all add: serve_idle idle_phases)

lemma shaped_serve: "shaped s \<Longrightarrow> shaped (serve_fitting g s)"
  using shape_answer [of s g] by (auto simp: shaped_def serve_fitting_def shape_rely_def)

lemma serve_sent:
  assumes "shaped s" and "sent cs s"
  shows "landed cs (serve_fitting g s)"
proof (cases "landed cs s")
  case False
  then have s: "state_of s = SLOT_REQ_READY" "activeWait s" "numbered cs s"
      "h_msgType (header s) = STREAM_START \<or> h_msgType (header s) = STREAM_CHUNK"
    using assms(2) by (simp_all add: sent_def)
  then have "accepts g mr (h_msgType (header s))"
    using start chunk by auto
  then show ?thesis
    using s assms(1) by (auto simp: serve_fitting_def in_service_def shaped_def accepts_def answer_def landed_def numbered_def
        place_response_def upd_header_def case_prod_unfold)
qed simp

lemma stable_phases:
  "stable free" "stable busy" "stable (ready cs)" "stable (landed cs)" "stable (collected cs)" "stable (sent cs)"
  "stable (\<lambda>s. \<exists>cs. sent cs s)" "stable (\<lambda>s. busy s \<and> P s)"
  using serve_sent by (auto simp: stable_def ready_def collected_def sent_def)

section \<open>The slots in their phases\<close>

definition lineup :: "(nat \<Rightarrow> slot \<Rightarrow> bool) \<Rightarrow> alloc \<Rightarrow> bool" where
  "lineup \<phi> a = (running a \<and> numSlots a = ns \<and> msgSeqStride a = stride \<and> autoReclaimTimeoutNs a = 0 \<and>
     unat ns \<le> length (slots a) \<and> unat ns < 2 ^ 31 \<and>
     (\<forall>i < unat ns. stable (\<phi> i) \<and> shaped (slots a ! i) \<and> \<phi> i (slots a ! i)))"

abbreviation at :: "(nat \<Rightarrow> slot \<Rightarrow> bool) \<Rightarrow> nat \<Rightarrow> (slot \<Rightarrow> bool) \<Rightarrow> alloc \<Rightarrow> bool" where
  "at \<phi> i P \<equiv> lineup (\<phi>(i := P))"

lemma lineup_slot: "lineup \<phi> a \<Longrightarrow> i < unat ns \<Longrightarrow> shaped (slots a ! i) \<and> \<phi> i (slots a ! i)"
  by (simp add: lineup_def)

lemma at_slot_is: "at \<phi> i P a \<Longrightarrow> i < unat ns \<Longrightarrow> shaped (slots a ! i) \<and> P (slots a ! i)"
  using lineup_slot [of "\<phi>(i := P)" a i] by simp

lemma poll_eq: "poll env ms a = a\<lparr>slots := map (serve_fitting g) (slots a), tick := Suc (tick a)\<rparr>"
  using prompt by (simp add: poll_def prompt_env_def)

lemma at_poll:
  assumes "at \<phi> i P a" and "stable Q" and "\<And>s. shaped s \<Longrightarrow> P s \<Longrightarrow> Q (serve_fitting g s)"
  shows "at \<phi> i Q (poll env ms a)"
  using assms shaped_serve by (auto simp: lineup_def poll_eq stable_def split: if_splits)

lemma lineup_poll:
  assumes "lineup \<phi> a"
  shows "lineup \<phi> (poll env ms a)"
  using assms shaped_serve by (auto simp: lineup_def poll_eq stable_def)

lemma at_upd:
  assumes "at \<phi> i P a" and "stable Q" and "\<And>s. shaped s \<Longrightarrow> P s \<Longrightarrow> shaped (f s) \<and> Q (f s)"
  shows "at \<phi> i Q (upd_slot i f a)"
proof -
  have "shaped ((slots a)[i := f (slots a ! i)] ! j) \<and> (\<phi>(i := Q)) j ((slots a)[i := f (slots a ! i)] ! j)" if "j < unat ns" for j
    using assms(1,3) that by (cases "j = i") (auto simp: lineup_def split: if_splits)
  then show ?thesis
    using assms(1,2) by (auto simp: lineup_def upd_slot_def split: if_splits)
qed

lemma l_load:
  assumes "i < unat ns" and "stable Q" and "\<And>s. shaped s \<Longrightarrow> P s \<Longrightarrow> Q (serve_fitting g s) \<and> A (f (serve_fitting g s))"
  shows "triple (at \<phi> i P) (load env i f) (\<lambda>x a. A x \<and> at \<phi> i Q a)"
  unfolding triple_def wp_load
proof (intro allI impI conjI)
  fix a
  assume a: "at \<phi> i P a"
  show "at \<phi> i Q (poll env 0 a)"
    by (rule at_poll [OF a assms(2)]) (use assms(3) in blast)
  have "i < length (slots a)"
    using a assms(1) by (simp add: lineup_def)
  then show "A (f (slots (poll env 0 a) ! i))"
    using at_slot_is [OF a assms(1)] assms(3) by (simp add: poll_eq)
qed

lemma l_store:
  assumes "stable Q" and "\<And>s. shaped s \<Longrightarrow> P s \<Longrightarrow> shaped (f s) \<and> Q (f s)"
  shows "triple (at \<phi> i P) (store env i f) (\<lambda>_. at \<phi> i Q)"
  unfolding triple_def wp_store
  by (intro allI impI) (rule at_upd [OF lineup_poll assms])

lemma l_own:
  assumes "i < unat ns" and "\<And>s. shaped s \<Longrightarrow> P s \<Longrightarrow> A (f s)"
  shows "triple (at \<phi> i P) (own i f) (\<lambda>x a. A x \<and> at \<phi> i P a)"
  by (rule triple_gets) (use at_slot_is assms in blast)

lemma l_config:
  "triple (lineup \<phi>) (gets running) (\<lambda>x a. x = True \<and> lineup \<phi> a)"
  "triple (lineup \<phi>) (gets numSlots) (\<lambda>x a. x = ns \<and> lineup \<phi> a)"
  "triple (lineup \<phi>) (gets msgSeqStride) (\<lambda>x a. x = stride \<and> lineup \<phi> a)"
  "triple (lineup \<phi>) (gets autoReclaimTimeoutNs) (\<lambda>x a. x = 0 \<and> lineup \<phi> a)"
  by (rule triple_gets, simp add: lineup_def)+

lemma l_gets: "triple (lineup \<phi>) (gets f) (\<lambda>_. lineup \<phi>)"
  by (rule triple_gets)

lemma sint_ns: "lineup \<phi> a \<Longrightarrow> sint ns = int (unat ns)"
  by (intro sint_small) (simp add: lineup_def word_less_nat_alt)

lemma l_valid: "i < unat ns \<Longrightarrow> triple (lineup \<phi>) (gets (\<lambda>a. host_slot a (int i))) (\<lambda>x a. x = True \<and> lineup \<phi> a)"
proof (rule triple_gets)
  fix a
  assume "i < unat ns" and a: "lineup \<phi> a"
  moreover have "numSlots a = ns"
    using a by (simp add: lineup_def)
  ultimately show "host_slot a (int i) = True \<and> lineup \<phi> a"
    unfolding host_slot_def by (simp only: sint_ns [OF a] of_nat_le_iff) simp
qed

lemma l_signal: "triple (lineup \<phi>) (signal env h) (\<lambda>_. lineup \<phi>)"
proof -
  have "lineup \<phi> (poll env 0 a\<lparr>events := ev\<rparr>)" if "lineup \<phi> a" for a ev
    using lineup_poll [OF that, of 0] by (simp add: lineup_def)
  then show ?thesis
    by (simp add: triple_def wp_def signal_def)
qed

section \<open>A transaction\<close>

lemma phase_shape_updates [simp]:
  "shaped (upd_header f s) = shaped s" "shaped (activeWait_update k s) = shaped s" "shaped (msgSeq_update q s) = shaped s"
  "shaped (currentLimit_update l s) = shaped s"
  by (simp_all add: shaped_def slot_ok_def upd_header_def)

lemma upd_header_fields [simp]:
  "header (upd_header f s) = f (header s)" "activeWait (upd_header f s) = activeWait s" "msgSeq (upd_header f s) = msgSeq s"
  by (simp_all add: upd_header_def)

lemma l_write_request:
  assumes i: "i < unat ns" and mt: "mt = STREAM_START \<or> mt = STREAM_CHUNK"
  shows "triple (at \<phi> i busy) (write_request env i sz mt) (\<lambda>cs. at \<phi> i (ready cs))"
proof -
  let ?typed = "\<lambda>s. busy s \<and> h_msgType (header s) = mt"
  let ?at = "\<lambda>cs s. busy s \<and> h_msgType (header s) = mt \<and> msgSeq s = cs"
  have seq: "triple (at \<phi> i ?typed) (own i msgSeq) (\<lambda>cs. at \<phi> i (?at cs))"
    by (rule triple_gets) (use i in \<open>auto simp: lineup_def stable_phases split: if_splits\<close>)
  have "triple (at \<phi> i (?at cs)) (store env i (upd_header (h_msgSeq_update (\<lambda>_. cs))))
      (\<lambda>_. at \<phi> i (\<lambda>s. ?at cs s \<and> h_msgSeq (header s) = cs))" for cs
    by (rule l_store, simp add: stable_phases) (simp add: phases)
  moreover have "triple (at \<phi> i (\<lambda>s. ?at cs s \<and> h_msgSeq (header s) = cs)) (modify (upd_slot i (msgSeq_update (\<lambda>q. q + stride))))
      (\<lambda>_. at \<phi> i (ready cs))" for cs
    by (rule triple_modify, rule at_upd, assumption, simp add: stable_phases) (use mt in \<open>auto simp: phases\<close>)
  ultimately have tail: "triple (at \<phi> i (?at cs)) (store env i (upd_header (h_msgSeq_update (\<lambda>_. cs))) \<bind> (\<lambda>_.
      modify (upd_slot i (msgSeq_update (\<lambda>q. q + stride))) \<bind> (\<lambda>_. ret cs))) (\<lambda>cs. at \<phi> i (ready cs))" for cs
    by (intro triple_bind) (auto intro!: triple_ret)
  have "triple (at \<phi> i busy) (store env i (upd_header (h_reqSize_update (\<lambda>_. sz)))) (\<lambda>_. at \<phi> i busy)"
    by (rule l_store, simp add: stable_phases) (simp add: phases)
  moreover have "triple (at \<phi> i busy) (store env i (upd_header (h_msgType_update (\<lambda>_. mt)))) (\<lambda>_. at \<phi> i ?typed)"
    by (rule l_store, simp add: stable_phases) (simp add: phases)
  ultimately show ?thesis
    unfolding write_request_def
    by (intro triple_bind_value [OF l_config(3)] triple_bind [OF _ triple_bind [OF _ triple_bind [OF seq tail]]])
qed

lemma l_publish:
  assumes i: "i < unat ns"
  shows "triple (at \<phi> i (ready cs)) (publish_request env i) (\<lambda>_. at \<phi> i (sent cs))"
proof -
  let ?armed = "\<lambda>s. busy s \<and> ready cs s \<and> activeWait s"
  have arm: "triple (at \<phi> i (ready cs)) (store env i (activeWait_update (\<lambda>_. True))) (\<lambda>_. at \<phi> i ?armed)"
    by (rule l_store, simp add: stable_phases) (simp add: phases)
  have keep: "triple (at \<phi> i ?armed) (store env i (upd_header (h_hostState_update (\<lambda>_. v)))) (\<lambda>_. at \<phi> i ?armed)" for v
    by (rule l_store, simp add: stable_phases) (simp add: phases)
  have go: "triple (at \<phi> i ?armed) (store_state env i SLOT_REQ_READY) (\<lambda>_. at \<phi> i (sent cs))"
    by (rule l_store, simp add: stable_phases) (simp add: phases sent_def)
  have look: "triple (at \<phi> i (sent cs)) (load env i f) (\<lambda>_. at \<phi> i (sent cs))" for f :: "slot \<Rightarrow> u32"
    by (rule triple_weaken [OF l_load [OF i stable_phases(6), where A = "\<lambda>_. True" and P = "sent cs"]])
      (auto simp: sent_def [of _ "serve_fitting g _"] dest: serve_sent)
  show ?thesis
    unfolding publish_request_def
    by (intro triple_bind [OF arm] triple_bind [OF keep] triple_bind [OF go] triple_bind [OF look] triple_if
        triple_bind [OF l_gets] l_signal triple_ret)
qed

text \<open>The first test of the state finds the response, while spinning or before the sleep.\<close>

lemma l_checkReady:
  assumes i: "i < unat ns"
  shows "triple (at \<phi> i (sent cs)) (checkReady env i) (\<lambda>r a. r = True \<and> at \<phi> i (landed cs) a)"
proof -
  have "triple (at \<phi> i (sent cs)) (load env i state_of) (\<lambda>x a. x = SLOT_RESP_READY \<and> at \<phi> i (landed cs) a)"
    by (rule l_load [OF i stable_phases(4)]) (use serve_sent in \<open>auto simp: landed_def\<close>)
  then show ?thesis
    unfolding checkReady_def by (rule triple_bind_value) (simp add: triple_ret)
qed

lemma landed_sent: "at \<phi> i (landed cs) a \<Longrightarrow> at \<phi> i (sent cs) a"
  by (auto simp: lineup_def sent_def stable_phases split: if_splits)

lemma l_WaitForRespReady:
  assumes i: "i < unat ns"
  shows "triple (at \<phi> i (sent cs)) (WaitForRespReady fuel env i t) (\<lambda>r a. r = Ret True \<and> at \<phi> i (landed cs) a)"
proof -
  note check = l_checkReady [OF i, of \<phi> cs]
  have limit: "triple (at \<phi> i P) (modify (upd_slot i (currentLimit_update f))) (\<lambda>_. at \<phi> i P)" if "P = sent cs \<or> P = landed cs" for f P
    by (rule triple_modify, rule at_upd, assumption) (use that in \<open>auto simp: stable_phases sent_def landed_def numbered_def\<close>)
  have host: "triple (at \<phi> i (sent cs)) (store env i (upd_header (h_hostState_update (\<lambda>_. v)))) (\<lambda>_. at \<phi> i (sent cs))" for v
    by (rule l_store, simp add: stable_phases) (simp add: sent_def landed_def numbered_def)
  have again: "triple (at \<phi> i (landed cs)) m Q" if "triple (at \<phi> i (sent cs)) m Q" for m :: "(alloc, 'x) state" and Q
    by (rule triple_weaken [OF that landed_sent])
  have "triple (at \<phi> i (sent cs)) (resp_sleepAction fuel env i t) (\<lambda>r a. \<exists>x. r = Ret x \<and> at \<phi> i (sent cs) a)"
    unfolding resp_sleepAction_def
    by (rule triple_bind [OF host], rule triple_bind_value [OF check], simp only: if_True,
        rule triple_bind [OF again [OF host]]) (auto intro!: triple_ret)
  then have sleep: "triple (at \<phi> i (sent cs)) (obind (resp_sleepAction fuel env i t) (\<lambda>_. checkReady env i \<bind> (\<lambda>c. ret (Ret c))))
      (\<lambda>r a. r = Ret True \<and> at \<phi> i (landed cs) a)"
    by (rule triple_obind_ret) (rule triple_bind_value [OF check], auto intro!: triple_ret)
  have "triple (at \<phi> i (sent cs)) (spin n (checkReady env i)) (\<lambda>r a. if r then at \<phi> i (landed cs) a else at \<phi> i (sent cs) a)" for n
  proof (cases n)
    case (Suc m)
    show ?thesis
      unfolding Suc spin.simps by (rule triple_bind_value [OF check]) (auto intro!: triple_ret)
  qed (auto intro!: triple_ret)
  then show ?thesis
    unfolding WaitForRespReady_def Wait_def
  proof (intro triple_bind [OF l_gets] triple_bind)
    fix r
    show "triple (\<lambda>a. if r then at \<phi> i (landed cs) a else at \<phi> i (sent cs) a)
       (if r then modify (upd_slot i (currentLimit_update grow_limit)) \<bind> (\<lambda>_. ret (Ret True))
        else modify (upd_slot i (currentLimit_update shrink_limit)) \<bind>
          (\<lambda>_. obind (resp_sleepAction fuel env i t) (\<lambda>_. checkReady env i \<bind> (\<lambda>c. ret (Ret c)))))
       (\<lambda>r a. r = Ret True \<and> at \<phi> i (landed cs) a)"
      by (cases r) (auto intro!: triple_bind [OF limit] triple_ret sleep)
  qed
qed

lemma l_FinishWait: "triple (at \<phi> i (landed cs)) (FinishWait env i True) (\<lambda>_. at \<phi> i (collected cs))"
proof -
  have "triple (at \<phi> i (landed cs)) (store_state env i SLOT_BUSY) (\<lambda>_. at \<phi> i (collected cs))"
    by (rule l_store, simp add: stable_phases) (simp add: phases)
  moreover have "triple (at \<phi> i (collected cs)) (store env i (activeWait_update (\<lambda>_. False))) (\<lambda>_. at \<phi> i (collected cs))"
    by (rule l_store, simp add: stable_phases) (simp add: phases)
  ultimately show ?thesis
    unfolding FinishWait_def by (simp only: if_True) (rule triple_bind)
qed

lemma l_consume:
  assumes i: "i < unat ns"
  shows "triple (at \<phi> i (collected cs)) (consume_response env i cs True out)
    (\<lambda>r a. \<exists>x. r = Ret x \<and> (\<exists>v. fst x = Inr v) \<and> at \<phi> i free a)" (is "triple _ _ ?R")
proof -
  have load: "triple (at \<phi> i (collected cs)) (load env i f) (\<lambda>x a. A x \<and> at \<phi> i (collected cs) a)"
    if "\<And>s. shaped s \<Longrightarrow> collected cs s \<Longrightarrow> A (f s)" for f :: "slot \<Rightarrow> 'x" and A
    by (rule l_load [OF i]) (use that in \<open>auto simp: stable_phases collected_def\<close>)
  have release: "triple (at \<phi> i (collected cs)) (store_state env i SLOT_FREE) (\<lambda>_. at \<phi> i free)"
    by (rule l_store, simp add: stable_phases) (simp add: phases)
  have out: "triple (\<lambda>a. length buf = unat mr \<and> at \<phi> i (collected cs) a) (case copy_out rs mr buf out of None \<Rightarrow> ret Trap
      | Some out \<Rightarrow> (if True then store_state env i SLOT_FREE else ret ()) \<bind> (\<lambda>_. ret (Ret (Inr (sint (clamp_resp rs mr)), out)))) ?R" for buf rs
    by (rule triple_pure) (simp add: copy_out_in_bounds, rule triple_bind [OF release], auto intro!: triple_ret)
  have seq: "triple (at \<phi> i (collected cs)) (load env i (\<lambda>s. h_msgSeq (header s))) (\<lambda>x a. x = cs \<and> at \<phi> i (collected cs) a)"
    by (rule load) (simp add: collected_def numbered_def)
  have type: "triple (at \<phi> i (collected cs)) (load env i (\<lambda>s. h_msgType (header s))) (\<lambda>x a. x \<noteq> SYSTEM_ERROR \<and> at \<phi> i (collected cs) a)"
    by (rule load) (simp add: collected_def)
  have size: "triple (at \<phi> i (collected cs)) (load env i (\<lambda>s. h_respSize (header s))) (\<lambda>x a. True \<and> at \<phi> i (collected cs) a)"
    by (rule load) simp
  have max: "triple (at \<phi> i (collected cs)) (own i maxRespSize) (\<lambda>x a. x = mr \<and> at \<phi> i (collected cs) a)"
    by (rule l_own [OF i]) (simp add: shaped_def)
  have buf: "triple (at \<phi> i (collected cs)) (load env i respBuffer) (\<lambda>x a. length x = unat mr \<and> at \<phi> i (collected cs) a)"
    by (rule load) (auto simp: shaped_def slot_ok_def)
  have read: "triple (\<lambda>a. True \<and> at \<phi> i (collected cs) a) (own i maxRespSize \<bind> (\<lambda>maxResp. load env i respBuffer \<bind> (\<lambda>respBuf.
      case copy_out rs maxResp respBuf out of None \<Rightarrow> ret Trap
      | Some out \<Rightarrow> (if True then store_state env i SLOT_FREE else ret ()) \<bind> (\<lambda>_. ret (Ret (Inr (sint (clamp_resp rs maxResp)), out)))))) ?R" for rs
    by (rule triple_pure) (rule triple_bind_value [OF max], rule triple_bind [OF buf], rule out)
  show ?thesis
    unfolding consume_response_def
    by (rule triple_bind_value [OF seq], simp only: not_True_eq_False if_False simp_thms, rule triple_bind [OF type], rule triple_pure)
      (simp only: if_False, rule triple_bind [OF size read])
qed

section \<open>Acquisition\<close>

lemma l_cas_free: "i < unat ns \<Longrightarrow> triple (at \<phi> i free) (cas_state env i SLOT_FREE SLOT_BUSY) (\<lambda>r a. r = True \<and> at \<phi> i busy a)"
proof -
  assume i: "i < unat ns"
  have "at \<phi> i busy (upd_slot i (upd_header (h_state_update (\<lambda>_. SLOT_BUSY))) a)" if "at \<phi> i free a" for a
    by (rule at_upd [OF that stable_phases(2)]) (simp add: phases)
  moreover have "state_of (slots (poll env 0 a) ! i) = SLOT_FREE" if "at \<phi> i free a" for a
    using at_slot_is [OF lineup_poll [OF that] i] by (simp add: free_def)
  ultimately show ?thesis
    using lineup_poll by (simp add: triple_def wp_def cas_state_def Let_def)
qed

lemma l_claim_free:
  assumes i: "i < unat ns"
  shows "triple (at \<phi> i free) (tryClaimSlot env i) (\<lambda>r a. r = True \<and> at \<phi> i busy a)"
proof -
  have gen: "triple (at \<phi> i free) (load env i (\<lambda>s. h_gen (header s))) (\<lambda>x a. True \<and> at \<phi> i free a)"
    by (rule l_load [OF i]) (simp_all add: stable_phases)
  have st: "triple (at \<phi> i free) (load env i state_of) (\<lambda>x a. x = SLOT_FREE \<and> at \<phi> i free a)"
    by (rule l_load [OF i]) (simp_all add: stable_phases, simp add: free_def)
  have bump: "triple (at \<phi> i free) (store env i (upd_header (h_gen_update f))) (\<lambda>_. at \<phi> i free)" for f
    by (rule l_store, simp add: stable_phases) (simp add: phases)
  have stamp: "triple (at \<phi> i busy) (stamp_lease env i) (\<lambda>_. at \<phi> i busy)"
    unfolding stamp_lease_def
    by (rule triple_bind [OF l_gets], rule l_store, simp add: stable_phases) (simp add: phases)
  show ?thesis
    unfolding tryClaimSlot_def
    by (rule triple_bind [OF gen], rule triple_pure, rule triple_bind_value [OF st], simp only: simp_thms if_True,
        rule triple_bind [OF bump], rule triple_bind_value [OF l_cas_free [OF i]], simp only: if_True, rule triple_bind [OF stamp])
      (simp add: triple_ret)
qed

text \<open>A slot in flight cannot be claimed: its sender waits for it.\<close>

lemma l_claim_sent:
  assumes i: "i < unat ns"
  shows "triple (at \<phi> i (\<lambda>s. \<exists>cs. sent cs s)) (tryClaimSlot env i) (\<lambda>r a. r = False \<and> at \<phi> i (\<lambda>s. \<exists>cs. sent cs s) a)"
proof -
  let ?F = "at \<phi> i (\<lambda>s. \<exists>cs. sent cs s)"
  have load: "triple ?F (load env i f) (\<lambda>x a. A x \<and> ?F a)" if "\<And>cs s. landed cs s \<Longrightarrow> A (f s)" for f :: "slot \<Rightarrow> 'x" and A
    by (rule l_load [OF i stable_phases(7)]) (use serve_sent that in \<open>auto simp: sent_def [of _ "serve_fitting g _"]\<close>)
  have st: "triple ?F (load env i state_of) (\<lambda>x a. x = SLOT_RESP_READY \<and> ?F a)"
    by (rule load) (simp add: landed_def)
  have aw: "triple ?F (load env i activeWait) (\<lambda>x a. x = True \<and> ?F a)"
    by (rule load) (simp add: landed_def)
  have gen: "triple ?F (load env i (\<lambda>s. h_gen (header s))) (\<lambda>x a. True \<and> ?F a)"
    by (rule load) simp
  have [simp]: "SLOT_RESP_READY \<noteq> SLOT_FREE" "stealable SLOT_RESP_READY"
    by (simp_all add: shm_consts stealable_def)
  show ?thesis
    unfolding tryClaimSlot_def
    by (rule triple_bind [OF gen], rule triple_pure, rule triple_bind_value [OF st], simp, rule triple_bind_value [OF aw]) (simp add: triple_ret)
qed

text \<open>The slots of the queue are in flight, the others are free.\<close>

definition queue :: "int list \<Rightarrow> nat \<Rightarrow> slot \<Rightarrow> bool" where
  "queue q i = (if int i \<in> set q then \<lambda>s. \<exists>cs. sent cs s else free)"

lemma l_claim_in:
  assumes "i < unat ns" and "int i \<in> set q"
  shows "triple (lineup (queue q)) (tryClaimSlot env i) (\<lambda>r a. r = False \<and> lineup (queue q) a)"
proof -
  have "(queue q)(i := \<lambda>s. \<exists>cs. sent cs s) = queue q"
    using assms(2) by (auto simp: queue_def)
  then show ?thesis
    using l_claim_sent [OF assms(1), of "queue q"] by simp
qed

lemma l_claim_out:
  assumes "i < unat ns" and "int i \<notin> set q"
  shows "triple (lineup (queue q)) (tryClaimSlot env i) (\<lambda>r a. r = True \<and> at (queue q) i busy a)"
proof -
  have "(queue q)(i := free) = queue q"
    using assms(2) by (auto simp: queue_def)
  then show ?thesis
    using l_claim_free [OF assms(1), of "queue q"] by simp
qed

text \<open>The search goes round the pool and meets the free slot \<open>k\<close> after at most \<open>n\<close> steps.\<close>

abbreviation got_slot :: "int list \<Rightarrow> int outcome \<Rightarrow> alloc \<Rightarrow> bool" where
  "got_slot q r a \<equiv> (\<exists>j. r = Ret (int j) \<and> j < unat ns \<and> int j \<notin> set q \<and> at (queue q) j busy a)"

lemma sint_idx: "lineup \<phi> a \<Longrightarrow> unat idx < unat ns \<Longrightarrow> sint idx = int (unat idx)" for idx :: u32
  by (intro sint_small) (simp add: lineup_def word_less_nat_alt)

lemma next_idx:
  fixes idx :: u32
  assumes "unat idx < unat ns"
  shows "unat (if idx + 1 \<ge> ns then 0 else idx + 1) < unat ns"
    "(unat (if idx + 1 \<ge> ns then 0 else idx + 1) + m) mod unat ns = (unat idx + Suc m) mod unat ns"
proof -
  have "unat idx + 1 < 2 ^ 32"
    using assms unsigned_less [of ns, where ?'a = nat] by simp
  then have s: "unat (idx + 1) = Suc (unat idx)"
    by (simp add: unat_word_ariths(1))
  show "unat (if idx + 1 \<ge> ns then 0 else idx + 1) < unat ns"
    using assms s by (auto simp: word_le_nat_alt)
  show "(unat (if idx + 1 \<ge> ns then 0 else idx + 1) + m) mod unat ns = (unat idx + Suc m) mod unat ns"
  proof (cases "idx + 1 \<ge> ns")
    case True
    then have "Suc (unat idx) = unat ns"
      using assms s by (simp add: word_le_nat_alt)
    then have "unat idx + Suc m = unat ns + m"
      by simp
    then show ?thesis
      by (simp only: True if_True unsigned_0 add_0 mod_add_self1)
  qed (use s in simp)
qed

lemma l_acquire_loop:
  assumes k: "k < unat ns" "int k \<notin> set q"
  shows "unat idx < unat ns \<Longrightarrow> (unat idx + n) mod unat ns = k \<Longrightarrow> n < fuel \<Longrightarrow>
    triple (lineup (queue q)) (acquire_loop fuel env idx) (got_slot q)"
proof (induction fuel arbitrary: n idx)
  case (Suc fuel)
  let ?i = "unat idx"
  show ?case
  proof (cases "int ?i \<in> set q")
    case False
    have "triple (at (queue q) ?i busy) (modify (cachedSlotIdx_update (\<lambda>_. idx)) \<bind> (\<lambda>_. ret (Ret (sint idx)))) (got_slot q)"
    proof (intro triple_bind [where Q = "\<lambda>_. at (queue q) ?i busy"] triple_modify triple_ret)
      show "at (queue q) ?i busy (cachedSlotIdx_update (\<lambda>_. idx) a)" if "at (queue q) ?i busy a" for a
        using that by (simp add: lineup_def)
      show "got_slot q (Ret (sint idx)) a" if "at (queue q) ?i busy a" for a
        using that Suc.prems(1) False sint_idx [OF that Suc.prems(1)] by (intro exI [of _ ?i]) simp
    qed
    then show ?thesis
      unfolding acquire_loop.simps
      by (intro triple_bind_value [OF l_claim_out [OF Suc.prems(1) False]]) (simp only: if_True)
  next
    case True
    then have "?i \<noteq> k"
      using k(2) by auto
    then obtain m where n: "n = Suc m"
      using Suc.prems(1,2) by (cases n) auto
    have "triple (lineup (queue q)) (acquire_loop fuel env (if idx + 1 \<ge> ns then 0 else idx + 1)) (got_slot q)"
      by (rule Suc.IH [OF next_idx(1) [OF Suc.prems(1)], of m]) (use next_idx(2) [OF Suc.prems(1), of m] Suc.prems(2,3) n in simp_all)
    then have "triple (lineup (queue q)) (gets numSlots \<bind> (\<lambda>total. if idx + 1 \<ge> total then gets autoReclaimTimeoutNs \<bind> (\<lambda>thresh.
          (if thresh > 0 then reclaim_sweep (unat total) env 0 thresh else ret ()) \<bind> (\<lambda>_. acquire_loop fuel env 0))
        else acquire_loop fuel env (idx + 1))) (got_slot q)"
      by (intro triple_bind_value [OF l_config(2)] triple_if triple_bind_value [OF l_config(4)]) simp_all
    then show ?thesis
      unfolding acquire_loop.simps
      by (intro triple_bind_value [OF l_claim_in [OF Suc.prems(1) True]]) (simp only: if_False)
  qed
qed simp

lemma free_slot_exists:
  assumes "distinct q" and "set q \<subseteq> int ` {..<unat ns}" and "length q < unat ns"
  obtains k where "k < unat ns" and "int k \<notin> set q"
proof -
  have "card (set q) < card (int ` {..<unat ns})"
    using assms by (simp add: distinct_card card_image)
  then have "\<not> int ` {..<unat ns} \<subseteq> set q"
    by (meson List.finite_set card_mono not_le)
  then show ?thesis
    using that by blast
qed

lemma l_AcquireSlot:
  assumes "distinct q" and "set q \<subseteq> int ` {..<unat ns}" and "length q < unat ns" and "unat ns \<le> fuel"
  shows "triple (lineup (queue q)) (AcquireSlot fuel env) (got_slot q)"
proof -
  obtain k where k: "k < unat ns" "int k \<notin> set q"
    using free_slot_exists [OF assms(1-3)] .
  have "lineup (queue q) (poll env 0 a\<lparr>nextSlot := v\<rparr>)" if "lineup (queue q) a" for a v
    using lineup_poll [OF that, of 0] by (simp add: lineup_def)
  then have fetch: "triple (lineup (queue q)) (fetch_next env) (\<lambda>_. lineup (queue q))"
    by (simp add: triple_def wp_def fetch_next_def Let_def)
  have loop: "triple (lineup (queue q)) (acquire_loop fuel env (nxt mod ns)) (got_slot q)" for nxt
  proof (rule l_acquire_loop [OF k])
    show i: "unat (nxt mod ns) < unat ns"
      using k(1) by (simp add: unat_mod)
    show "(unat (nxt mod ns) + (k + unat ns - unat (nxt mod ns)) mod unat ns) mod unat ns = k"
      using i k(1) by (simp add: mod_add_right_eq)
    show "(k + unat ns - unat (nxt mod ns)) mod unat ns < fuel"
      by (rule less_le_trans [OF mod_less_divisor assms(4)]) (use k(1) in simp)
  qed
  have ns: "ns \<noteq> 0"
    using k(1) by auto
  have search: "triple (lineup (queue q)) (fetch_next env \<bind> (\<lambda>nxt. if ns = 0 then ret Trap else acquire_loop fuel env (nxt mod ns))) (got_slot q)"
    by (rule triple_bind [OF fetch]) (use ns loop in simp)
  have got: "triple (at (queue q) (unat c) busy) (ret (Ret (sint c))) (got_slot q)" if "unat c < unat ns" "int (unat c) \<notin> set q" for c :: u32
  proof (rule triple_ret, intro exI conjI)
    show "Ret (sint c) = Ret (int (unat c))" if "at (queue q) (unat c) busy a" for a
      using sint_idx [OF that \<open>unat c < unat ns\<close>] by (rule arg_cong)
  qed (use that in simp_all)
  have "triple (lineup (queue q)) ((if c < ns then tryClaimSlot env (unat c) else ret False) \<bind> (\<lambda>ok. if ok then ret (Ret (sint c))
      else fetch_next env \<bind> (\<lambda>nxt. if ns = 0 then ret Trap else acquire_loop fuel env (nxt mod ns)))) (got_slot q)" for c
  proof (cases "c < ns")
    case True
    then have c: "unat c < unat ns"
      by (simp add: word_less_nat_alt)
    show ?thesis
    proof (cases "int (unat c) \<in> set q")
      case True
      show ?thesis
        using \<open>c < ns\<close> search by (simp only: if_True) (rule triple_bind_value [OF l_claim_in [OF c True]], simp only: if_False)
    next
      case False
      show ?thesis
        using \<open>c < ns\<close> got [OF c False] by (simp only: if_True) (rule triple_bind_value [OF l_claim_out [OF c False]], simp only: if_True)
    qed
  next
    case False
    then show ?thesis
      by (auto intro!: triple_bind [where m = "ret False"] triple_ret search)
  qed
  then show ?thesis
    unfolding AcquireSlot_def
    by (intro triple_bind_value [OF l_config(1)]) (simp, intro triple_bind [OF l_gets] triple_bind_value [OF l_config(2)])
qed

section \<open>The calls of the sender\<close>

lemma l_capacity:
  assumes i: "i < unat ns"
  shows "triple (at \<phi> i P) (own i maxReqSize) (\<lambda>x a. x = mq \<and> at \<phi> i P a)"
  by (rule l_own [OF i]) (simp add: shaped_def)

lemma size_le:
  assumes "int n \<le> sint mq"
  shows "n \<le> unat mq"
proof -
  have "sint mq \<le> int (unat mq)"
    using unsigned_less [of mq, where ?'a = nat] by (simp add: sint_i32 split: if_splits)
  then show ?thesis
    using assms by linarith
qed

lemma small_size:
  assumes "int n \<le> sint mq"
  shows "(absSize (word_of_nat n) > mq) = False"
proof -
  have n: "n < 2 ^ 31"
    using assms sint_lt [of mq] by simp
  have "n \<le> unat mq"
    by (rule size_le [OF assms])
  moreover have "absSize (word_of_nat n) = word_of_nat n"
    using sint_of_nat_i32 [OF n] by (simp add: absSize_def word_sless_alt)
  ultimately show ?thesis
    using n by (simp add: word_less_nat_alt unat_u32_of_nat)
qed

lemma l_SendAcquiredAsync:
  assumes i: "i < unat ns" and n: "int n \<le> sint mq"
  shows "triple (at \<phi> i busy) (SendAcquiredAsync env (int i) (word_of_nat n) STREAM_CHUNK)
    (\<lambda>r a. r = Success \<and> at \<phi> i (\<lambda>s. \<exists>cs. sent cs s) a)"
proof -
  have weak: "at \<phi> i (\<lambda>s. \<exists>cs. sent cs s) a" if "at \<phi> i (sent cs) a" for cs a
    using that by (auto simp: lineup_def stable_phases split: if_splits)
  show ?thesis
    unfolding SendAcquiredAsync_def Let_def nat_int
    by (rule triple_bind_value [OF l_valid [OF i]], simp only: not_True_eq_False if_False, rule triple_bind_value [OF l_capacity [OF i]])
      (simp only: small_size [OF n] if_False, intro triple_bind [OF l_write_request [OF i]] triple_bind [OF l_publish [OF i]],
       auto intro!: triple_ret intro: weak)
qed

lemma l_SendAcquired:
  assumes i: "i < unat ns" and n: "int n \<le> sint mq"
  shows "triple (at \<phi> i busy) (SendAcquired fuel env (int i) (word_of_nat n) STREAM_START out t)
    (\<lambda>r a. \<exists>x. r = Ret x \<and> (\<exists>v. fst x = Inr v) \<and> at \<phi> i free a)" (is "triple _ _ ?R")
proof -
  have wait: "triple (at \<phi> i (sent cs)) (WaitForRespReady fuel env i t') (\<lambda>r a. \<exists>x. r = Ret x \<and> x = True \<and> at \<phi> i (landed cs) a)" for cs t'
    by (rule triple_weaken [OF l_WaitForRespReady [OF i]]) auto
  have "triple (at \<phi> i (ready cs)) (WaitResponse fuel env i t') (\<lambda>r a. \<exists>x. r = Ret x \<and> x = True \<and> at \<phi> i (collected cs) a)" for cs t'
    unfolding WaitResponse_def
    by (rule triple_bind [OF l_publish [OF i]], rule triple_obind_ret [OF wait], rule triple_pure)
      (simp only:, rule triple_bind [OF l_FinishWait], auto intro!: triple_ret)
  then have tail: "triple (at \<phi> i (ready cs)) (obind (WaitResponse fuel env i t') (\<lambda>ready.
      if \<not> ready then ret (Ret (Inl Timeout, out)) else consume_response env i cs True out)) ?R" for cs t'
    by (rule triple_obind_ret) (rule triple_pure, use l_consume [OF i] in simp)
  show ?thesis
    unfolding SendAcquired_def Let_def nat_int
    by (rule triple_bind_value [OF l_valid [OF i]], simp only: not_True_eq_False if_False, rule triple_bind_value [OF l_capacity [OF i]])
      (simp only: small_size [OF n] if_False, intro triple_bind [OF l_write_request [OF i]] triple_bind [OF l_gets] tail, simp)
qed

lemma l_WaitForSlot:
  assumes i: "i < unat ns"
  shows "triple (at \<phi> i (\<lambda>s. \<exists>cs. sent cs s)) (WaitForSlot fuel env (int i) out t)
    (\<lambda>r a. \<exists>x. r = Ret x \<and> (\<exists>v. fst x = Inr v) \<and> at \<phi> i free a)" (is "triple ?F _ ?R")
proof -
  have wait: "triple (at \<phi> i (sent cs)) (WaitForRespReady fuel env i t') (\<lambda>r a. \<exists>x. r = Ret x \<and> x = True \<and> at \<phi> i (landed cs) a)" for cs t'
    by (rule triple_weaken [OF l_WaitForRespReady [OF i]]) auto
  have seq: "triple (at \<phi> i (collected cs)) (own i msgSeq) (\<lambda>x a. x = cs + stride \<and> at \<phi> i (collected cs) a)" for cs
    by (rule l_own [OF i]) (simp add: collected_def numbered_def)
  have tail: "triple (at \<phi> i (collected cs)) (own i msgSeq \<bind> (\<lambda>sq. gets msgSeqStride \<bind> (\<lambda>stride. consume_response env i (sq - stride) True out))) ?R" for cs
    by (rule triple_bind_value [OF seq], rule triple_bind_value [OF l_config(3)]) (use l_consume [OF i] in simp)
  have "triple (\<lambda>a. \<exists>cs. at \<phi> i (sent cs) a) (obind (WaitForRespReady fuel env i t') (\<lambda>ready. FinishWait env i ready \<bind> (\<lambda>_.
      if \<not> ready then ret (Ret (Inl Timeout, out)) else own i msgSeq \<bind> (\<lambda>sq. gets msgSeqStride \<bind> (\<lambda>stride.
        consume_response env i (sq - stride) True out))))) ?R" for t'
    by (rule triple_ex, rule triple_obind_ret [OF wait], rule triple_pure)
      (simp only: not_True_eq_False if_False, rule triple_bind [OF l_FinishWait tail])
  then have body: "triple ?F (obind (WaitForRespReady fuel env i t') (\<lambda>ready. FinishWait env i ready \<bind> (\<lambda>_.
      if \<not> ready then ret (Ret (Inl Timeout, out)) else own i msgSeq \<bind> (\<lambda>sq. gets msgSeqStride \<bind> (\<lambda>stride.
        consume_response env i (sq - stride) True out))))) ?R" for t'
    by (rule triple_weaken) (use i in \<open>auto simp: lineup_def stable_phases split: if_splits\<close>)
  have active: "triple ?F (store env i (activeWait_update (\<lambda>_. True))) (\<lambda>_. ?F)"
    by (rule l_store [OF stable_phases(7)]) (auto simp: sent_def landed_def numbered_def)
  have host: "triple ?F (store env i (upd_header (h_hostState_update (\<lambda>_. v)))) (\<lambda>_. ?F)" for v
    by (rule l_store [OF stable_phases(7)]) (auto simp: sent_def landed_def numbered_def)
  show ?thesis
    unfolding WaitForSlot_def Let_def nat_int
    by (rule triple_bind_value [OF l_valid [OF i]], simp only: not_True_eq_False if_False)
      (intro triple_bind [OF l_gets] triple_bind [OF active] triple_bind [OF host] body)
qed

lemma l_memcpy:
  assumes i: "i < unat ns" and len: "length bs \<le> unat mq"
  shows "triple (at \<phi> i busy) (memcpy_request env i bs) (\<lambda>r a. r = Ret () \<and> at \<phi> i busy a)"
proof -
  have read: "triple (at \<phi> i busy) (load env i reqBuffer) (\<lambda>buf a. length buf = unat mq \<and> at \<phi> i busy a)"
    by (rule l_load [OF i]) (auto simp: stable_phases shaped_def slot_ok_def)
  have "triple (at \<phi> i busy) (case mem_write 0 bs buf of None \<Rightarrow> ret Trap
      | Some buf' \<Rightarrow> modify (upd_slot i (reqBuffer_update (\<lambda>_. buf'))) \<bind> (\<lambda>_. ret (Ret ()))) (\<lambda>r a. r = Ret () \<and> at \<phi> i busy a)"
    if "length buf = unat mq" for buf
  proof -
    have "triple (at \<phi> i busy) (modify (upd_slot i (reqBuffer_update (\<lambda>_. overwrite 0 bs buf)))) (\<lambda>_. at \<phi> i busy)"
      by (rule triple_modify, rule at_upd [OF _ stable_phases(2)], assumption)
        (use that len in \<open>auto simp: shaped_def slot_ok_def busy_def\<close>)
    then show ?thesis
      using that len by (simp add: mem_safe) (elim triple_bind, auto intro!: triple_ret)
  qed
  then show ?thesis
    unfolding memcpy_request_def by (intro triple_bind [OF read] triple_pure)
qed

section \<open>The host of the library serves\<close>

definition flight :: "int list \<Rightarrow> host \<Rightarrow> bool" where
  "flight q h = (distinct q \<and> set q \<subseteq> int ` {..<unat ns} \<and> lineup (queue q) (h_alloc h))"

definition held :: "int \<Rightarrow> int list \<Rightarrow> host \<Rightarrow> bool" where
  "held j q h = ((0 \<le> j \<and> nat j < unat ns \<and> j \<notin> set q \<and> distinct q \<and> set q \<subseteq> int ` {..<unat ns}) \<and>
     at (queue q) (nat j) busy (h_alloc h))"

lemma queue_upd:
  assumes "0 \<le> j" and "j \<notin> set q"
  shows "(queue q)(nat j := free) = queue q" "(queue q)(nat j := \<lambda>s. \<exists>cs. sent cs s) = queue (q @ [j])"
    "queue (j # q) = (queue q)(nat j := \<lambda>s. \<exists>cs. sent cs s)"
  using assms by (auto simp: queue_def fun_eq_iff)

lemma held_op:
  assumes "\<And>i. i < unat ns \<Longrightarrow> j = int i \<Longrightarrow> j \<notin> set q \<Longrightarrow> distinct q \<Longrightarrow> set q \<subseteq> int ` {..<unat ns} \<Longrightarrow>
      triple (at (queue q) i busy) m (\<lambda>r a. \<forall>h. h_alloc h = a \<longrightarrow> R r h)"
  shows "triple (held j q) (on_allocator m) R"
proof -
  have "triple (\<lambda>h. at (queue q) (nat j) busy (h_alloc h)) (on_allocator m) R"
    if "0 \<le> j \<and> nat j < unat ns \<and> j \<notin> set q \<and> distinct q \<and> set q \<subseteq> int ` {..<unat ns}"
    by (rule triple_weaken [OF triple_on_allocator [OF assms [of "nat j"]]]) (use that in auto)
  then show ?thesis
    unfolding held_def by (rule triple_pure)
qed

lemma held_lookup:
  shows "triple (held j q) (dh_GetMaxReqSize j) (\<lambda>r h. r = sint mq \<and> held j q h)"
    "triple (held j q) (dh_GetReqBuffer j) (\<lambda>r h. r = Some (nat j) \<and> held j q h)"
proof -
  have slot: "host_slot (h_alloc h) j" "maxReqSize (slots (h_alloc h) ! nat j) = mq" if "held j q h" for h
  proof -
    have j: "0 \<le> j" "nat j < unat ns" and a: "at (queue q) (nat j) busy (h_alloc h)"
      using that by (simp_all add: held_def)
    show "maxReqSize (slots (h_alloc h) ! nat j) = mq"
      using at_slot_is [OF a j(2)] by (simp add: shaped_def)
    show "host_slot (h_alloc h) j"
      using triple_run [OF l_valid [OF j(2)] a] j(1) by simp
  qed
  show "triple (held j q) (dh_GetMaxReqSize j) (\<lambda>r h. r = sint mq \<and> held j q h)"
    "triple (held j q) (dh_GetReqBuffer j) (\<lambda>r h. r = Some (nat j) \<and> held j q h)"
    by (auto simp: triple_def dh_GetMaxReqSize_def GetMaxReqSize_def dh_GetReqBuffer_def GetReqBuffer_def wp_on_allocator wp_rules slot)
qed

lemma drop_response_ok:
  assumes "triple P m (\<lambda>r s. \<exists>x. r = Ret x \<and> (\<exists>v. fst x = Inr v) \<and> Q s)"
  shows "triple P (drop_response m) (\<lambda>r s. (\<exists>v. r = Ret (Inr v)) \<and> Q s)"
  unfolding drop_response_def case_prod_unfold
  by (rule triple_obind_ret [OF assms]) (auto intro!: triple_ret)

lemma direct_prompt_host:
  assumes "unat ns \<le> tries"
  shows "prompt_host (direct_api tries env) flight held (sint mq) (unat ns)"
proof
  fix q :: "int list"
  assume room: "length q < unat ns"
  have "triple (lineup (queue q)) (AcquireSlot tries env) (got_slot q)" if "distinct q" "set q \<subseteq> int ` {..<unat ns}"
    by (rule l_AcquireSlot [OF that room assms])
  then have "triple (\<lambda>h. distinct q \<and> set q \<subseteq> int ` {..<unat ns} \<and> lineup (queue q) (h_alloc h)) (on_allocator (AcquireSlot tries env))
      (\<lambda>r h. \<exists>j. r = Ret j \<and> 0 \<le> j \<and> held j q h)"
    by (intro triple_pure) (rule triple_weaken [OF triple_on_allocator [where P = "lineup (queue q)" and Q = "got_slot q"]], auto simp: held_def)
  then show "triple (flight q) (api_AcquireSlot (direct_api tries env)) (\<lambda>r h. \<exists>j. r = Ret j \<and> 0 \<le> j \<and> held j q h)"
    unfolding direct_api_def host_api.simps dh_AcquireSlot_def flight_def [abs_def] .
next
  fix j q
  show "triple (held j q) (api_GetMaxReqSize (direct_api tries env) j) (\<lambda>r s. r = sint mq \<and> held j q s)"
    unfolding direct_api_def host_api.simps by (rule held_lookup)
  show "sint mq < 2 ^ 31"
    using sint_lt [of mq] by simp
  have "triple (held j q) (on_allocator (memcpy_request env (nat j) bs)) (\<lambda>r s. r = Ret () \<and> held j q s)"
    if "int (length bs) \<le> sint mq" for bs
    by (intro held_op triple_weaken [OF l_memcpy]) (use size_le [OF that] in \<open>auto simp: held_def\<close>)
  then show "triple (held j q) (api_write (direct_api tries env) j bs) (\<lambda>r s. r = Ret () \<and> held j q s)"
    if "int (length bs) \<le> sint mq" for bs
    unfolding direct_api_def host_api.simps write_request_buffer_def
    by (intro triple_bind_value [OF held_lookup(2)]) (use that in simp)
  show "triple (held j q) (api_SendAcquired (direct_api tries env) j (word_of_nat n) STREAM_START USE_DEFAULT_TIMEOUT)
      (\<lambda>r s. (\<exists>v. r = Ret (Inr v)) \<and> flight q s)" if "int n \<le> sint mq" for n
    unfolding direct_api_def host_api.simps dh_SendAcquired_def
    by (intro drop_response_ok held_op, simp only:, rule triple_weaken [OF l_SendAcquired [OF _ that]])
      (auto simp: flight_def queue_upd(1) [of "int _", simplified])
  show "triple (held j q) (api_SendAcquiredAsync (direct_api tries env) j (word_of_nat n) STREAM_CHUNK)
      (\<lambda>r s. r = Success \<and> flight (q @ [j]) s)" if "int n \<le> sint mq" for n
    unfolding direct_api_def host_api.simps dh_SendAcquiredAsync_def
    by (intro held_op, simp only:, rule triple_weaken [OF l_SendAcquiredAsync [OF _ that]])
      (auto simp: flight_def queue_upd(2) [of "int _", simplified])
next
  fix j q
  have "triple (\<lambda>h. (distinct (j # q) \<and> set (j # q) \<subseteq> int ` {..<unat ns}) \<and> lineup (queue (j # q)) (h_alloc h))
      (on_allocator (WaitForSlot tries env j [] USE_DEFAULT_TIMEOUT)) (\<lambda>r h. \<exists>x. r = Ret x \<and> (\<exists>v. fst x = Inr v) \<and> flight q h)"
  proof (rule triple_pure)
    assume q: "distinct (j # q) \<and> set (j # q) \<subseteq> int ` {..<unat ns}"
    then have j: "0 \<le> j" "j \<notin> set q" "nat j < unat ns"
      by auto
    show "triple (\<lambda>h. lineup (queue (j # q)) (h_alloc h)) (on_allocator (WaitForSlot tries env j [] USE_DEFAULT_TIMEOUT))
        (\<lambda>r h. \<exists>x. r = Ret x \<and> (\<exists>v. fst x = Inr v) \<and> flight q h)"
      unfolding queue_upd(3) [OF j(1,2)]
      using triple_on_allocator [OF l_WaitForSlot [OF j(3), of "queue q" tries "[]" USE_DEFAULT_TIMEOUT]] j q
      by (simp add: queue_upd(1) flight_def)
  qed
  then show "triple (flight (j # q)) (api_WaitForSlot (direct_api tries env) j USE_DEFAULT_TIMEOUT)
      (\<lambda>r s. (\<exists>v. r = Ret (Inr v)) \<and> flight q s)"
    unfolding direct_api_def host_api.simps dh_WaitForSlot_def
    by (intro drop_response_ok, elim triple_weaken) (simp_all add: flight_def)
qed

end

text \<open>A guest that acknowledges every message with an empty reply.\<close>

definition ack_handler :: handler where
  "ack_handler mt req = (mt, [], False)"

lemma ack_accepts: "accepts ack_handler mr STREAM_START" "accepts ack_handler mr STREAM_CHUNK"
  by (simp_all add: accepts_def ack_handler_def shm_consts)

lemma prompt_pool_env: "prompt_env g (pool_env g)"
  by (simp add: prompt_env_def pool_env_def)

interpretation ack_pool: prompt_pool "pool_env ack_handler" ack_handler ns mq mr stride for ns mq mr stride
  by unfold_locales (rule prompt_pool_env ack_accepts)+

interpretation ack_host: prompt_host "direct_api (unat ns) (pool_env ack_handler)" "ack_pool.flight ns mq mr stride"
    "ack_pool.held ns mq mr stride" "sint mq" "unat ns" for ns mq mr stride
  by (rule ack_pool.direct_prompt_host) simp

lemma prompt_shaped: "prompt_env g env \<Longrightarrow> shaped_pool env"
proof -
  assume "prompt_env g env"
  then have eq: "interference env = interference (pool_env g)"
    by (simp add: prompt_env_def pool_env_def fun_eq_iff)
  show ?thesis
    using pool_guest.shaped_pool_axioms [of g] unfolding shaped_pool_def slot_rely_def eq .
qed

definition idle_pool :: "u32 \<Rightarrow> u32 \<Rightarrow> alloc \<Rightarrow> bool" where
  "idle_pool mq mr a = (running a \<and> autoReclaimTimeoutNs a = 0 \<and> 0 < numSlots a \<and>
     unat (numSlots a) \<le> length (slots a) \<and> length (slots a) < 2 ^ 31 \<and>
     list_all (\<lambda>s. slot_ok s \<and> maxReqSize s = mq \<and> maxRespSize s = mr \<and> state_of s = SLOT_FREE) (slots a))"

lemma stream_completion:
  assumes "prompt_env g env" and "accepts g mr STREAM_START" and "accepts g mr STREAM_CHUNK" and "idle_pool mq mr (h_alloc h)"
    and "int sizeof_ChunkHeader < sint mq" and "baseSlot self < 0"
    and "0 < maxInFlight self" and "maxInFlight self \<le> int (unat (numSlots (h_alloc h)))" and "length d \<le> 2 ^ 30"
    and "length (split_parts (nat (sint mq - int sizeof_ChunkHeader)) d) < fuel" and "unat (numSlots (h_alloc h)) \<le> tries"
  shows "case run_state (stream_Send fuel (Some (direct_api tries env)) self (Some d) (word_of_nat (length d)) i tag) (h, []) of
    (r, (h', tr)) \<Rightarrow> r = Ret Success \<and>
      stream_calls (maxInFlight self) i tag (split_parts (nat (sint mq - int sizeof_ChunkHeader)) d) r tr \<and>
      (\<forall>j < unat (numSlots (h_alloc h)). state_of (slots (h_alloc h') ! j) = SLOT_FREE)"
proof -
  let ?a = "h_alloc h"
  let ?ns = "numSlots ?a" and ?st = "msgSeqStride ?a"
  have pool: "prompt_pool env g mr"
    using assms(1-3) by unfold_locales
  have slots: "list_all (\<lambda>s. slot_ok s \<and> maxReqSize s = mq \<and> maxRespSize s = mr \<and> state_of s = SLOT_FREE) (slots ?a)"
    and n: "unat ?ns \<le> length (slots ?a)" "length (slots ?a) < 2 ^ 31" "?ns \<noteq> 0"
    using assms(4) by (auto simp: idle_pool_def)
  have "prompt_pool.flight g ?ns mq mr ?st [] h"
    using assms(4) by (auto simp: prompt_pool.flight_def [OF pool] prompt_pool.lineup_def [OF pool] prompt_pool.queue_def [OF pool]
        prompt_pool.stable_phases [OF pool] prompt_pool.shaped_def [OF pool] prompt_pool.free_def [OF pool] idle_pool_def list_all_length)
  then have live: "wp (stream_Send fuel (Some (direct_api tries env)) self (Some d) (word_of_nat (length d)) i tag)
      (\<lambda>r st. r = Ret Success \<and> prompt_pool.flight g ?ns mq mr ?st [] (fst st)) (h, [])"
    using prompt_host.stream_send_succeeds [OF prompt_pool.direct_prompt_host [OF pool assms(11)] assms(5-10)]
    by (auto simp: triple_def)
  have shapes: "stream_pool ?ns mq ?a"
    unfolding stream_pool_def using n slots
    by (intro conjI exI [of _ "length (slots ?a)"] exI [of _ mr])
      (auto simp: shapes_def sizes_def list_all_length intro!: nth_equalityI)
  have "int (unat ?ns) < int (2 ^ 31)"
    unfolding of_nat_less_iff using n(1,2) by simp
  then have "rotation_ok self"
    unfolding rotation_ok_def using assms(6,8) by simp
  then have "case run_state (stream_Send fuel (Some (direct_api tries env)) self (Some d) (word_of_nat (length d)) i tag) (h, []) of
    (r, (h', tr)) \<Rightarrow> stream_calls (maxInFlight self) i tag (split_parts (nat (sint mq - int sizeof_ChunkHeader)) d) r tr"
    using stream_host.stream_send_run [OF shaped_pool.direct_stream_host [OF prompt_shaped [OF assms(1)], where fuel = tries] shapes, where self = self and d = d and fuel = fuel and i = i and tag = tag]
      assms(5,9) by (auto split: prod.splits)
  then show ?thesis
    using live by (auto simp: wp_def prompt_pool.flight_def [OF pool] prompt_pool.lineup_def [OF pool] prompt_pool.queue_def [OF pool]
        prompt_pool.free_def [OF pool] split: prod.splits)
qed

text \<open>
  C5. A stream to a receiver that accepts it succeeds. Take a host whose slots are all free and
  used by nobody else, with auto-reclaim off, and a guest that answers each request before the
  next access of the host, accepts \<open>STREAM_START\<close> and \<open>STREAM_CHUNK\<close> and keeps its replies within
  the response buffers. Then \<open>StreamSender::Send\<close> over the shared pool, with at least one and at
  most as many slots in flight as the pool has, returns success for every buffer of at most
  1 GiB: as many rounds as the buffer has parts, and one more, are enough. It has sent exactly
  the messages of the protocol, and every slot is free again. The clocks are arbitrary.
\<close>

theorem stream_send_completes:
  assumes "prompt_env g env" and "accepts g mr STREAM_START" and "accepts g mr STREAM_CHUNK" and "idle_pool mq mr (h_alloc h)"
    and "int sizeof_ChunkHeader < sint mq" and "baseSlot self < 0"
    and "0 < maxInFlight self" and "maxInFlight self \<le> int (unat (numSlots (h_alloc h)))" and "length d \<le> 2 ^ 30"
    and "length (split_parts (nat (sint mq - int sizeof_ChunkHeader)) d) < fuel" and "unat (numSlots (h_alloc h)) \<le> tries"
  shows "case run_state (stream_Send fuel (Some (direct_api tries env)) self (Some d) (word_of_nat (length d)) i tag) (h, []) of
    (r, (h', tr)) \<Rightarrow> r = Ret Success \<and>
      stream_calls (maxInFlight self) i tag (split_parts (nat (sint mq - int sizeof_ChunkHeader)) d) r tr \<and>
      (\<forall>j < unat (numSlots (h_alloc h)). state_of (slots (h_alloc h') ! j) = SLOT_FREE)"
  by (rule stream_completion [OF assms])

theorem stream_send_completes_witness:
  "case run_state (stream_Send 3 (Some (direct_api 1 (pool_env ack_handler))) (StreamSender 1 (- 1)) (Some [1, 2, 3, 4, 5, 6, 7, 8, 9, 10])
      (word_of_nat 10) 7 3) (wide_host, []) of
    (r, (h, tr)) \<Rightarrow> r = Ret Success \<and> stream_calls 1 7 3 [[1, 2, 3, 4, 5, 6, 7, 8], [9, 10]] r tr \<and>
      state_of (slots (h_alloc h) ! 0) = SLOT_FREE"
proof -
  have "idle_pool 32 32 (h_alloc wide_host)" "numSlots (h_alloc wide_host) = 1"
    by (simp_all add: idle_pool_def wide_host_def wide_pool_def demo_alloc_def demo_slot_def slot_ok_def upd_header_def)
  moreover have "split_parts 8 [1, 2, 3, 4, 5, 6, 7, 8, 9, 10] = [[1, 2, 3, 4, 5, 6, 7, 8], [9, 10]]"
    by (simp add: split_parts.simps)
  ultimately show ?thesis
    using stream_send_completes [OF prompt_pool_env, of ack_handler 32 32 wide_host "StreamSender 1 (- 1)"
        "[1, 2, 3, 4, 5, 6, 7, 8, 9, 10]" 3 1 7 3]
    by (simp add: StreamSender_def ack_accepts)
qed

end
