(* ===== verification/Shm_Stream_Delivery.thy ===== *)
theory Shm_Stream_Delivery
  imports Shm_Stream_Pipeline
begin

text \<open>
  From the sender to the receiver. Chunks in flight are handled by the guest in any order, and
  a slot is collected only after its chunk was handled. The depth of the pipeline bounds how far
  a chunk can run ahead, so a receiver with room for that many parked chunks delivers the buffer.
\<close>

section \<open>A stream and its handling\<close>

text \<open>
  The calls of the abstract sender together with the order in which the guest handles the
  chunks. When \<open>k\<close> chunks have been sent and \<open>q\<close> is pending, the pending chunks are the last
  \<open>length q\<close> of them, the oldest first.
\<close>

inductive exchange :: "int \<Rightarrow> u64 \<Rightarrow> byte list list \<Rightarrow> nat \<Rightarrow> int list \<Rightarrow> api_call list \<Rightarrow> nat list \<Rightarrow> bool"
  for inFlight i ps where
  ex_start: "exchange inFlight i ps 0 [] [] []"
| ex_send: "exchange inFlight i ps k q tr ks \<Longrightarrow> k < length ps \<Longrightarrow> int (length q) < inFlight \<Longrightarrow>
    exchange inFlight i ps (Suc k) (q @ [s]) (tr @ chunk_calls i ps k s True) ks"
| ex_handle: "exchange inFlight i ps k q tr ks \<Longrightarrow> k - length q \<le> j \<Longrightarrow> j < k \<Longrightarrow> j \<notin> set ks \<Longrightarrow>
    exchange inFlight i ps k q tr (ks @ [j])"
| ex_collect: "exchange inFlight i ps k (s # q) tr ks \<Longrightarrow> k - Suc (length q) \<in> set ks \<Longrightarrow>
    exchange inFlight i ps k q (tr @ [Collected s USE_DEFAULT_TIMEOUT True]) ks"

definition answered :: "int \<Rightarrow> u64 \<Rightarrow> u32 \<Rightarrow> byte list list \<Rightarrow> api_call list \<Rightarrow> nat list \<Rightarrow> bool" where
  "answered inFlight i tag ps calls ks =
     (\<exists>s tr. calls = start_calls i tag ps s True @ tr \<and> exchange inFlight i ps (length ps) [] tr ks)"

lemma exchange_pipeline: "exchange inFlight i ps k q tr ks \<Longrightarrow> pipeline inFlight i ps k q tr"
  by (induction rule: exchange.induct) (auto intro: pipeline.intros)

lemma pipeline_exchange: "pipeline inFlight i ps k q tr \<Longrightarrow> exchange inFlight i ps k q tr [0..<k]"
proof (induction rule: pipeline.induct)
  case (pipe_send k q tr s)
  have "exchange inFlight i ps (Suc k) (q @ [s]) (tr @ chunk_calls i ps k s True) ([0..<k] @ [k])"
    using pipe_send by (intro ex_handle ex_send) auto
  then show ?case
    by simp
next
  case (pipe_collect k s q tr)
  then show ?case
    using pipeline_bounds [OF pipe_collect.hyps] by (intro ex_collect) auto
qed (simp add: ex_start)

text \<open>A call of \<open>Send\<close> succeeded exactly when the guest handled every chunk in some order.\<close>

lemma success_answered: "stream_calls inFlight i tag ps (Ret Success) calls \<longleftrightarrow> (\<exists>ks. answered inFlight i tag ps calls ks)"
  using exchange_pipeline pipeline_exchange by (fastforce simp: stream_calls_def answered_def)

section \<open>How far a chunk runs ahead\<close>

lemma parked_bound:
  assumes "{..<m} \<subseteq> set ks" and "set ks \<subseteq> {..<k}"
  shows "parked ks \<le> k - m - 1"
proof -
  define f where "f = (LEAST f. f \<notin> set ks)"
  have "k \<notin> set ks"
    using assms(2) by auto
  then have f: "f \<notin> set ks" "{..<f} \<subseteq> set ks"
    using LeastI [of "\<lambda>f. f \<notin> set ks" k] unfolding f_def by (auto dest: not_less_Least)
  have "m \<le> f"
    using assms(1) f(1) by (meson lessThan_iff not_less subsetD)
  moreover have "card (set ks) \<le> card ({..<k} - {f})"
    using assms(2) f(1) by (intro card_mono) auto
  ultimately show ?thesis
    using first_missing_eq [OF f(2,1)] by (cases "f < k") (simp_all add: parked_def length_remdups_card_conv)
qed

lemma within_window_snoc: "within_window limit (ks @ [x]) \<longleftrightarrow> within_window limit ks \<and> parked (ks @ [x]) \<le> limit"
proof -
  have "parked (take j (ks @ [x])) = parked (take j ks)" if "j < Suc (length ks)" for j
    using that by simp
  then have "within_window limit ks \<longleftrightarrow> list_all (\<lambda>j. parked (take j (ks @ [x])) \<le> limit) [0..<Suc (length ks)]"
    unfolding within_window_def list_all_iff by auto
  then show ?thesis
    unfolding within_window_def [of limit "ks @ [x]"] by auto
qed

lemma within_window_mono: "within_window m ks \<Longrightarrow> m \<le> n \<Longrightarrow> within_window n ks"
  unfolding within_window_def list_all_iff by (blast intro: order_trans)

lemma exchange_order:
  "exchange inFlight i ps k q tr ks \<Longrightarrow>
    distinct ks \<and> set ks \<subseteq> {..<k} \<and> {..<k - length q} \<subseteq> set ks \<and> within_window (nat (inFlight - 1)) ks"
proof (induction rule: exchange.induct)
  case ex_start
  show ?case
    by (simp add: within_window_def parked_def)
next
  case (ex_send k q tr ks s)
  then show ?case
    by auto
next
  case (ex_handle k q tr ks j)
  have q: "q \<noteq> []" "int (length q) \<le> inFlight" "length q \<le> k"
    using ex_handle pipeline_bounds [OF exchange_pipeline [OF ex_handle.hyps(1)]] by auto
  have "parked (ks @ [j]) \<le> k - (k - length q) - 1"
    using ex_handle by (intro parked_bound) auto
  then have "parked (ks @ [j]) \<le> nat (inFlight - 1)"
    using q by linarith
  then show ?case
    using ex_handle by (auto simp: within_window_snoc)
next
  case (ex_collect k s q tr ks)
  have "Suc (length q) \<le> k"
    using pipeline_bounds [OF exchange_pipeline [OF ex_collect.hyps(1)]] by simp
  then have "{..<k - length q} = insert (k - Suc (length q)) {..<k - length (s # q)}"
    by (auto simp: Suc_diff_Suc)
  then show ?case
    using ex_collect by auto
qed

section \<open>Delivery\<close>

text \<open>
  C3. A buffer sent as a stream arrives. \<open>Send\<close> cut the buffer into parts of \<open>n\<close> bytes, sent
  them with at most \<open>inFlight\<close> slots in flight and succeeded; the guest handled the chunks in
  flight in any order, between messages of other streams and prunes. If the receiver may park
  \<open>inFlight - 1\<close> chunks, admits the stream and has memory for it, every message is acknowledged
  and the receiver's callback gets the buffer, once and byte for byte.
\<close>

theorem streamed_buffer_delivered:
  fixes m :: message
  assumes "run_events pre (StreamReassembler cfg) = Some (replies0, r)"
    and "answered inFlight i tag (split_parts n d) calls ks"
    and "0 < n" and "inFlight \<le> int (unat (maxParkedChunks cfg)) + 1"
    and "admissible (r_config r) (split_parts n d)"
    and "m_type m = STREAM_START" and "m_req m = StreamHeader_bytes (start_header i tag (split_parts n d))"
    and "length (r_streams (Prune (nowPrune (m_call m)) r)) < unat (maxStreams cfg)"
    and "allocates (m_call m) (length d)"
    and "own_messages i es = map (\<lambda>k. (STREAM_CHUNK, chunk_bytes i (split_parts n d) k)) ks"
    and "list_all (timely cfg (nowStart (m_call m))) es" and "memory_available es"
  shows "\<exists>replies r'. run_events (pre @ Arrives m # es) (StreamReassembler cfg) = Some (replies0 @ reply_ok # replies, r') \<and>
    own_replies i es replies = replicate (length ks) reply_ok \<and>
    deliveries_of i r' = deliveries_of i r @ [(i, tag, d)] \<and> map_of (r_streams r') i = None"
proof -
  let ?ps = "split_parts n d" and ?limit = "unat (maxParkedChunks cfg)"
  obtain tr where ex: "exchange inFlight i ?ps (length ?ps) [] tr ks"
    using assms(2) unfolding answered_def by blast
  have ks: "set ks = {..<length ?ps}" "distinct ks" "within_window (nat (inFlight - 1)) ks"
    using exchange_order [OF ex] by (simp_all add: set_eq_subset)
  have "?ps \<noteq> []"
    by (rule admissible_nonempty [OF assms(5)])
  then have "ks \<noteq> []"
    using ks(1) by (metis length_greater_0_conv lessThan_iff list.set(1) empty_iff)
  then obtain js j where snoc: "ks = js @ [j]"
    by (cases ks rule: rev_cases) auto
  have d: "concat ?ps = d"
    using assms(3) by (rule concat_split_parts)
  have w: "within_window ?limit (js @ [j])"
    using within_window_mono [OF ks(3)] assms(4) by (simp add: snoc nat_le_iff)
  have j: "j \<notin> set js" "set (js @ [j]) = {..<length ?ps}"
    using ks(1,2) by (simp_all add: snoc)
  have al: "allocates (m_call m) (length (concat ?ps))"
    using assms(9) by (simp only: d)
  show ?thesis
    using stream_delivery [OF assms(1,5-8) al assms(10) [unfolded snoc] j(2,1) w assms(11,12)]
    by (simp only: d snoc length_append list.size add_Suc_right add_0_right)
qed

text \<open>Two chunks in flight at once, the second one handled first.\<close>

definition demo_stream_calls :: "api_call list" where
  "demo_stream_calls = start_calls 9 77 demo_parts 0 True @
     chunk_calls 9 demo_parts 0 3 True @ chunk_calls 9 demo_parts 1 4 True @
     [Collected 3 USE_DEFAULT_TIMEOUT True, Collected 4 USE_DEFAULT_TIMEOUT True]"

lemma demo_split: "split_parts 2 [1, 2, 3] = demo_parts"
  by (simp add: split_parts.simps demo_parts_def)

lemma demo_answered: "answered 2 9 77 demo_parts demo_stream_calls [1, 0]"
proof -
  have n: "length demo_parts = 2"
    by (simp add: demo_parts_def)
  have "exchange 2 9 demo_parts 2 [3, 4] ((([] @ chunk_calls 9 demo_parts 0 3 True)) @ chunk_calls 9 demo_parts 1 4 True) []"
    using ex_send [OF ex_send [OF ex_start [of 2 9 demo_parts], of 3], of 4] by (simp add: n numeral_2_eq_2)
  then have "exchange 2 9 demo_parts 2 [3, 4] ((([] @ chunk_calls 9 demo_parts 0 3 True)) @ chunk_calls 9 demo_parts 1 4 True) [1, 0]"
    using ex_handle [of 2 9 demo_parts 2 "[3, 4]" _ "[1]" 0] ex_handle [of 2 9 demo_parts 2 "[3, 4]" _ "[]" 1] by simp
  from ex_collect [OF ex_collect [OF this]] have "exchange 2 9 demo_parts 2 [] (((([] @ chunk_calls 9 demo_parts 0 3 True)) @ chunk_calls 9 demo_parts 1 4 True) @
      [Collected 3 USE_DEFAULT_TIMEOUT True] @ [Collected 4 USE_DEFAULT_TIMEOUT True]) [1, 0]"
    by simp
  then show ?thesis
    unfolding answered_def demo_stream_calls_def n by (intro exI [of _ 0] exI conjI) (rule refl, simp)
qed

theorem streamed_buffer_delivered_witness:
  "\<exists>replies r'. run_events ([] @ Arrives demo_start # demo_events) (StreamReassembler default_config) =
      Some ([] @ reply_ok # replies, r') \<and>
    own_replies 9 demo_events replies = replicate (length [1 :: nat, 0]) reply_ok \<and>
    deliveries_of 9 r' = deliveries_of 9 (StreamReassembler default_config) @ [(9, 77, [1, 2, 3])] \<and>
    map_of (r_streams r') 9 = None"
proof (rule streamed_buffer_delivered [where m = demo_start and n = 2 and d = "[1, 2, 3]" and inFlight = 2 and calls = demo_stream_calls, unfolded demo_split])
  show "own_messages 9 demo_events = map (\<lambda>k. (STREAM_CHUNK, chunk_bytes 9 demo_parts k)) [1, 0]"
    using demo_own by simp
  show "memory_available demo_events"
    by (simp add: memory_available_def demo_events_def demo_chunk_def demo_call_def layout_defs)
  show "list_all (timely default_config (nowStart (m_call demo_start))) demo_events"
    by (simp add: demo_events_def demo_chunk_def demo_start_def demo_call_def elapsed_ms_def shm_consts)
  show "admissible (r_config (StreamReassembler default_config)) demo_parts"
    by (simp add: admissible_def StreamReassembler_def IsValid_def default_config_def demo_parts_def kMaxStreamSize_def)
  show "answered 2 9 77 demo_parts demo_stream_calls [1, 0]"
    by (rule demo_answered)
qed (simp_all add: demo_start_def demo_call_def StreamReassembler_def Prune_def PruneInternal_def default_config_def)

end
