(* ===== verification/Shm_Claim_Race.thy ===== *)
theory Shm_Claim_Race
  imports Shm_Steps Shm_Slot_Claim
begin

text \<open>
  Several threads and the guest on one slot, access by access: \<open>tryClaimSlot\<close>, \<open>WaitResponse\<close>,
  \<open>FinishWait\<close> and \<open>TryReclaimAbandonedSlot\<close> of \<open>src/include/shm/SlotAllocator.h\<close> and the worker
  of \<open>src/go/direct.go\<close>. Every access of the source to the state, the generation, the lease and
  \<open>activeWait\<close> is one step, the steps of different threads interleave in any order, and every
  look at a clock may give any value. An access takes effect at once and for everybody; weaker
  orders of the memory model are not covered.
\<close>

section \<open>The system\<close>

text \<open>
  Where a thread is: in \<open>tryClaimSlot\<close> with what it has read, in possession of the slot (at first
  without a stamped lease), in a transaction on it, or in \<open>TryReclaimAbandonedSlot\<close>.
\<close>

datatype thread_at =
  Outside
| Entered
| Snapped u64
| SawFree
| Bumped
| SawStale u64 u32
| Unwatched u64 u32
| GenWon u32
| Claimed
| Owner
| Armed
| Waiting
| SawReady
| Parked_busy
| Expired
| Sweeping
| R_snapped u64
| R_state u64 u32
| R_lease u64 u32 u64
| R_stale u64 u32 u64
| R_same u64 u32
| R_won u32

text \<open>Where the worker of the guest is.\<close>

datatype guest_at = Polling | SawRequest | GenBumped | Unstamped | Serving | Locked

text \<open>
  The fields of the slot, where everybody is, and three flags that only record what happened:
  a zombie steal that won the state exchange while \<open>activeWait\<close> was set, a timeout, and a
  reclaim that won it at \<open>SLOT_BUSY\<close> or while \<open>activeWait\<close> was set.
\<close>

record race =
  r_state :: u32
  r_gen :: u64
  r_lease :: u64
  r_active :: bool
  r_at :: "nat \<Rightarrow> thread_at"
  r_guest :: guest_at
  r_stolen :: bool
  r_expired :: bool
  r_reclaimed :: bool

text \<open>The next access of a thread in \<open>tryClaimSlot\<close>, up to the stamp of the lease.\<close>

fun claim_access :: "thread_at \<Rightarrow> race \<Rightarrow> thread_at \<times> race" where
  "claim_access Entered s = (Snapped (r_gen s), s)"
| "claim_access (Snapped g) s =
     (if r_state s = SLOT_FREE then (SawFree, s)
      else if stealable (r_state s) then (SawStale g (r_state s), s) else (Outside, s))"
| "claim_access SawFree s = (Bumped, s\<lparr>r_gen := r_gen s + 1\<rparr>)"
| "claim_access Bumped s = (if r_state s = SLOT_FREE then (Claimed, s\<lparr>r_state := SLOT_BUSY\<rparr>) else (Outside, s))"
| "claim_access (SawStale g c) s = (if r_active s then (Outside, s) else (Unwatched g c, s))"
| "claim_access (Unwatched g c) s = (if r_gen s = g then (GenWon c, s\<lparr>r_gen := g + 1\<rparr>) else (Outside, s))"
| "claim_access (GenWon c) s =
     (if r_state s = c then (Claimed, s\<lparr>r_state := SLOT_BUSY, r_stolen := r_stolen s \<or> r_active s\<rparr>) else (Outside, s))"
| "claim_access p s = (p, s)"

text \<open>
  The next access of a thread in \<open>TryReclaimAbandonedSlot\<close>; the look at the clock is a move of
  its own.
\<close>

fun reclaim_access :: "thread_at \<Rightarrow> race \<Rightarrow> thread_at \<times> race" where
  "reclaim_access Sweeping s = (R_snapped (r_gen s), s)"
| "reclaim_access (R_snapped g) s = (if r_state s = SLOT_FREE then (Outside, s) else (R_state g (r_state s), s))"
| "reclaim_access (R_state g c) s = (if r_lease s = 0 then (Outside, s) else (R_lease g c (r_lease s), s))"
| "reclaim_access (R_stale g c l) s = (if r_lease s \<noteq> l then (Outside, s) else (R_same g c, s))"
| "reclaim_access (R_same g c) s = (if r_gen s = g then (R_won c, s\<lparr>r_gen := g + 1\<rparr>) else (Outside, s))"
| "reclaim_access (R_won c) s =
     (Outside, if r_state s = c
        then s\<lparr>r_state := SLOT_FREE, r_reclaimed := r_reclaimed s \<or> c = SLOT_BUSY \<or> r_active s\<rparr> else s)"
| "reclaim_access p s = (p, s)"

fun look_at_clock :: "u64 \<Rightarrow> u64 \<Rightarrow> thread_at \<Rightarrow> thread_at" where
  "look_at_clock now maxAge (R_lease g c l) = (if lease_stale now l maxAge then R_stale g c l else Outside)"
| "look_at_clock now maxAge p = p"

text \<open>The next access of a thread in \<open>WaitResponse\<close> and \<open>FinishWait\<close>.\<close>

fun transact_access :: "thread_at \<Rightarrow> race \<Rightarrow> thread_at \<times> race" where
  "transact_access Armed s = (Waiting, s\<lparr>r_state := SLOT_REQ_READY\<rparr>)"
| "transact_access Waiting s = (if r_state s = SLOT_RESP_READY then (SawReady, s) else (Waiting, s))"
| "transact_access SawReady s = (Parked_busy, s\<lparr>r_state := SLOT_BUSY\<rparr>)"
| "transact_access Parked_busy s = (Owner, s\<lparr>r_active := False\<rparr>)"
| "transact_access Expired s = (Outside, s\<lparr>r_active := False\<rparr>)"
| "transact_access p s = (p, s)"

fun in_transaction :: "thread_at \<Rightarrow> bool" where
  "in_transaction p = (p = Armed \<or> p = Waiting \<or> p = SawReady \<or> p = Parked_busy \<or> p = Expired)"

text \<open>
  The next access of the worker of the guest: it sees a request, claims the slot, stamps the
  lease (a move of its own), locks the slot for the response and publishes it. The generation
  is bumped before the claiming exchange, also when that exchange then fails; with \<open>fastPath\<close>
  the worker claims without a new generation and without a lease.
\<close>

definition guest_claim :: "guest_at \<Rightarrow> race \<Rightarrow> race" where
  "guest_claim won s =
     (if r_state s = SLOT_REQ_READY then s\<lparr>r_state := SLOT_GUEST_BUSY, r_guest := won\<rparr> else s\<lparr>r_guest := Polling\<rparr>)"

definition lockForPublish :: "race \<Rightarrow> race" where
  "lockForPublish s =
     (if r_state s = SLOT_GUEST_BUSY then s\<lparr>r_state := SLOT_DONE, r_guest := Locked\<rparr> else s\<lparr>r_guest := Polling\<rparr>)"

definition publishResponse :: "race \<Rightarrow> race" where
  "publishResponse s =
     (if r_state s = SLOT_DONE then s\<lparr>r_state := SLOT_RESP_READY, r_guest := Polling\<rparr> else s\<lparr>r_guest := Polling\<rparr>)"

definition guest_access :: "bool \<Rightarrow> race \<Rightarrow> race" where
  "guest_access fastPath s = (case r_guest s of
     Polling \<Rightarrow> if r_state s = SLOT_REQ_READY then s\<lparr>r_guest := SawRequest\<rparr> else s
   | SawRequest \<Rightarrow> if fastPath then guest_claim Serving s else s\<lparr>r_gen := r_gen s + 1, r_guest := GenBumped\<rparr>
   | GenBumped \<Rightarrow> guest_claim Unstamped s
   | Unstamped \<Rightarrow> s
   | Serving \<Rightarrow> lockForPublish s
   | Locked \<Rightarrow> publishResponse s)"

text \<open>
  The moves: a thread enters \<open>tryClaimSlot\<close> or \<open>TryReclaimAbandonedSlot\<close>, makes its next access,
  looks at the clock, stamps the lease of the slot it owns, arms it, frees it, or gives up
  waiting; the worker of the guest makes its next access or stamps the lease.
\<close>

datatype race_event =
  Enter nat | Sweep nat | Access nat | Clock nat u64 u64 | Stamp nat u64 | Arm nat | Free nat | Expire nat
| Guest | GuestStamp u64

definition moved :: "nat \<Rightarrow> thread_at \<times> race \<Rightarrow> race" where
  "moved t ps = (snd ps)\<lparr>r_at := (r_at (snd ps))(t := fst ps)\<rparr>"

fun reclaiming :: "thread_at \<Rightarrow> bool" where
  "reclaiming Sweeping = True"
| "reclaiming (R_snapped g) = True"
| "reclaiming (R_state g c) = True"
| "reclaiming (R_lease g c l) = True"
| "reclaiming (R_stale g c l) = True"
| "reclaiming (R_same g c) = True"
| "reclaiming (R_won c) = True"
| "reclaiming p = False"

definition owns :: "thread_at \<Rightarrow> bool" where
  "owns p = (p = Claimed \<or> p = Owner \<or> in_transaction p)"

fun race_move :: "bool \<Rightarrow> race_event \<Rightarrow> race \<Rightarrow> race option" where
  "race_move fastPath (Enter t) s = (if r_at s t = Outside then Some (moved t (Entered, s)) else None)"
| "race_move fastPath (Sweep t) s = (if r_at s t = Outside then Some (moved t (Sweeping, s)) else None)"
| "race_move fastPath (Access t) s = Some (moved t
     (if in_transaction (r_at s t) then transact_access (r_at s t) s
      else if reclaiming (r_at s t) then reclaim_access (r_at s t) s else claim_access (r_at s t) s))"
| "race_move fastPath (Clock t now age) s = Some (moved t (look_at_clock now age (r_at s t), s))"
| "race_move fastPath (Stamp t now) s = (if owns (r_at s t)
     then Some (moved t (if r_at s t = Claimed then Owner else r_at s t, s\<lparr>r_lease := now\<rparr>)) else None)"
| "race_move fastPath (Arm t) s = (if r_at s t = Owner then Some (moved t (Armed, s\<lparr>r_active := True\<rparr>)) else None)"
| "race_move fastPath (Free t) s = (if r_at s t = Owner then Some (moved t (Outside, s\<lparr>r_state := SLOT_FREE\<rparr>)) else None)"
| "race_move fastPath (Expire t) s = (if r_at s t = Waiting then Some (moved t (Expired, s\<lparr>r_expired := True\<rparr>)) else None)"
| "race_move fastPath Guest s = Some (guest_access fastPath s)"
| "race_move fastPath (GuestStamp now) s =
     (if r_guest s = Unstamped then Some (s\<lparr>r_lease := now, r_guest := Serving\<rparr>) else None)"

definition race_init :: "race \<Rightarrow> bool" where
  "race_init s = (r_state s = SLOT_FREE \<and> \<not> r_active s \<and> (\<forall>t. r_at s t = Outside) \<and> r_guest s = Polling \<and>
     \<not> r_stolen s \<and> \<not> r_expired s \<and> \<not> r_reclaimed s)"

definition race_step :: "bool \<Rightarrow> race \<Rightarrow> race \<Rightarrow> bool" where
  "race_step fastPath s s' = (\<exists>m. race_move fastPath m s = Some s')"

section \<open>Exclusive ownership\<close>

text \<open>What an owner knows of the slot at each place.\<close>

fun phase_ok :: "race \<Rightarrow> thread_at \<Rightarrow> bool" where
  "phase_ok s Claimed = (r_state s = SLOT_BUSY)"
| "phase_ok s Owner = (r_state s = SLOT_BUSY)"
| "phase_ok s Armed = (r_state s = SLOT_BUSY \<and> r_active s)"
| "phase_ok s Waiting = (r_state s \<in> {SLOT_REQ_READY, SLOT_GUEST_BUSY, SLOT_DONE, SLOT_RESP_READY} \<and> r_active s)"
| "phase_ok s SawReady = (r_state s = SLOT_RESP_READY \<and> r_active s)"
| "phase_ok s Parked_busy = (r_state s = SLOT_BUSY \<and> r_active s)"
| "phase_ok s Expired = (r_state s \<in> {SLOT_REQ_READY, SLOT_GUEST_BUSY, SLOT_DONE, SLOT_RESP_READY} \<and> r_active s)"
| "phase_ok s p = True"

definition exclusive :: "race \<Rightarrow> bool" where
  "exclusive s = (\<forall>t. owns (r_at s t) \<longrightarrow> phase_ok s (r_at s t) \<and> (\<forall>u. owns (r_at s u) \<longrightarrow> u = t))"

definition race_inv :: "race \<Rightarrow> bool" where
  "race_inv s = (\<not> r_stolen s \<longrightarrow> \<not> r_reclaimed s \<longrightarrow> exclusive s)"

lemma phase_ok_moved [simp]: "phase_ok (s\<lparr>r_at := f\<rparr>) p = phase_ok s p"
  by (cases p) simp_all

lemma phase_ok_frame:
  "r_state s1 = r_state s \<Longrightarrow> r_active s1 = r_active s \<Longrightarrow> phase_ok s1 p = phase_ok s p"
  by (cases p) simp_all

text \<open>A thread that ends outside of the slot, and one that ends in possession of it.\<close>

lemma exclusive_leave:
  assumes "exclusive s" and "\<not> owns p" and "r_at s1 = r_at s"
    and "\<And>u. u \<noteq> t \<Longrightarrow> owns (r_at s u) \<Longrightarrow> phase_ok s1 (r_at s u)"
  shows "exclusive (moved t (p, s1))"
  using assms by (auto simp: exclusive_def moved_def)

lemma exclusive_own:
  assumes "r_at s1 = r_at s" and "phase_ok s1 p" and "\<And>u. owns (r_at s u) \<Longrightarrow> u = t"
  shows "exclusive (moved t (p, s1))"
  using assms by (auto simp: exclusive_def moved_def)

lemma exclusive_sole: "exclusive s \<Longrightarrow> owns (r_at s t) \<Longrightarrow> owns (r_at s u) \<Longrightarrow> u = t"
  by (auto simp: exclusive_def)

lemma exclusive_phase: "exclusive s \<Longrightarrow> owns (r_at s t) \<Longrightarrow> phase_ok s (r_at s t)"
  by (auto simp: exclusive_def)

lemma exclusive_free: "exclusive s \<Longrightarrow> r_state s = SLOT_FREE \<Longrightarrow> \<not> owns (r_at s t)"
  using exclusive_phase [of s t] by (cases "r_at s t") (auto simp: owns_def shm_consts)

text \<open>Without an active waiter nobody owns a slot that is not at \<open>SLOT_BUSY\<close>.\<close>

lemma exclusive_idle:
  "exclusive s \<Longrightarrow> \<not> r_active s \<Longrightarrow> r_state s \<noteq> SLOT_BUSY \<Longrightarrow> \<not> owns (r_at s t)"
  using exclusive_phase [of s t] by (cases "r_at s t") (auto simp: owns_def)

text \<open>What a thread that wants to steal has observed is not \<open>SLOT_BUSY\<close>.\<close>

fun steal_ok :: "thread_at \<Rightarrow> bool" where
  "steal_ok (SawStale g c) = (c \<noteq> SLOT_BUSY)"
| "steal_ok (Unwatched g c) = (c \<noteq> SLOT_BUSY)"
| "steal_ok (GenWon c) = (c \<noteq> SLOT_BUSY)"
| "steal_ok p = True"

lemma claim_exclusive:
  assumes "exclusive s" and "\<not> owns (r_at s t)" and "steal_ok (r_at s t)" and "claim_access (r_at s t) s = (p, s1)"
    and "\<not> r_stolen s1"
  shows "exclusive (moved t (p, s1))"
proof (cases "owns p")
  case True
  then have "p = Claimed \<and> r_state s1 = SLOT_BUSY \<and> r_at s1 = r_at s \<and>
      (r_state s = SLOT_FREE \<or> r_state s \<noteq> SLOT_BUSY \<and> \<not> r_active s)"
    using assms(2-) by (cases "r_at s t") (auto simp: owns_def split: if_splits)
  then show ?thesis
    using exclusive_free [OF assms(1)] exclusive_idle [OF assms(1)] by (intro exclusive_own) auto
next
  case False
  have "r_at s1 = r_at s \<and> r_state s1 = r_state s \<and> r_active s1 = r_active s"
    using assms(4) False by (cases "r_at s t") (auto simp: owns_def split: if_splits)
  then show ?thesis
    using exclusive_phase [OF assms(1)] phase_ok_frame [of s1 s] False assms(1)
    by (intro exclusive_leave) auto
qed

lemma reclaim_exclusive:
  assumes "exclusive s" and "reclaiming (r_at s t)" and "reclaim_access (r_at s t) s = (p, s1)" and "\<not> r_reclaimed s1"
  shows "exclusive (moved t (p, s1))"
proof -
  have p: "\<not> owns p" "r_at s1 = r_at s"
    using assms(2,3) by (cases "r_at s t"; auto simp: owns_def split: if_splits)+
  have "r_state s1 = r_state s \<and> r_active s1 = r_active s \<or> \<not> r_active s \<and> r_state s \<noteq> SLOT_BUSY"
    using assms(2-) by (cases "r_at s t") (auto split: if_splits)
  then show ?thesis
    using exclusive_phase [OF assms(1)] exclusive_idle [OF assms(1)] phase_ok_frame [of s1 s] p
    by (intro exclusive_leave [OF assms(1)]) auto
qed

lemma transact_exclusive:
  assumes "exclusive s" and "in_transaction (r_at s t)" and "transact_access (r_at s t) s = (p, s1)"
  shows "exclusive (moved t (p, s1))"
proof -
  have own: "owns (r_at s t)"
    using assms(2) by (simp add: owns_def)
  have sole: "owns (r_at s u) \<Longrightarrow> u = t" for u
    by (rule exclusive_sole [OF assms(1) own])
  have "r_at s1 = r_at s" "owns p \<longrightarrow> phase_ok s1 p"
    using exclusive_phase [OF assms(1) own] assms(2,3)
    by (cases "r_at s t"; auto simp: owns_def split: if_splits)+
  then show ?thesis
    using sole assms(1) exclusive_own [of s1 s p t] exclusive_leave [of s p s1 t] by (cases "owns p") auto
qed

lemma exclusive_frame:
  assumes "exclusive s" and "r_at s' = r_at s" and "r_active s' = r_active s"
    and "r_state s' = r_state s \<or> r_state s \<in> {SLOT_REQ_READY, SLOT_GUEST_BUSY, SLOT_DONE} \<and>
      r_state s' \<in> {SLOT_GUEST_BUSY, SLOT_DONE, SLOT_RESP_READY}"
  shows "exclusive s'"
proof -
  have "phase_ok s' (r_at s t)" if "owns (r_at s t)" for t
    using exclusive_phase [OF assms(1) that] assms(2-) that
    by (cases "r_at s t") (auto simp: owns_def shm_consts)
  then show ?thesis
    using assms(1,2) by (auto simp: exclusive_def)
qed

lemma guest_exclusive: "exclusive s \<Longrightarrow> exclusive (guest_access fastPath s)"
  by (erule exclusive_frame)
    (simp_all add: guest_access_def guest_claim_def lockForPublish_def publishResponse_def split: guest_at.splits)

text \<open>The flags are never reset, and an observation to steal stays one.\<close>

lemma flags_stay:
  "race_move fastPath m s = Some s' \<Longrightarrow> (r_stolen s \<longrightarrow> r_stolen s') \<and> (r_reclaimed s \<longrightarrow> r_reclaimed s')"
proof -
  have "(r_stolen s \<longrightarrow> r_stolen (snd (claim_access p s))) \<and> (r_reclaimed s \<longrightarrow> r_reclaimed (snd (claim_access p s)))"
    "(r_stolen s \<longrightarrow> r_stolen (snd (reclaim_access p s))) \<and> (r_reclaimed s \<longrightarrow> r_reclaimed (snd (reclaim_access p s)))"
    "(r_stolen s \<longrightarrow> r_stolen (snd (transact_access p s))) \<and> (r_reclaimed s \<longrightarrow> r_reclaimed (snd (transact_access p s)))" for p
    by (cases p; simp)+
  moreover have "r_stolen (guest_access fastPath s) = r_stolen s" "r_reclaimed (guest_access fastPath s) = r_reclaimed s"
    by (simp_all add: guest_access_def guest_claim_def lockForPublish_def publishResponse_def split: guest_at.splits)
  ultimately show "race_move fastPath m s = Some s' \<Longrightarrow> (r_stolen s \<longrightarrow> r_stolen s') \<and> (r_reclaimed s \<longrightarrow> r_reclaimed s')"
    by (cases m) (auto simp: moved_def split: if_splits thread_at.splits)
qed

lemma guest_access_at [simp]: "r_at (guest_access fastPath s) = r_at s"
  by (simp add: guest_access_def guest_claim_def lockForPublish_def publishResponse_def split: guest_at.splits)

lemma steal_ok_moves:
  assumes "\<forall>t. steal_ok (r_at s t)" and "race_move fastPath m s = Some s'"
  shows "\<forall>t. steal_ok (r_at s' t)"
proof -
  have claim: "steal_ok p \<Longrightarrow> steal_ok (fst (claim_access p s)) \<and> r_at (snd (claim_access p s)) = r_at s" for p
    by (cases p) (auto simp: stealable_def shm_consts)
  have other: "steal_ok p \<Longrightarrow> steal_ok (fst (reclaim_access p s)) \<and> r_at (snd (reclaim_access p s)) = r_at s"
    "steal_ok p \<Longrightarrow> steal_ok (fst (transact_access p s)) \<and> r_at (snd (transact_access p s)) = r_at s" for p
    by (cases p; simp)+
  have clock: "steal_ok p \<Longrightarrow> steal_ok (look_at_clock now age p)" for now age p
    by (cases p) simp_all
  show ?thesis
  proof (cases m)
    case (Clock t now age)
    then show ?thesis
      using assms clock by (auto simp: moved_def)
  next
    case (Access t)
    then show ?thesis
      using assms claim other by (auto simp: moved_def split: if_splits)
  qed (use assms in \<open>auto simp: moved_def split: if_splits thread_at.splits\<close>)
qed

lemma access_exclusive:
  assumes ex: "exclusive s" and ok: "steal_ok (r_at s t)" and move: "race_move fastPath (Access t) s = Some s'"
    and flags: "\<not> r_stolen s'" "\<not> r_reclaimed s'"
  shows "exclusive s'"
proof -
  consider "in_transaction (r_at s t)" | "\<not> in_transaction (r_at s t)" "reclaiming (r_at s t)"
    | "r_at s t = Owner \<or> r_at s t = Claimed" | "\<not> owns (r_at s t)" "\<not> in_transaction (r_at s t)" "\<not> reclaiming (r_at s t)"
    by (auto simp: owns_def)
  then show ?thesis
  proof cases
    case 1
    then show ?thesis
      using move transact_exclusive [OF ex 1] by (cases "transact_access (r_at s t) s") auto
  next
    case 2
    then have s': "s' = moved t (reclaim_access (r_at s t) s)"
      using move by (simp only: race_move.simps if_False if_True option.inject)
    then have "\<not> r_reclaimed (snd (reclaim_access (r_at s t) s))"
      using flags(2) by (simp add: moved_def)
    then show ?thesis
      unfolding s' using reclaim_exclusive [OF ex 2(2)] by (cases "reclaim_access (r_at s t) s") auto
  next
    case 3
    then have "s' = s"
      using move by (auto simp: moved_def fun_upd_idem)
    then show ?thesis
      using ex by simp
  next
    case 4
    then have s': "s' = moved t (claim_access (r_at s t) s)"
      using move by (simp only: race_move.simps if_False option.inject)
    then have "\<not> r_stolen (snd (claim_access (r_at s t) s))"
      using flags(1) by (simp add: moved_def)
    then show ?thesis
      unfolding s' using claim_exclusive [OF ex 4(1) ok] by (cases "claim_access (r_at s t) s") auto
  qed
qed

lemma move_exclusive:
  assumes ex: "exclusive s" and ok: "\<forall>t. steal_ok (r_at s t)" and move: "race_move fastPath m s = Some s'"
    and flags: "\<not> r_stolen s'" "\<not> r_reclaimed s'"
  shows "exclusive s'"
proof (cases m)
  case (Access t)
  then show ?thesis
    using access_exclusive [OF ex _ _ flags] ok move by blast
next
  case (Clock t now age)
  then have s': "s' = moved t (look_at_clock now age (r_at s t), s)"
    using move by simp
  show ?thesis
  proof (cases "owns (r_at s t)")
    case True
    then have "look_at_clock now age (r_at s t) = r_at s t"
      by (cases "r_at s t") (simp_all add: owns_def)
    then show ?thesis
      using ex by (simp add: s' moved_def fun_upd_idem)
  next
    case False
    then have "\<not> owns (look_at_clock now age (r_at s t))"
      by (cases "r_at s t") (simp_all add: owns_def)
    then show ?thesis
      unfolding s' using exclusive_leave [OF ex] exclusive_phase [OF ex] by simp
  qed
next
  case (Stamp t now)
  then have s': "s' = moved t (if r_at s t = Claimed then Owner else r_at s t, s\<lparr>r_lease := now\<rparr>)" and t: "owns (r_at s t)"
    using move by (auto split: if_splits)
  have "phase_ok (s\<lparr>r_lease := now\<rparr>) (if r_at s t = Claimed then Owner else r_at s t)"
    using exclusive_phase [OF ex t] phase_ok_frame [of "s\<lparr>r_lease := now\<rparr>" s] by auto
  then show ?thesis
    unfolding s' using exclusive_sole [OF ex t] by (intro exclusive_own) auto
next
  case Guest
  then show ?thesis
    using move guest_exclusive [OF ex] by auto
next
  case (GuestStamp now)
  then show ?thesis
    using move exclusive_frame [OF ex] by (auto split: if_splits)
next
  case (Enter t)
  then show ?thesis
    using move exclusive_leave [OF ex, of Entered s t] exclusive_phase [OF ex] by (auto simp: owns_def split: if_splits)
next
  case (Sweep t)
  then show ?thesis
    using move exclusive_leave [OF ex, of Sweeping s t] exclusive_phase [OF ex] by (auto simp: owns_def split: if_splits)
next
  case (Arm t)
  then show ?thesis
    using move exclusive_sole [OF ex, of t] exclusive_phase [OF ex, of t]
    by (auto simp: owns_def split: if_splits intro!: exclusive_own)
next
  case (Free t)
  then show ?thesis
    using move ex exclusive_sole [OF ex, of t] by (auto simp: owns_def split: if_splits intro!: exclusive_leave)
next
  case (Expire t)
  then show ?thesis
    using move exclusive_sole [OF ex, of t] exclusive_phase [OF ex, of t]
    by (auto simp: owns_def split: if_splits intro!: exclusive_own)
qed

definition race_wf :: "race \<Rightarrow> bool" where
  "race_wf s = (race_inv s \<and> (\<forall>t. steal_ok (r_at s t)))"

lemma race_move_wf:
  assumes "race_wf s" and "race_move fastPath m s = Some s'"
  shows "race_wf s'"
  using assms flags_stay [OF assms(2)] steal_ok_moves [OF _ assms(2)] move_exclusive [OF _ _ assms(2)]
  by (auto simp: race_wf_def race_inv_def)

interpretation race: invariant race_init "race_step fastPath" race_wf
proof
  show "race_init s \<Longrightarrow> race_wf s" for s
    by (auto simp: race_init_def race_wf_def race_inv_def exclusive_def owns_def)
  show "race_wf s \<Longrightarrow> race_step fastPath s s' \<Longrightarrow> race_wf s'" for s s'
    by (auto simp: race_step_def intro: race_move_wf)
qed

section \<open>One thread alone\<close>

text \<open>
  The accesses of one undisturbed thread are those of \<open>tryClaimSlot\<close>, up to the stamp of the
  lease, and of \<open>TryReclaimAbandonedSlot\<close>.
\<close>

definition slot_race :: "slot \<Rightarrow> race" where
  "slot_race c = \<lparr>r_state = state_of c, r_gen = h_gen (header c), r_lease = h_lease (header c), r_active = activeWait c,
     r_at = (\<lambda>_. Outside), r_guest = Polling, r_stolen = False, r_expired = False, r_reclaimed = False\<rparr>"

definition claim_alone :: "slot \<Rightarrow> thread_at \<times> race" where
  "claim_alone c = ((\<lambda>(p, s). claim_access p s) ^^ 5) (Entered, slot_race c)"

definition reclaim_alone :: "u64 \<Rightarrow> u64 \<Rightarrow> slot \<Rightarrow> thread_at \<times> race" where
  "reclaim_alone now age c = ((\<lambda>(p, s). reclaim_access p s) ^^ 3)
     (apfst (look_at_clock now age) (((\<lambda>(p, s). reclaim_access p s) ^^ 3) (Sweeping, slot_race c)))"

lemma claim_alone_eq:
  "claim_alone c = (if claimable c
     then (Claimed, (slot_race c)\<lparr>r_gen := h_gen (header c) + 1, r_state := SLOT_BUSY\<rparr>)
     else (Outside, slot_race c))"
proof -
  have free: "\<not> stealable SLOT_FREE"
    by (simp add: stealable_def shm_consts)
  consider "state_of c = SLOT_FREE" | "state_of c \<noteq> SLOT_FREE" "stealable (state_of c)" "\<not> activeWait c"
    | "state_of c \<noteq> SLOT_FREE" "stealable (state_of c)" "activeWait c" | "state_of c \<noteq> SLOT_FREE" "\<not> stealable (state_of c)"
    by blast
  then show ?thesis
    by cases (simp_all add: claim_alone_def slot_race_def claimable_def free numeral_eq_Suc)
qed

lemma reclaim_alone_eq:
  "r_state (snd (reclaim_alone now age c)) = (if abandoned now age c then SLOT_FREE else state_of c)"
  "r_gen (snd (reclaim_alone now age c)) = (if abandoned now age c then h_gen (header c) + 1 else h_gen (header c))"
  "fst (reclaim_alone now age c) = Outside"
proof -
  consider "state_of c = SLOT_FREE" | "state_of c \<noteq> SLOT_FREE" "h_lease (header c) = 0"
    | "state_of c \<noteq> SLOT_FREE" "h_lease (header c) \<noteq> 0" "lease_stale now (h_lease (header c)) age"
    | "state_of c \<noteq> SLOT_FREE" "h_lease (header c) \<noteq> 0" "\<not> lease_stale now (h_lease (header c)) age"
    by blast
  then have "r_state (snd (reclaim_alone now age c)) = (if abandoned now age c then SLOT_FREE else state_of c) \<and>
    r_gen (snd (reclaim_alone now age c)) = (if abandoned now age c then h_gen (header c) + 1 else h_gen (header c)) \<and>
    fst (reclaim_alone now age c) = Outside"
    by cases (simp_all add: reclaim_alone_def slot_race_def abandoned_def numeral_3_eq_3)
  then show "r_state (snd (reclaim_alone now age c)) = (if abandoned now age c then SLOT_FREE else state_of c)"
    "r_gen (snd (reclaim_alone now age c)) = (if abandoned now age c then h_gen (header c) + 1 else h_gen (header c))"
    "fst (reclaim_alone now age c) = Outside"
    by blast+
qed

lemma claim_alone_is_tryClaimSlot:
  assumes "solo env" and "i < length (slots a)" and "run_state (tryClaimSlot env i) a = (ok, b)"
  shows "fst (claim_alone (slots a ! i)) = (if ok then Claimed else Outside)"
    "r_state (snd (claim_alone (slots a ! i))) = state_of (slots b ! i)"
    "r_gen (snd (claim_alone (slots a ! i))) = h_gen (header (slots b ! i))"
proof -
  obtain t k where "ok = claimable (slots a ! i)"
      "b = (if claimable (slots a ! i) then upd_slot i (claimed (wallNs env t)) a else a)\<lparr>tick := k\<rparr>"
    using run_tryClaimSlot [OF assms(1,2)] assms(3) by auto
  then show "fst (claim_alone (slots a ! i)) = (if ok then Claimed else Outside)"
    "r_state (snd (claim_alone (slots a ! i))) = state_of (slots b ! i)"
    "r_gen (snd (claim_alone (slots a ! i))) = h_gen (header (slots b ! i))"
    using assms(2) by (simp_all add: claim_alone_eq slot_race_def claimed_def upd_header_def)
qed

lemma reclaim_alone_is_TryReclaimAbandonedSlot:
  assumes "solo env" and "alloc_ok a" and "i < length (slots a)"
    and "run_state (TryReclaimAbandonedSlot env (int i) age) a = (ok, b)"
  shows "r_state (snd (reclaim_alone (lease_check_time env a) age (slots a ! i))) = state_of (slots b ! i)"
    "r_gen (snd (reclaim_alone (lease_check_time env a) age (slots a ! i))) = h_gen (header (slots b ! i))"
proof -
  let ?gone = "abandoned (lease_check_time env a) age (slots a ! i)"
  obtain k where "b = (if ?gone then upd_slot i reclaimed a else a)\<lparr>tick := k\<rparr>"
    using run_TryReclaimAbandonedSlot [OF assms(1-3), of age] assms(4) by auto
  then show "r_state (snd (reclaim_alone (lease_check_time env a) age (slots a ! i))) = state_of (slots b ! i)"
    "r_gen (snd (reclaim_alone (lease_check_time env a) age (slots a ! i))) = h_gen (header (slots b ! i))"
    using assms(3) by (simp_all add: reclaim_alone_eq reclaimed_def upd_header_def)
qed

text \<open>
  C11. A slot has one owner until a transaction in progress is stolen or reclaimed. Whatever any
  number of threads and the guest do on a slot, claims, steals, reclaims and transactions in any
  interleaving of their single accesses, with timeouts at any moment and clocks that show
  anything, at most one thread is in possession of the slot, from the state exchange that claims
  it to the one that frees it; the state is \<open>SLOT_BUSY\<close> while it prepares a request or reads a
  response, and \<open>activeWait\<close> is set while it waits. This holds until a zombie steal wins the
  state exchange while \<open>activeWait\<close> is set, or a reclaim wins it at \<open>SLOT_BUSY\<close> or while
  \<open>activeWait\<close> is set: steals and reclaims of slots that nobody waits on, such as those a timeout
  leaves behind, keep it.
\<close>

theorem slot_owned_by_one_thread:
  assumes "reachable race_init (race_step fastPath) s" and "\<not> r_stolen s" and "\<not> r_reclaimed s" and "owns (r_at s t)"
  shows "phase_ok s (r_at s t) \<and> (owns (r_at s u) \<longrightarrow> u = t)"
  using race.always [OF assms(1)] assms(2-) by (auto simp: race_wf_def race_inv_def exclusive_def)

section \<open>Concrete runs\<close>

fun run_moves :: "bool \<Rightarrow> race_event list \<Rightarrow> race \<Rightarrow> race option" where
  "run_moves fastPath [] s = Some s"
| "run_moves fastPath (m # ms) s = (case race_move fastPath m s of None \<Rightarrow> None | Some s' \<Rightarrow> run_moves fastPath ms s')"

definition free_race :: race where
  "free_race = \<lparr>r_state = SLOT_FREE, r_gen = 0, r_lease = 0, r_active = False, r_at = (\<lambda>_. Outside), r_guest = Polling,
     r_stolen = False, r_expired = False, r_reclaimed = False\<rparr>"

lemma run_moves_reachable:
  "reachable race_init (race_step fastPath) s \<Longrightarrow> run_moves fastPath ms s = Some s' \<Longrightarrow> reachable race_init (race_step fastPath) s'"
proof (induction ms arbitrary: s)
  case (Cons m ms)
  then obtain s1 where s1: "race_move fastPath m s = Some s1" "run_moves fastPath ms s1 = Some s'"
    by (auto split: option.splits)
  have "reachable race_init (race_step fastPath) s1"
    by (rule reachable.move [OF Cons.prems(1)]) (use s1(1) in \<open>auto simp: race_step_def\<close>)
  then show ?case
    using Cons.IH s1(2) by blast
qed simp

lemma free_race_reachable: "run_moves fastPath ms free_race = Some s \<Longrightarrow> reachable race_init (race_step fastPath) s"
  by (rule run_moves_reachable [OF reachable.start]) (simp_all add: race_init_def free_race_def)

text \<open>
  Pieces of runs: a claim of a free slot, the steal of an abandoned one, the begin of a
  transaction, the answer of the guest with and without the fast path, the end of a transaction.
\<close>

abbreviation claims :: "nat \<Rightarrow> race_event list" where
  "claims t \<equiv> [Enter t, Access t, Access t, Access t, Access t, Stamp t 5]"

abbreviation steals :: "nat \<Rightarrow> race_event list" where
  "steals t \<equiv> [Enter t, Access t, Access t, Access t, Access t, Access t, Stamp t 9]"

abbreviation sends :: "nat \<Rightarrow> race_event list" where
  "sends t \<equiv> [Arm t, Access t]"

abbreviation answers :: "bool \<Rightarrow> race_event list" where
  "answers fastPath \<equiv> (if fastPath then [Guest, Guest, Guest, Guest] else [Guest, Guest, Guest, GuestStamp 6, Guest, Guest])"

abbreviation collects :: "nat \<Rightarrow> race_event list" where
  "collects t \<equiv> [Access t, Access t, Access t]"

lemmas race_eval = free_race_def moved_def owns_def stealable_def shm_consts guest_access_def guest_claim_def
  lockForPublish_def publishResponse_def lease_stale_def

text \<open>
  Thread 0 times out. A reclaimer is about to free the slot it left behind when thread 1
  steals it first; the reclaimer then loses the exchange of the generation.
\<close>

theorem slot_owned_by_one_thread_witness:
  "\<exists>s. run_moves True (claims 0 @ sends 0 @ [Guest, Guest, Expire 0, Access 0, Sweep 2, Access 2, Access 2, Access 2,
       Clock 2 1000 10, Access 2] @ steals 1 @ [Access 2]) free_race = Some s \<and>
     phase_ok s Owner \<and> \<not> owns (r_at s 0) \<and> \<not> owns (r_at s 2)"
proof -
  obtain s where s: "run_moves True (claims 0 @ sends 0 @ [Guest, Guest, Expire 0, Access 0, Sweep 2, Access 2, Access 2, Access 2,
       Clock 2 1000 10, Access 2] @ steals 1 @ [Access 2]) free_race = Some s"
      "\<not> r_stolen s" "\<not> r_reclaimed s" "r_at s 1 = Owner"
    by (simp add: race_eval)
  then show ?thesis
    using slot_owned_by_one_thread [OF free_race_reachable [OF s(1)] s(2,3), of 1 0]
      slot_owned_by_one_thread [OF free_race_reachable [OF s(1)] s(2,3), of 1 2] by (simp add: owns_def)
qed

text \<open>
  C34. A live transaction can be stolen. A thread that observed a response before the owner
  collected it can pass the check of \<open>activeWait\<close> and the exchange of the generation between
  two transactions and then exchange the state of the next one: without any timeout, without
  any reclaim and with either claim of the guest, two threads are in possession of the slot. The
  next transaction may be one of the same held session or of a thread that claimed the freed slot.
\<close>

theorem live_transaction_stolen:
  "(\<exists>s. reachable race_init (race_step fastPath) s \<and> \<not> r_expired s \<and> \<not> r_reclaimed s \<and>
      r_at s 0 = Waiting \<and> r_active s \<and> r_at s 1 = Owner) \<and>
   (\<exists>s. reachable race_init (race_step fastPath) s \<and> \<not> r_expired s \<and> \<not> r_reclaimed s \<and>
      r_at s 0 = Outside \<and> r_at s 2 = Waiting \<and> r_active s \<and> r_at s 1 = Owner)"
proof
  let ?stale = "claims 0 @ sends 0 @ answers fastPath @ [Enter 1, Access 1, Access 1] @ collects 0 @ [Access 1, Access 1]"
  have "\<exists>s. run_moves fastPath (?stale @ sends 0 @ answers fastPath @ [Access 1, Stamp 1 9]) free_race = Some s \<and>
      \<not> r_expired s \<and> \<not> r_reclaimed s \<and> r_at s 0 = Waiting \<and> r_active s \<and> r_at s 1 = Owner"
    by (cases fastPath) (simp_all add: race_eval)
  then show "\<exists>s. reachable race_init (race_step fastPath) s \<and> \<not> r_expired s \<and> \<not> r_reclaimed s \<and>
      r_at s 0 = Waiting \<and> r_active s \<and> r_at s 1 = Owner"
    using free_race_reachable by blast
  have "\<exists>s. run_moves fastPath (?stale @ [Free 0] @ claims 2 @ sends 2 @ answers fastPath @ [Access 1, Stamp 1 9]) free_race = Some s \<and>
      \<not> r_expired s \<and> \<not> r_reclaimed s \<and> r_at s 0 = Outside \<and> r_at s 2 = Waiting \<and> r_active s \<and> r_at s 1 = Owner"
    by (cases fastPath) (simp_all add: race_eval)
  then show "\<exists>s. reachable race_init (race_step fastPath) s \<and> \<not> r_expired s \<and> \<not> r_reclaimed s \<and>
      r_at s 0 = Outside \<and> r_at s 2 = Waiting \<and> r_active s \<and> r_at s 1 = Owner"
    using free_race_reachable by blast
qed

end
