(* ===== verification/Spec2Isabelle.thy ===== *)
theory Spec2Isabelle
  imports Shm_Layout Shm_Platform Shm_Result Shm_Slot_Liveness Shm_Reassembler_Complete Shm_Ring_Fifo Shm_Guest_Answer Shm_Doorbell Shm_Host_Init Shm_Host_Send Shm_Stream_Live Shm_Stream_Delivery Shm_Claim_Race
begin

text \<open>
  Verification of the header-only C++ library in \<open>src/include/shm\<close>: calls between a host process
  and a guest process over one segment of shared memory.

  \<^bold>\<open>The program.\<close> \<open>DirectHost\<close> creates and locks a named segment and divides it into an exchange
  header and slots, each with a header, a request buffer and a response buffer. A thread of the
  host acquires a slot from \<open>SlotAllocator\<close>, writes a request, publishes it by the slot state and
  waits, first spinning and then on a kernel event (\<open>WaitStrategy\<close>), until the guest has
  answered. \<open>GuestCallWorker\<close> serves the calls of the opposite direction on the guest slots.
  \<open>StreamSender\<close> cuts a large buffer into chunks sent over several slots at once and
  \<open>StreamReassembler\<close> puts such a stream together again; \<open>RingBufferSender\<close> turns a slot into a
  byte ring. \<open>Platform\<close> wraps the operating system. The guest is the Go library in \<open>src/go\<close>.

  \<^bold>\<open>How it is modelled.\<close> Machine integers are words of their width. Memory is a byte list; an
  access outside a buffer, a division by zero or another undefined operation is the outcome
  \<open>Trap\<close>, so that a theorem about a result also says that no such access happens. A stateful
  operation is a value of the state monad over a record with the fields of its class. Everything
  that runs at the same time (other host threads, the guest, the kernel) is the argument \<open>env\<close>
  of an operation: it may change the shared state before every single access and for the length
  of every wait, and it holds the clocks. A theorem for all \<open>env\<close> with a stated rely condition
  therefore covers every interleaving with the accesses of the operation, under sequential
  consistency. Where the interleaving itself is the subject (\<open>Shm_Ring_Fifo\<close>, \<open>Shm_Doorbell\<close>,
  \<open>Shm_Claim_Race\<close>) the participants are a step relation with one step per access.

  \<^bold>\<open>The theories\<close>, with the sources they translate and what they show:

  \<^item> \<open>Shm_Prelude\<close>: bytes, little-endian encodings, bounded memory, \<open>outcome\<close>, weakest
    preconditions. \<open>Shm_Steps\<close>: the locales \<open>invariant\<close> and \<open>refinement\<close> of step relations; a
    refinement maps every observed run to a behaviour of the abstract system.
  \<^item> \<open>Shm_Layout\<close> (\<open>IPCUtils.h\<close>, \<open>IPCProtocol.h\<close>, \<open>RingBufferUtils.h\<close>, headers of \<open>Stream.h\<close>):
    constants and structs laid out by the C++ rule, with lemmas that the computed sizes and
    offsets meet every \<open>static_assert\<close>; the struct a pointer into a byte buffer shows.
  \<^item> \<open>Shm_Result\<close> (\<open>Result.h\<close>), \<open>Shm_Platform\<close> (\<open>Platform.h\<close>): \<open>CopySmall\<close> is \<open>memcpy\<close>, the topology
    enumerators stay in their buffers and end, the lock registry admits one host for a name.
    The Win32 calls are the fields of a record passed to the definitions.
  \<^item> \<open>Shm_Wait\<close> (\<open>WaitStrategy.h\<close>): the adaptive wait and the rule its clients use.
  \<^item> \<open>Shm_Slots\<close> (\<open>SlotAllocator.h\<close>, all operations). \<open>Shm_Slot_Rely\<close> holds the rely rules in the
    locale \<open>slot_rely\<close>; \<open>Shm_Slot_Send\<close> shows that the three send paths are remote calls under
    an answering guest and memory-safe against every peer; \<open>Shm_Slot_Claim\<close> what acquisition and
    reclaiming do when undisturbed; \<open>Shm_Slot_Liveness\<close> (locale \<open>timed_env\<close>) that the calls with a
    timeout return, those of \<open>DirectHost.h\<close> included. \<open>Shm_Claim_Race\<close> puts any number of claiming,
    transacting and reclaiming threads and the worker of the guest on one slot: it has one owner
    until a steal or a reclaim hits a transaction in progress, and a steal can do that.
  \<^item> \<open>Shm_Guest_Calls\<close> (\<open>GuestCallWorker.h\<close>), \<open>Shm_Guest_Safe\<close>, \<open>Shm_Guest_Answer\<close>: the
    processor answers the pending requests in order and is safe against every guest.
    \<open>Shm_Doorbell\<close>: no wakeup between waiter and senders is lost.
  \<^item> \<open>Shm_Reassembler\<close> (\<open>StreamReassembler.h\<close>), \<open>Shm_Reassembler_Inv\<close>, \<open>Shm_Reassembler_Trace\<close>,
    \<open>Shm_Reassembler_Complete\<close>: for all traffic the limits hold and what is delivered is a
    whole stream; a conforming stream is delivered.
  \<^item> \<open>Shm_Ring\<close> (\<open>RingBuffer.h\<close>, \<open>Read\<close> of \<open>src/go/ringbuffer.go\<close>), \<open>Shm_Ring_Fifo\<close>: producer and
    consumer refine a bounded queue of bytes, with the bytes that go in and come out as the
    observations; \<open>Write\<close> completes when the consumer keeps up.
  \<^item> \<open>Shm_Host\<close>, \<open>Shm_Facade\<close> (\<open>DirectHost.h\<close>), \<open>Shm_Host_Init\<close>, \<open>Shm_Host_Send\<close>: the layout of the
    segment and the guest's view of it (\<open>NewDirectGuest\<close> of \<open>src/go/direct.go\<close>), \<open>Init\<close> as all or
    nothing, slot wrappers that outlive a session, and \<open>Send\<close> from the acquisition to the reply
    with other threads competing: the acquisition in every pool whose buffers keep their sizes
    (locale \<open>shaped_pool\<close>), the transaction on the slot that was won while the others leave it to
    its owner and to the guest (locale \<open>owned_slot\<close>).
  \<^item> \<open>Shm_Stream_Sender\<close> (\<open>Stream.h\<close>): the sender over the seven host methods it calls.
    \<open>Shm_Stream_Pipeline\<close> states what it needs of a host (locale \<open>stream_host\<close>) and derives the
    messages it sends; \<open>Shm_Stream_Direct\<close> interprets the locale on \<open>DirectHost\<close>.
    \<open>Shm_Stream_Prompt\<close> (locale \<open>prompt_host\<close>) and \<open>Shm_Stream_Live\<close> show that \<open>Send\<close> returns
    success when the guest accepts; \<open>Shm_Stream_Delivery\<close> leads the messages through the
    reassembler to the delivered buffer.
  \<^item> This theory: the way of a buffer from \<open>StreamSender::Send\<close> through the slots to the callback of
    the reassembler (\<open>stream_end_to_end\<close>), and what is left of a host after \<open>Shutdown\<close>.

  \<^bold>\<open>Fuel.\<close> A loop of the source that has no bound of its own takes a number of iterations, and
  running out of it is the outcome \<open>NoFuel\<close>, which no theorem takes for a result. That the
  numbers suffice is proved: \<open>blocking_calls_return\<close> for the waits with a timeout (some number
  is enough in every environment whose clock advances, and more of them change nothing),
  \<open>acquire_slot_finds\<close> for the search of a
  free slot (one round of the pool), \<open>ring_write_completes\<close> (one iteration per byte),
  \<open>stream_send_completes\<close> (one round per part, and one). Waiting with the timeout \<open>INFINITE\<close> and
  acquisition from a pool that stays full (\<open>acquire_slot_blocks_on_full_pool\<close>) do not end, in
  the source as in the model;
  \<open>send_loop_spins\<close> shows the same of a stream without room in its pipeline. All other loops
  are total functions. Streams are at most 1 GiB, the limit the code itself enforces; pools
  are smaller than \<open>2 ^ 31\<close> slots, where the code converts indices to \<open>int32_t\<close>.

  \<^bold>\<open>Not modelled.\<close> \<open>Logger.h\<close>: output that exists in debug builds only and that no operation reads.
  \<open>CpuRelax\<close>, \<open>ThreadYield\<close> and \<open>GetPid\<close>: no effect on the state, a yield is one more moment for
  the environment. The debug-only deadlock report of \<open>AcquireSlot\<close>. Weak memory orders: accesses
  are sequentially consistent, and the choice of acquire and release is not examined. A peer that
  rewrites a stream message while \<open>Handle\<close> works on it: the request is one value there. The Go
  guest beyond the parts named above, the tests and the benchmarks.
\<close>

section \<open>Streams end to end\<close>

text \<open>The messages a list of calls puts into slots: the type and the bytes of each request.\<close>

fun slot_messages :: "api_call list \<Rightarrow> (MsgType \<times> byte list) list" where
  "slot_messages (Wrote s bs # Called s' n mt ok # tr) = (mt, take (unat n) bs) # slot_messages tr"
| "slot_messages (Wrote s bs # Sent s' n mt ok # tr) = (mt, take (unat n) bs) # slot_messages tr"
| "slot_messages (_ # tr) = slot_messages tr"
| "slot_messages [] = []"

lemma pipeline_messages:
  assumes "pipeline inFlight i ps k q tr" and "\<And>k. k < length ps \<Longrightarrow> length (ps ! k) < 2 ^ 31"
  shows "slot_messages (tr @ rest) = map (\<lambda>k. (STREAM_CHUNK, chunk_bytes i ps k)) [0..<k] @ slot_messages rest"
  using assms(1)
proof (induction arbitrary: rest rule: pipeline.induct)
  case (pipe_send k q tr s)
  have "unat (word_of_nat (length (chunk_bytes i ps k)) :: u32) = length (chunk_bytes i ps k)"
    using assms(2) [OF pipe_send.hyps(2)] by (intro unat_u32_of_nat) (simp add: chunk_bytes_def)
  then show ?case
    using pipe_send.IH [of "chunk_calls i ps k s True @ rest"] by (simp add: chunk_calls_def)
qed simp_all

lemma stream_messages:
  assumes "stream_calls inFlight i tag (split_parts n d) (Ret Success) tr" and "0 < n" and "n < 2 ^ 31"
  shows "slot_messages tr = (STREAM_START, StreamHeader_bytes (start_header i tag (split_parts n d))) #
    map (\<lambda>k. (STREAM_CHUNK, chunk_bytes i (split_parts n d) k)) [0..<length (split_parts n d)]"
proof -
  obtain s tr' where p: "pipeline inFlight i (split_parts n d) (length (split_parts n d)) [] tr'"
    and tr: "tr = start_calls i tag (split_parts n d) s True @ tr'"
    using assms(1) by (auto simp: stream_calls_def)
  have "length (split_parts n d ! k) < 2 ^ 31" if "k < length (split_parts n d)" for k
    using nth_split_parts [OF assms(2) that] assms(3) by simp
  from pipeline_messages [OF p this, of "[]"] show ?thesis
    by (simp add: tr start_calls_def unat_u32_of_nat)
qed

lemma in_order_window: "within_window limit [0..<n]"
proof -
  have "take j [0..<n] = [0..<min j n]" for j
    by (cases "j \<le> n") (simp_all add: take_upt)
  then have "parked (take j [0..<n]) \<le> limit" for j
    using parked_bound [of "min j n" "[0..<min j n]" "min j n"] by (simp add: lessThan_atLeast0)
  then show ?thesis
    by (simp add: within_window_def list_all_iff)
qed

text \<open>
  C2. A buffer crosses the library. On an idle pool of slots, with a guest that answers each
  request before the next access of the host and accepts it, \<open>StreamSender::Send\<close> succeeds; and
  when a \<open>StreamReassembler\<close> that admits the stream handles the messages that \<open>Send\<close> has put
  into the slots, in their order and between any other traffic, it acknowledges each of them
  and hands the buffer to its callback, once and byte for byte.
\<close>

theorem stream_end_to_end:
  fixes m :: message
  assumes "prompt_env g env" and "accepts g mr STREAM_START" and "accepts g mr STREAM_CHUNK" and "idle_pool mq mr (h_alloc h)"
    and "int sizeof_ChunkHeader < sint mq" and "baseSlot self < 0"
    and "0 < maxInFlight self" and "maxInFlight self \<le> int (unat (numSlots (h_alloc h)))" and "length d \<le> 2 ^ 30"
    and "length (split_parts (nat (sint mq - int sizeof_ChunkHeader)) d) < fuel" and "unat (numSlots (h_alloc h)) \<le> tries"
    and "run_state (stream_Send fuel (Some (direct_api tries env)) self (Some d) (word_of_nat (length d)) i tag) (h, []) = (res, h', tr)"
    and "run_events pre (StreamReassembler cfg) = Some (replies0, r)"
    and "admissible (r_config r) (split_parts (nat (sint mq - int sizeof_ChunkHeader)) d)"
    and "(m_type m, m_req m) # own_messages i es = slot_messages tr"
    and "length (r_streams (Prune (nowPrune (m_call m)) r)) < unat (maxStreams cfg)" and "allocates (m_call m) (length d)"
    and "list_all (timely cfg (nowStart (m_call m))) es" and "memory_available es"
  shows "res = Ret Success \<and>
    (\<exists>replies r'. run_events (pre @ Arrives m # es) (StreamReassembler cfg) = Some (replies0 @ reply_ok # replies, r') \<and>
      set (own_replies i es replies) = {reply_ok} \<and>
      deliveries_of i r' = deliveries_of i r @ [(i, tag, d)] \<and> map_of (r_streams r') i = None)"
proof -
  define n where "n = nat (sint mq - int sizeof_ChunkHeader)"
  let ?ps = "split_parts n d"
  have n: "0 < n" "n < 2 ^ 31"
    using assms(5) sint_lt [of mq] by (simp_all add: n_def)
  have sent: "res = Ret Success" "stream_calls (maxInFlight self) i tag ?ps (Ret Success) tr"
    using stream_completion [OF assms(1-11), of i tag] assms(12) by (auto simp: n_def)
  have msgs: "(m_type m, m_req m) # own_messages i es = (STREAM_START, StreamHeader_bytes (start_header i tag ?ps)) #
      map (\<lambda>k. (STREAM_CHUNK, chunk_bytes i ?ps k)) [0..<length ?ps]"
    unfolding assms(15) by (rule stream_messages [OF sent(2) n])
  have ne: "?ps \<noteq> []"
    using admissible_nonempty [OF assms(14)] by (simp add: n_def)
  then obtain k where k: "length ?ps = Suc k"
    by (cases "length ?ps") auto
  have d: "concat ?ps = d"
    by (rule concat_split_parts [OF n(1)])
  have "\<exists>replies r'. run_events (pre @ Arrives m # es) (StreamReassembler cfg) = Some (replies0 @ reply_ok # replies, r') \<and>
      own_replies i es replies = replicate (Suc (length [0..<k])) reply_ok \<and>
      deliveries_of i r' = deliveries_of i r @ [(i, tag, concat ?ps)] \<and> map_of (r_streams r') i = None"
  proof (rule stream_delivery [OF assms(13) assms(14) [folded n_def]])
    show "own_messages i es = map (\<lambda>k. (STREAM_CHUNK, chunk_bytes i ?ps k)) ([0..<k] @ [k])"
      using msgs by (simp add: k)
    show "within_window (unat (maxParkedChunks cfg)) ([0..<k] @ [k])"
      using in_order_window [of _ "Suc k"] by simp
  qed (use msgs assms(16-19) k in \<open>auto simp: d\<close>)
  then show ?thesis
    using sent(1) by (auto simp: d)
qed

text \<open>A pool of one slot with buffers of 26 bytes, two of them payload, and a receiver that prunes in between.\<close>

definition narrow_host :: host where
  "narrow_host = DirectHost\<lparr>h_alloc := demo_alloc\<lparr>slots := [upd_header (h_state_update (\<lambda>_. SLOT_FREE))
     (demo_slot\<lparr>maxReqSize := 26, maxRespSize := 26, reqBuffer := replicate 26 0, respBuffer := replicate 26 0\<rparr>)]\<rparr>\<rparr>"

definition ordered_events :: "event list" where
  "ordered_events = [demo_chunk 9 0, Pruned 11, demo_chunk 9 1]"

lemma narrow_pool: "idle_pool 26 26 (h_alloc narrow_host)" "numSlots (h_alloc narrow_host) = 1"
  by (simp_all add: idle_pool_def narrow_host_def demo_alloc_def demo_slot_def slot_ok_def upd_header_def)

lemma ordered_messages:
  assumes "run_state (stream_Send 3 (Some (direct_api 1 (pool_env ack_handler))) (StreamSender 1 (- 1)) (Some [1, 2, 3]) (word_of_nat 3) 9 77)
    (narrow_host, []) = (res, h', tr)"
  shows "(m_type demo_start, m_req demo_start) # own_messages 9 ordered_events = slot_messages tr"
proof -
  have "stream_calls 1 9 77 (split_parts 2 [1, 2, 3]) (Ret Success) tr"
    using stream_completion [OF prompt_pool_env ack_accepts narrow_pool(1), of "StreamSender 1 (- 1)" "[1, 2, 3]" 3 1 9 77] assms narrow_pool(2)
    by (auto simp: StreamSender_def demo_split demo_parts_def)
  from stream_messages [OF this] show ?thesis
    by (simp add: demo_split)
      (simp add: own_messages_def ordered_events_def demo_start_def demo_chunk_def demo_parts_def concerns_def chunk_bytes_def chunk_header_def
        shm_consts upt_rec)
qed

theorem stream_end_to_end_witness:
  "case run_state (stream_Send 3 (Some (direct_api 1 (pool_env ack_handler))) (StreamSender 1 (- 1)) (Some [1, 2, 3]) (word_of_nat 3) 9 77)
      (narrow_host, []) of (res, _) \<Rightarrow> res = Ret Success \<and>
    (\<exists>replies r'. run_events ([] @ Arrives demo_start # ordered_events) (StreamReassembler default_config) = Some ([] @ reply_ok # replies, r') \<and>
      set (own_replies 9 ordered_events replies) = {reply_ok} \<and>
      deliveries_of 9 r' = deliveries_of 9 (StreamReassembler default_config) @ [(9, 77, [1, 2, 3])] \<and> map_of (r_streams r') 9 = None)"
proof -
  obtain res h' tr where run: "run_state (stream_Send 3 (Some (direct_api 1 (pool_env ack_handler))) (StreamSender 1 (- 1)) (Some [1, 2, 3])
      (word_of_nat (length [1 :: byte, 2, 3])) 9 77) (narrow_host, []) = (res, h', tr)"
    by (metis surj_pair)
  have "res = Ret Success \<and>
    (\<exists>replies r'. run_events ([] @ Arrives demo_start # ordered_events) (StreamReassembler default_config) = Some ([] @ reply_ok # replies, r') \<and>
      set (own_replies 9 ordered_events replies) = {reply_ok} \<and>
      deliveries_of 9 r' = deliveries_of 9 (StreamReassembler default_config) @ [(9, 77, [1, 2, 3])] \<and> map_of (r_streams r') 9 = None)"
  proof (rule stream_end_to_end [OF prompt_pool_env ack_accepts narrow_pool(1) _ _ _ _ _ _ _ run])
    show "(m_type demo_start, m_req demo_start) # own_messages 9 ordered_events = slot_messages tr"
      using ordered_messages run by simp
    show "memory_available ordered_events"
      by (simp add: memory_available_def ordered_events_def demo_chunk_def demo_call_def layout_defs)
    show "list_all (timely default_config (nowStart (m_call demo_start))) ordered_events"
      by (simp add: ordered_events_def demo_chunk_def demo_start_def demo_call_def elapsed_ms_def shm_consts)
    show "admissible (r_config (StreamReassembler default_config)) (split_parts (nat (sint (26 :: u32) - int sizeof_ChunkHeader)) [1, 2, 3])"
      by (simp add: demo_split admissible_def StreamReassembler_def IsValid_def default_config_def demo_parts_def kMaxStreamSize_def)
  qed (simp_all add: StreamSender_def narrow_pool(2) demo_split demo_parts_def demo_start_def demo_call_def StreamReassembler_def Prune_def
      PruneInternal_def default_config_def)
  then show ?thesis
    using run by simp
qed

section \<open>A host that was shut down\<close>

text \<open>
  After \<open>Shutdown\<close>, and before the next \<open>Init\<close>, every way to acquire a slot returns -1, \<open>Send\<close>
  and \<open>SendToSlot\<close> report \<open>ResourceExhausted\<close>, no guest call is processed and a stream is refused
  before its first message. A second \<open>Shutdown\<close> has no effect. The calls on a slot acquired
  earlier, \<open>SendAcquired\<close>, \<open>SendAcquiredAsync\<close>, \<open>WaitForSlot\<close> and \<open>SendHeld\<close>, have no such check.
\<close>

lemma shut_down_host_refuses:
  fixes h :: host
  assumes "Shutdown w env reg os h = (h', reg', os')"
  shows "run_state (dh_AcquireSlot fuel e) h' = (Ret (- 1), h') \<and>
    run_state (dh_TryAcquireSlot e) h' = (- 1, h') \<and>
    run_state (dh_AcquireSpecificSlot fuel e slotIdx t) h' = (Ret (- 1), h') \<and>
    run_state (SendToSlot fuel e idx data sz mt out t) (h_alloc h') = (Ret (Inl ResourceExhausted, out), h_alloc h') \<and>
    run_state (host_Send fuel e data sz mt out t) (h_alloc h') = (Ret (Inl ResourceExhausted, out), h_alloc h') \<and>
    run_state (dh_ProcessGuestCalls handler e limit) h' = (Ret 0, h') \<and>
    run_state (stream_Send rounds (Some (direct_api fuel e)) (StreamSender inFlight (- 1)) (Some d) n i tag) (h', []) =
      (Ret (Failure (if n > kMaxStreamSize then InvalidArgs else ResourceExhausted)), (h', [])) \<and>
    Shutdown w env reg' os' h' = (h', reg', os')"
proof -
  have off: "\<not> running (h_alloc h')"
    using assms by (auto simp: Shutdown_def Let_def split: if_splits prod.splits)
  have acquire: "run_state (AcquireSlot fuel e) (h_alloc h') = (Ret (- 1), h_alloc h')"
    "run_state (TryAcquireSlot e) (h_alloc h') = (- 1, h_alloc h')"
    "run_state (AcquireSpecificSlot fuel e k t) (h_alloc h') = (Ret (- 1), h_alloc h')" for k
    using off by (simp_all add: AcquireSlot_def TryAcquireSlot_def AcquireSpecificSlot_def)
  have send: "run_state (SendToSlot fuel e idx data sz mt out t) (h_alloc h') = (Ret (Inl ResourceExhausted, out), h_alloc h')"
    "run_state (host_Send fuel e data sz mt out t) (h_alloc h') = (Ret (Inl ResourceExhausted, out), h_alloc h')"
    using acquire by (simp_all add: SendToSlot_def host_Send_def obind_def)
  have calls: "run_state (dh_ProcessGuestCalls handler e limit) h' = (Ret 0, h')"
    using off by (simp add: dh_ProcessGuestCalls_def on_allocator_def ProcessGuestCalls_def)
  have slot: "run_state (dh_AcquireSlot fuel e) h' = (Ret (- 1), h')" "run_state (dh_TryAcquireSlot e) h' = (- 1, h')"
    "run_state (dh_AcquireSpecificSlot fuel e slotIdx t) h' = (Ret (- 1), h')"
    using acquire by (simp_all add: dh_AcquireSlot_def dh_TryAcquireSlot_def dh_AcquireSpecificSlot_def on_allocator_def)
  have "run_state (stream_Send rounds (Some (direct_api fuel e)) (StreamSender inFlight (- 1)) (Some d) n i tag) (h', []) =
      (Ret (Failure (if n > kMaxStreamSize then InvalidArgs else ResourceExhausted)), (h', []))"
    using slot(1)
    by (simp add: stream_Send_def StreamSender_def send_start_def acquireSlot_def traced_def direct_api_def obind_def)
  then show ?thesis
    using slot send calls off by (simp add: Shutdown_def)
qed


end
